theory Spec2Isabelle
  imports Main "HOL-Library.Word"
begin

section \<open>Machine integers of the target board\<close>

text \<open>
  The sketches are written for the Arduino Mega and the Arduino Nano (AVR boards, see the
  file headers: "Currently coded for Arduino Mega", "now tested on Nano").  With avr-gcc an
  \<^verbatim>\<open>int\<close> has 16 bits and an \<^verbatim>\<open>unsigned long\<close> has 32 bits.  Both are modelled as
  words: arithmetic wraps, \<open>sint\<close> reads an \<^verbatim>\<open>int\<close>, \<open>unat\<close> reads an
  \<^verbatim>\<open>unsigned long\<close>, \<open><s\<close> is the signed comparison.
\<close>

type_synonym c_int = "16 word"
type_synonym c_ulong = "32 word"

text \<open>Arduino's \<^verbatim>\<open>HIGH\<close> and \<^verbatim>\<open>LOW\<close> are the \<^verbatim>\<open>int\<close> constants 1 and 0.\<close>

definition HIGH :: c_int where
  "HIGH = 1"

definition LOW :: c_int where
  "LOW = 0"

text \<open>
  Assigning an \<^verbatim>\<open>unsigned long\<close> to an \<^verbatim>\<open>int\<close> keeps the low 16 bits
  (\<^verbatim>\<open>button.lastDebounceTime = millis()\<close>, \<^verbatim>\<open>delayReset = valPot*delayResetMax/1000\<close>).
\<close>

definition int_of_ulong :: "c_ulong \<Rightarrow> c_int" where
  "int_of_ulong t = ucast t"

text \<open>
  In a binary operation between an \<^verbatim>\<open>int\<close> and an \<^verbatim>\<open>unsigned long\<close> the
  \<^verbatim>\<open>int\<close> operand is converted to \<^verbatim>\<open>unsigned long\<close>, which extends its sign
  (\<^verbatim>\<open>millis() - button.lastDebounceTime\<close>, \<^verbatim>\<open>valPot*delayResetMax\<close>,
  \<^verbatim>\<open>millis() - timestamp < delayReset\<close>, \<^verbatim>\<open>delayReset < delayResetMax\<close>).
\<close>

definition ulong_of_int :: "c_int \<Rightarrow> c_ulong" where
  "ulong_of_int i = scast i"

section \<open>Buttons\<close>

text \<open>
  \<^verbatim>\<open>struct Button\<close>.  The Nano revision has the four fields below; the revisions that
  drive one LED per buzzer add \<^verbatim>\<open>pinLED\<close>.
\<close>

record Button =
  pinButton :: c_int
  buttonState :: c_int
  lastButtonState :: c_int
  lastDebounceTime :: c_int

record ButtonLED = Button +
  pinLED :: c_int

subsection \<open>The debounced reader\<close>

text \<open>
  The expression \<^verbatim>\<open>millis() - button.lastDebounceTime\<close>: the left operand is an
  \<^verbatim>\<open>unsigned long\<close>, the right one the \<^verbatim>\<open>int\<close> field.
\<close>

definition debounceElapsed :: "c_ulong \<Rightarrow> c_int \<Rightarrow> c_ulong" where
  "debounceElapsed now ldt = now - ulong_of_int ldt"

text \<open>
  The body of \<^verbatim>\<open>int readButtonState(Button button)\<close>, the same text in every revision,
  acting on the function's own parameter object \<open>button\<close>.  \<open>reading\<close> is what
  \<^verbatim>\<open>digitalRead(button.pinButton)\<close> returns, \<open>now1\<close> and \<open>now2\<close> are the values
  of the first and of the second call of \<^verbatim>\<open>millis()\<close> (the first happens only when
  the reading differs from \<open>lastButtonState\<close>).  \<open>debounceDelay\<close> is the global constant
  (500 in three revisions, 50 in the menu revision).  The result is the parameter object
  as it is when the function returns.
\<close>

definition readButtonState_body ::
  "c_ulong \<Rightarrow> 'a Button_scheme \<Rightarrow> c_int \<Rightarrow> c_ulong \<Rightarrow> c_ulong \<Rightarrow> 'a Button_scheme" where
  "readButtonState_body debounceDelay button reading now1 now2 =
     (let b1 = (if reading \<noteq> lastButtonState button
                then button\<lparr>lastDebounceTime := int_of_ulong now1\<rparr>
                else button);
          b2 = (if debounceElapsed now2 (lastDebounceTime b1) > debounceDelay
                then b1\<lparr>buttonState := reading\<rparr>
                else b1)
      in b2\<lparr>lastButtonState := reading\<rparr>)"

text \<open>The value returned: \<^verbatim>\<open>return button.buttonState\<close>.\<close>

definition readButtonState ::
  "c_ulong \<Rightarrow> 'a Button_scheme \<Rightarrow> c_int \<Rightarrow> c_ulong \<Rightarrow> c_ulong \<Rightarrow> c_int" where
  "readButtonState debounceDelay button reading now1 now2 =
     buttonState (readButtonState_body debounceDelay button reading now1 now2)"

subsection \<open>The call, with the objects in a store\<close>

text \<open>
  The Button objects of the program: the elements of the global array
  \<^verbatim>\<open>buzzers[team][player]\<close>, the global \<^verbatim>\<open>whiteButton\<close>, and the parameter
  \<^verbatim>\<open>button\<close> of \<^verbatim>\<open>readButtonState\<close>.  The parameter is declared
  \<^verbatim>\<open>Button button\<close>, not \<^verbatim>\<open>Button &button\<close>: a call copies the argument into the
  parameter object and the body works on that copy.
\<close>

datatype var = Buzzer nat nat | WhiteButton | Param

type_synonym 'a store = "var \<Rightarrow> 'a Button_scheme"

definition call_readButtonState ::
  "c_ulong \<Rightarrow> 'a store \<Rightarrow> var \<Rightarrow> c_int \<Rightarrow> c_ulong \<Rightarrow> c_ulong \<Rightarrow> c_int \<times> 'a store" where
  "call_readButtonState debounceDelay s arg reading now1 now2 =
     (let s1 = s(Param := s arg);
          s2 = s1(Param := readButtonState_body debounceDelay (s1 Param) reading now1 now2)
      in (buttonState (s2 Param), s2))"

text \<open>
  Successive calls \<^verbatim>\<open>readButtonState(g)\<close> on the same global object \<open>g\<close>, one per
  sample (reading, first clock value, second clock value); the values returned, in order,
  and the store after the last call.
\<close>

fun pollSeq ::
  "c_ulong \<Rightarrow> 'a store \<Rightarrow> var \<Rightarrow> (c_int \<times> c_ulong \<times> c_ulong) list \<Rightarrow> c_int list \<times> 'a store" where
  "pollSeq debounceDelay s g [] = ([], s)"
| "pollSeq debounceDelay s g ((reading, now1, now2) # samples) =
     (let (r, s') = call_readButtonState debounceDelay s g reading now1 now2;
          (rs, s'') = pollSeq debounceDelay s' g samples
      in (r # rs, s''))"

subsection \<open>The configured buttons\<close>

text \<open>
  \<^verbatim>\<open>buzzers\<close> and \<^verbatim>\<open>whiteButton\<close> of the initial revision (first sketch of
  \<^verbatim>\<open>src/GeniesEnHerbe.ino\<close>): every button starts as \<^verbatim>\<open>{pin, led, LOW, LOW, 0}\<close>
  and a pressed buzzer is one that reads \<^verbatim>\<open>HIGH\<close>.
\<close>

definition mkButton :: "c_int \<Rightarrow> c_int \<Rightarrow> c_int \<Rightarrow> c_int \<Rightarrow> c_int \<Rightarrow> ButtonLED" where
  "mkButton pb pl bs lbs ldt =
     \<lparr>pinButton = pb, buttonState = bs, lastButtonState = lbs, lastDebounceTime = ldt,
      pinLED = pl\<rparr>"

definition buzzers_v1 :: "ButtonLED list list" where
  "buzzers_v1 =
     [[mkButton 23 53 LOW LOW 0, mkButton 25 51 LOW LOW 0,
       mkButton 27 49 LOW LOW 0, mkButton 29 47 LOW LOW 0],
      [mkButton 31 45 LOW LOW 0, mkButton 33 43 LOW LOW 0,
       mkButton 35 41 LOW LOW 0, mkButton 37 39 LOW LOW 0]]"

definition whiteButton_v1 :: ButtonLED where
  "whiteButton_v1 = mkButton 7 5 LOW LOW 0"

text \<open>
  The LCD revision with the potentiometer (third sketch of \<^verbatim>\<open>src/GeniesEnHerbe.ino\<close>):
  same initial states, other pins, and a pressed buzzer reads \<^verbatim>\<open>LOW\<close>.
\<close>

definition buzzers_lcd :: "ButtonLED list list" where
  "buzzers_lcd =
     [[mkButton 31 53 LOW LOW 0, mkButton 33 51 LOW LOW 0,
       mkButton 35 49 LOW LOW 0, mkButton 37 47 LOW LOW 0],
      [mkButton 23 45 LOW LOW 0, mkButton 25 43 LOW LOW 0,
       mkButton 27 41 LOW LOW 0, mkButton 29 39 LOW LOW 0]]"

definition whiteButton_lcd :: ButtonLED where
  "whiteButton_lcd = mkButton 7 5 LOW LOW 0"

text \<open>
  The menu revision (\<^verbatim>\<open>GeniesEnHerbe/GeniesEnHerbe.ino\<close>): every button starts as
  \<^verbatim>\<open>{pin, led, HIGH, LOW, 0}\<close>, a pressed button reads \<^verbatim>\<open>LOW\<close>.
\<close>

definition buzzers_menu :: "ButtonLED list list" where
  "buzzers_menu =
     [[mkButton 31 53 HIGH LOW 0, mkButton 33 51 HIGH LOW 0,
       mkButton 35 49 HIGH LOW 0, mkButton 37 47 HIGH LOW 0],
      [mkButton 23 45 HIGH LOW 0, mkButton 25 43 HIGH LOW 0,
       mkButton 27 41 HIGH LOW 0, mkButton 29 39 HIGH LOW 0]]"

definition whiteButton_menu :: ButtonLED where
  "whiteButton_menu = mkButton 7 5 HIGH LOW 0"

text \<open>
  The Nano revision (second sketch of \<^verbatim>\<open>src/GeniesEnHerbe.ino\<close>): no LEDs,
  \<^verbatim>\<open>whiteButton = {pin_reset, HIGH, LOW, 0}\<close> with \<^verbatim>\<open>pin_reset = 12\<close>.
\<close>

definition whiteButton_nano :: Button where
  "whiteButton_nano =
     \<lparr>pinButton = 12, buttonState = HIGH, lastButtonState = LOW, lastDebounceTime = 0\<rparr>"

text \<open>The store holding the globals of the menu revision.\<close>

definition store_menu :: "\<lparr>pinLED :: c_int\<rparr> store" where
  "store_menu v =
     (case v of
        Buzzer team player \<Rightarrow> buzzers_menu ! team ! player
      | WhiteButton \<Rightarrow> whiteButton_menu
      | Param \<Rightarrow> whiteButton_menu)"

text \<open>The store holding the globals of the initial revision.\<close>

definition store_v1 :: "\<lparr>pinLED :: c_int\<rparr> store" where
  "store_v1 v =
     (case v of
        Buzzer team player \<Rightarrow> buzzers_v1 ! team ! player
      | WhiteButton \<Rightarrow> whiteButton_v1
      | Param \<Rightarrow> whiteButton_v1)"

text \<open>
  \<^verbatim>\<open>const unsigned long debounceDelay\<close>: 500 in the initial, the Nano and the LCD
  revision, 50 in the menu revision.
\<close>

definition debounceDelay_v1 :: c_ulong where
  "debounceDelay_v1 = 500"

definition debounceDelay_menu :: c_ulong where
  "debounceDelay_menu = 50"

section \<open>The delay before the reset\<close>

subsection \<open>Potentiometer\<close>

text \<open>
  \<^verbatim>\<open>valPot = analogRead(pinDelay); if (valPot > 1000) valPot = -1;
  delayReset = valPot*delayResetMax/1000;\<close>
  with \<^verbatim>\<open>int valPot, delayReset\<close> and \<^verbatim>\<open>const unsigned long delayResetMax\<close>:
  product and quotient are computed in \<^verbatim>\<open>unsigned long\<close>, the result is cut to
  an \<^verbatim>\<open>int\<close>.
\<close>

text \<open>\<^verbatim>\<open>const unsigned long delayResetMax = 5000\<close> in every revision that declares it.\<close>

definition delayResetMax :: c_ulong where
  "delayResetMax = 5000"

definition potDelayReset :: "c_int \<Rightarrow> c_int" where
  "potDelayReset sampled =
     (let valPot = (if 1000 <s sampled then - 1 else sampled)
      in int_of_ulong ((ulong_of_int valPot * delayResetMax) div 1000))"

subsection \<open>Configuration menu\<close>

text \<open>
  The chain of assignments at the end of the menu loop of the menu revision
  (\<^verbatim>\<open>int delayReset\<close>, compared with the \<^verbatim>\<open>unsigned long\<close> constant):
  \<^verbatim>\<open>if (delayReset < 0) delayReset = 1000;
  else if (delayReset < delayResetMax) delayReset += 1000;
  else if (delayReset == delayResetMax) delayReset *= 2;
  else if (delayReset > delayResetMax) delayReset = -1;\<close>
\<close>

definition menuStep :: "c_int \<Rightarrow> c_int" where
  "menuStep delayReset =
     (if delayReset <s 0 then 1000
      else if ulong_of_int delayReset < delayResetMax then delayReset + 1000
      else if ulong_of_int delayReset = delayResetMax then delayReset * 2
      else if ulong_of_int delayReset > delayResetMax then - 1
      else delayReset)"

text \<open>
  The same place in the Nano revision, where both operands are \<^verbatim>\<open>int\<close>:
  \<^verbatim>\<open>if (delayReset < 0) delayReset = 1000;
  else if (delayReset < delayReset2) delayReset += 1000;
  else if (delayReset >= delayReset2) delayReset = -1;\<close>
\<close>

definition menuStep_nano :: "c_int \<Rightarrow> c_int \<Rightarrow> c_int" where
  "menuStep_nano delayReset2 delayReset =
     (if delayReset <s 0 then 1000
      else if delayReset <s delayReset2 then delayReset + 1000
      else if delayReset2 \<le>s delayReset then - 1
      else delayReset)"

text \<open>
  The step the specification describes: increase by a fixed increment up to a ceiling,
  then the sentinel for "no timeout", then the minimum again.
\<close>

definition specStep :: "int \<Rightarrow> int \<Rightarrow> int \<Rightarrow> int \<Rightarrow> int" where
  "specStep minimum increment ceiling d =
     (if d < 0 then minimum
      else if d < ceiling then d + increment
      else - 1)"

section \<open>The controller\<close>

subsection \<open>The world seen by the sketch\<close>

text \<open>
  The sketch runs on one thread and observes the world through \<^verbatim>\<open>digitalRead\<close>,
  \<^verbatim>\<open>analogRead\<close> and \<^verbatim>\<open>millis\<close>.  Observations are indexed by the number \<open>n\<close> of
  calls of \<open>readButtonState\<close> made so far:
  \<^item> \<open>digitalRead w n pin\<close>: the level the call number \<open>n\<close> reads on \<open>pin\<close>;
  \<^item> \<open>millisA w n\<close>, \<open>millisB w n\<close>: the first and the second clock value of that call;
  \<^item> \<open>millisW w n\<close>: the clock value read by the condition of the reset wait when it is
    evaluated after \<open>n\<close> calls;
  \<^item> \<open>millisT w n\<close>: the value of \<^verbatim>\<open>timestamp = millis()\<close> taken after \<open>n\<close> calls;
  \<^item> \<open>analogRead w n\<close>: the potentiometer value read after \<open>n\<close> calls.
  Calls of \<^verbatim>\<open>delay\<close>, the tone and the LCD only let time pass.
\<close>

record world =
  digitalRead :: "nat \<Rightarrow> c_int \<Rightarrow> c_int"
  millisA :: "nat \<Rightarrow> c_ulong"
  millisB :: "nat \<Rightarrow> c_ulong"
  millisW :: "nat \<Rightarrow> c_ulong"
  millisT :: "nat \<Rightarrow> c_ulong"
  analogRead :: "nat \<Rightarrow> c_int"

text \<open>
  The call number \<open>n\<close> of \<open>readButtonState\<close>, made on (a copy of) \<open>button\<close>.  The caller's
  object is not an output: the calls are by value.
\<close>

definition poll :: "c_ulong \<Rightarrow> world \<Rightarrow> nat \<Rightarrow> 'a Button_scheme \<Rightarrow> c_int" where
  "poll debounceDelay w n button =
     readButtonState debounceDelay button (digitalRead w n (pinButton button))
       (millisA w n) (millisB w n)"

text \<open>
  What the controller does, in order: a call of \<open>readButtonState\<close> on a buzzer or on the
  white reset button, with the value returned, and a \<^verbatim>\<open>digitalWrite(pin, level)\<close>.
\<close>

datatype event =
    ReadBuzzer nat nat c_int
  | ReadWhite c_int
  | DigitalWrite c_int c_int

text \<open>\<^verbatim>\<open>const int numTeams = 2; const int numPlayers = 4;\<close> in every revision.\<close>

definition numTeams :: nat where
  "numTeams = 2"

definition numPlayers :: nat where
  "numPlayers = 4"

subsection \<open>The scan of the potentiometer revisions\<close>

text \<open>
  The inner loop \<^verbatim>\<open>for (player=0; player<numPlayers; player++)\<close> of \<^verbatim>\<open>loop()\<close> in the
  initial revision (\<open>pressed = HIGH\<close>) and in the LCD revision (\<open>pressed = LOW\<close>), from
  \<open>player\<close> on: the first buzzer that reads \<open>pressed\<close> sets \<^verbatim>\<open>teamBuzz\<close>,
  \<^verbatim>\<open>playerBuzz\<close> and breaks.  The state is the number of calls made and the events so far.
\<close>

function scanPlayers ::
  "c_ulong \<Rightarrow> c_int \<Rightarrow> 'a Button_scheme list list \<Rightarrow> world \<Rightarrow> nat \<Rightarrow> nat \<Rightarrow>
   nat \<Rightarrow> event list \<Rightarrow> (nat \<times> nat) option \<times> nat \<times> event list" where
  "scanPlayers debounceDelay pressed buzzers w team player n tr =
     (if player < numPlayers then
        (let r = poll debounceDelay w n (buzzers ! team ! player);
             tr1 = tr @ [ReadBuzzer team player r]
         in if r = pressed then (Some (team, player), Suc n, tr1)
            else scanPlayers debounceDelay pressed buzzers w team (Suc player) (Suc n) tr1)
      else (None, n, tr))"
  by pat_completeness auto
termination
  by (relation "measure (\<lambda>(dd, pressed, buzzers, w, team, player, n, tr). numPlayers - player)")
    auto

declare scanPlayers.simps [simp del]

text \<open>
  The outer loop \<^verbatim>\<open>for (team=0; team<numTeams; team++)\<close>, which breaks as soon as the
  inner loop has found a buzzer.
\<close>

function scanTeams ::
  "c_ulong \<Rightarrow> c_int \<Rightarrow> 'a Button_scheme list list \<Rightarrow> world \<Rightarrow> nat \<Rightarrow>
   nat \<Rightarrow> event list \<Rightarrow> (nat \<times> nat) option \<times> nat \<times> event list" where
  "scanTeams debounceDelay pressed buzzers w team n tr =
     (if team < numTeams then
        (case scanPlayers debounceDelay pressed buzzers w team 0 n tr of
           (Some winner, n', tr') \<Rightarrow> (Some winner, n', tr')
         | (None, n', tr') \<Rightarrow> scanTeams debounceDelay pressed buzzers w (Suc team) n' tr')
      else (None, n, tr))"
  by pat_completeness auto
termination
  by (relation "measure (\<lambda>(dd, pressed, buzzers, w, team, n, tr). numTeams - team)") auto

declare scanTeams.simps [simp del]

subsection \<open>The reset wait of the potentiometer revisions\<close>

datatype exit = Timeout | ManualReset

text \<open>
  The condition of the wait, \<^verbatim>\<open>(delayReset < 0) || millis() - timestamp < delayReset\<close>,
  evaluated after \<open>n\<close> calls of the reader: \<^verbatim>\<open>timestamp\<close> is an
  \<^verbatim>\<open>unsigned long\<close>, \<^verbatim>\<open>delayReset\<close> an \<^verbatim>\<open>int\<close>.
\<close>

definition waitCond :: "world \<Rightarrow> c_ulong \<Rightarrow> c_int \<Rightarrow> nat \<Rightarrow> bool" where
  "waitCond w timestamp delayReset n \<longleftrightarrow>
     delayReset <s 0 \<or> millisW w n - timestamp < ulong_of_int delayReset"

text \<open>
  \<^verbatim>\<open>while ((delayReset < 0) || millis() - timestamp < delayReset) {
    if (readButtonState(whiteButton) == pressed) break; }\<close>
  The loop need not end: the result is \<open>None\<close> when it runs forever, otherwise the way
  it was left with the state reached.
\<close>

partial_function (option) resetWait ::
  "c_ulong \<Rightarrow> c_int \<Rightarrow> 'a Button_scheme \<Rightarrow> world \<Rightarrow> c_ulong \<Rightarrow> c_int \<Rightarrow>
   nat \<Rightarrow> event list \<Rightarrow> (exit \<times> nat \<times> event list) option" where
  "resetWait debounceDelay pressed whiteButton w timestamp delayReset n tr =
     (if waitCond w timestamp delayReset n then
        (let r = poll debounceDelay w n whiteButton;
             tr1 = tr @ [ReadWhite r]
         in if r = pressed then Some (ManualReset, Suc n, tr1)
            else resetWait debounceDelay pressed whiteButton w timestamp delayReset (Suc n) tr1)
      else Some (Timeout, n, tr))"

subsection \<open>One pass of \<^verbatim>\<open>loop()\<close> in the potentiometer revisions\<close>

text \<open>
  \<^verbatim>\<open>setup()\<close>, as far as the LEDs go: every buzzer LED is driven LOW, \<^verbatim>\<open>pinGreenLED\<close>
  is set to \<^verbatim>\<open>whiteButton.pinLED\<close>, and the last statement that touches an LED drives the
  green one HIGH.  The result is \<^verbatim>\<open>pinGreenLED\<close> and the writes made.
\<close>

definition setup_sketch :: "ButtonLED list list \<Rightarrow> ButtonLED \<Rightarrow> c_int \<times> event list" where
  "setup_sketch buzzers whiteButton =
     (let tr = concat (map (\<lambda>team. map (\<lambda>player.
                  DigitalWrite (pinLED (buzzers ! team ! player)) LOW) [0..<numPlayers])
                [0..<numTeams]);
          pinGreenLED = pinLED whiteButton
      in (pinGreenLED, tr @ [DigitalWrite pinGreenLED HIGH]))"

text \<open>
  \<^verbatim>\<open>loop()\<close> of the initial and of the LCD revision: the scan; when somebody buzzed, the
  green LED goes LOW and the buzzer's LED HIGH, the potentiometer gives \<^verbatim>\<open>delayReset\<close>,
  \<^verbatim>\<open>timestamp\<close> is taken, the wait runs, and then the green LED goes HIGH and the
  buzzer's LED LOW.
\<close>

definition loop_pot ::
  "c_ulong \<Rightarrow> c_int \<Rightarrow> ButtonLED list list \<Rightarrow> ButtonLED \<Rightarrow> c_int \<Rightarrow> world \<Rightarrow>
   nat \<Rightarrow> event list \<Rightarrow> (nat \<times> event list) option" where
  "loop_pot debounceDelay pressed buzzers whiteButton pinGreenLED w n tr =
     (case scanTeams debounceDelay pressed buzzers w 0 n tr of
        (None, n1, tr1) \<Rightarrow> Some (n1, tr1)
      | (Some (teamBuzz, playerBuzz), n1, tr1) \<Rightarrow>
          (let tr2 = tr1 @ [DigitalWrite pinGreenLED LOW,
                            DigitalWrite (pinLED (buzzers ! teamBuzz ! playerBuzz)) HIGH];
               delayReset = potDelayReset (analogRead w n1);
               timestamp = millisT w n1
           in case resetWait debounceDelay pressed whiteButton w timestamp delayReset n1 tr2 of
                None \<Rightarrow> None
              | Some (ex, n2, tr3) \<Rightarrow>
                  Some (n2, tr3 @ [DigitalWrite pinGreenLED HIGH,
                          DigitalWrite (pinLED (buzzers ! teamBuzz ! playerBuzz)) LOW])))"

subsection \<open>The menu revision\<close>

text \<open>
  The menu loop of the menu revision:
  \<^verbatim>\<open>while (true) { whiteButton.buttonState = HIGH; whiteButton.lastButtonState = HIGH;
    (display) delay(1000);
    if (readButtonState(whiteButton) == LOW) { (display) delay(2000); break; }
    (step of delayReset) }\<close>
  It works on the globals \<^verbatim>\<open>whiteButton\<close> and \<^verbatim>\<open>delayReset\<close> and ends only when the
  button reads LOW.
\<close>

partial_function (option) menuLoop ::
  "c_ulong \<Rightarrow> world \<Rightarrow> ButtonLED \<Rightarrow> c_int \<Rightarrow> nat \<Rightarrow> event list \<Rightarrow>
   (ButtonLED \<times> c_int \<times> nat \<times> event list) option" where
  "menuLoop debounceDelay w whiteButton delayReset n tr =
     (let wb1 = whiteButton\<lparr>buttonState := HIGH, lastButtonState := HIGH\<rparr>;
          r = poll debounceDelay w n wb1;
          tr1 = tr @ [ReadWhite r]
      in if r = LOW then Some (wb1, delayReset, Suc n, tr1)
         else menuLoop debounceDelay w wb1 (menuStep delayReset) (Suc n) tr1)"

text \<open>
  The menu loop of the Nano revision, entered after \<^verbatim>\<open>delayReset2 = delayReset*2\<close>:
  \<^verbatim>\<open>while (true) { (display) delay(1000);
    if (readButtonState(whiteButton) == LOW) { (display) delay(2000); break; }
    (step of delayReset) }\<close>
\<close>

partial_function (option) menuLoop_nano ::
  "c_ulong \<Rightarrow> world \<Rightarrow> Button \<Rightarrow> c_int \<Rightarrow> c_int \<Rightarrow> nat \<Rightarrow> event list \<Rightarrow>
   (c_int \<times> nat \<times> event list) option" where
  "menuLoop_nano debounceDelay w whiteButton delayReset2 delayReset n tr =
     (let r = poll debounceDelay w n whiteButton;
          tr1 = tr @ [ReadWhite r]
      in if r = LOW then Some (delayReset, Suc n, tr1)
         else menuLoop_nano debounceDelay w whiteButton delayReset2
                (menuStep_nano delayReset2 delayReset) (Suc n) tr1)"

definition configMenu_nano ::
  "c_ulong \<Rightarrow> world \<Rightarrow> Button \<Rightarrow> c_int \<Rightarrow> nat \<Rightarrow> event list \<Rightarrow>
   (c_int \<times> nat \<times> event list) option" where
  "configMenu_nano debounceDelay w whiteButton delayReset n tr =
     menuLoop_nano debounceDelay w whiteButton (delayReset * 2) delayReset n tr"

text \<open>
  The inner loop of the scan in the menu revision.  After a buzzer that does not read LOW,
  \<^verbatim>\<open>if (not usePotentiometer and readButtonState(whiteButton) == LOW)\<close> runs the menu
  loop; the scan then goes on with the next player.  The state holds the globals
  \<^verbatim>\<open>whiteButton\<close> and \<^verbatim>\<open>delayReset\<close>, the number of calls and the events.
\<close>

function scanPlayers_menu ::
  "bool \<Rightarrow> c_ulong \<Rightarrow> ButtonLED list list \<Rightarrow> world \<Rightarrow> nat \<Rightarrow> nat \<Rightarrow>
   ButtonLED \<Rightarrow> c_int \<Rightarrow> nat \<Rightarrow> event list \<Rightarrow>
   ((nat \<times> nat) option \<times> ButtonLED \<times> c_int \<times> nat \<times> event list) option" where
  "scanPlayers_menu usePotentiometer debounceDelay buzzers w team player
       whiteButton delayReset n tr =
     (if player < numPlayers then
        (let r = poll debounceDelay w n (buzzers ! team ! player);
             tr1 = tr @ [ReadBuzzer team player r]
         in if r = LOW then Some (Some (team, player), whiteButton, delayReset, Suc n, tr1)
            else if usePotentiometer then
              scanPlayers_menu usePotentiometer debounceDelay buzzers w team (Suc player)
                whiteButton delayReset (Suc n) tr1
            else
              (let r2 = poll debounceDelay w (Suc n) whiteButton;
                   tr2 = tr1 @ [ReadWhite r2]
               in if r2 = LOW then
                    (case menuLoop debounceDelay w whiteButton delayReset (Suc (Suc n)) tr2 of
                       None \<Rightarrow> None
                     | Some (wb', d', n', tr') \<Rightarrow>
                         scanPlayers_menu usePotentiometer debounceDelay buzzers w team
                           (Suc player) wb' d' n' tr')
                  else
                    scanPlayers_menu usePotentiometer debounceDelay buzzers w team (Suc player)
                      whiteButton delayReset (Suc (Suc n)) tr2))
      else Some (None, whiteButton, delayReset, n, tr))"
  by pat_completeness auto
termination
  by (relation "measure (\<lambda>(up, dd, buzzers, w, team, player, rest). numPlayers - player)")
    auto

declare scanPlayers_menu.simps [simp del]

function scanTeams_menu ::
  "bool \<Rightarrow> c_ulong \<Rightarrow> ButtonLED list list \<Rightarrow> world \<Rightarrow> nat \<Rightarrow>
   ButtonLED \<Rightarrow> c_int \<Rightarrow> nat \<Rightarrow> event list \<Rightarrow>
   ((nat \<times> nat) option \<times> ButtonLED \<times> c_int \<times> nat \<times> event list) option" where
  "scanTeams_menu usePotentiometer debounceDelay buzzers w team whiteButton delayReset n tr =
     (if team < numTeams then
        (case scanPlayers_menu usePotentiometer debounceDelay buzzers w team 0
                whiteButton delayReset n tr of
           None \<Rightarrow> None
         | Some (Some winner, st) \<Rightarrow> Some (Some winner, st)
         | Some (None, wb', d', n', tr') \<Rightarrow>
             scanTeams_menu usePotentiometer debounceDelay buzzers w (Suc team) wb' d' n' tr')
      else Some (None, whiteButton, delayReset, n, tr))"
  by pat_completeness auto
termination
  by (relation "measure (\<lambda>(up, dd, buzzers, w, team, rest). numTeams - team)") auto

declare scanTeams_menu.simps [simp del]

text \<open>
  The reset wait of the menu and of the Nano revision.  When the white button reads LOW
  the controller stays in
  \<^verbatim>\<open>while (readButtonState(whiteButton) == LOW) { delay(debounceDelay); }\<close>
  before it breaks out of the wait.
\<close>

partial_function (option) releaseWait ::
  "c_ulong \<Rightarrow> world \<Rightarrow> 'a Button_scheme \<Rightarrow> nat \<Rightarrow> event list \<Rightarrow>
   (nat \<times> event list) option" where
  "releaseWait debounceDelay w whiteButton n tr =
     (let r = poll debounceDelay w n whiteButton;
          tr1 = tr @ [ReadWhite r]
      in if r = LOW then releaseWait debounceDelay w whiteButton (Suc n) tr1
         else Some (Suc n, tr1))"

partial_function (option) resetWait_menu ::
  "c_ulong \<Rightarrow> 'a Button_scheme \<Rightarrow> world \<Rightarrow> c_ulong \<Rightarrow> c_int \<Rightarrow>
   nat \<Rightarrow> event list \<Rightarrow> (exit \<times> nat \<times> event list) option" where
  "resetWait_menu debounceDelay whiteButton w timestamp delayReset n tr =
     (if waitCond w timestamp delayReset n then
        (let r = poll debounceDelay w n whiteButton;
             tr1 = tr @ [ReadWhite r]
         in if r = LOW then
              (case releaseWait debounceDelay w whiteButton (Suc n) tr1 of
                 None \<Rightarrow> None
               | Some (n', tr') \<Rightarrow> Some (ManualReset, n', tr'))
            else resetWait_menu debounceDelay whiteButton w timestamp delayReset (Suc n) tr1)
      else Some (Timeout, n, tr))"

text \<open>
  \<^verbatim>\<open>loop()\<close> of the menu revision.  \<^verbatim>\<open>delayReset\<close> is a global here: the menu changes
  it, and with \<^verbatim>\<open>usePotentiometer\<close> it is recomputed after each buzz.
\<close>

definition loop_menu ::
  "bool \<Rightarrow> c_ulong \<Rightarrow> ButtonLED list list \<Rightarrow> c_int \<Rightarrow> world \<Rightarrow>
   ButtonLED \<Rightarrow> c_int \<Rightarrow> nat \<Rightarrow> event list \<Rightarrow>
   (ButtonLED \<times> c_int \<times> nat \<times> event list) option" where
  "loop_menu usePotentiometer debounceDelay buzzers pinGreenLED w whiteButton delayReset n tr =
     (case scanTeams_menu usePotentiometer debounceDelay buzzers w 0
             whiteButton delayReset n tr of
        None \<Rightarrow> None
      | Some (None, st) \<Rightarrow> Some st
      | Some (Some (teamBuzz, playerBuzz), wb1, d1, n1, tr1) \<Rightarrow>
          (let tr2 = tr1 @ [DigitalWrite pinGreenLED LOW,
                            DigitalWrite (pinLED (buzzers ! teamBuzz ! playerBuzz)) HIGH];
               d2 = (if usePotentiometer then potDelayReset (analogRead w n1) else d1);
               timestamp = millisT w n1
           in case resetWait_menu debounceDelay wb1 w timestamp d2 n1 tr2 of
                None \<Rightarrow> None
              | Some (ex, n2, tr3) \<Rightarrow>
                  Some (wb1, d2, n2, tr3 @ [DigitalWrite pinGreenLED HIGH,
                          DigitalWrite (pinLED (buzzers ! teamBuzz ! playerBuzz)) LOW])))"

subsection \<open>The order of the scan\<close>

text \<open>
  The pairs (team, player) in the order in which the nested loops of the scan visit them:
  team ascending, then player ascending.
\<close>

definition scanOrder :: "(nat \<times> nat) list" where
  "scanOrder = concat (map (\<lambda>team. map (Pair team) [0..<numPlayers]) [0..<numTeams])"

text \<open>
  A linear search through a list of buzzers that stops at the first one that reads
  \<open>pressed\<close>.  It is used to reason about the nested loops, which are shown to be this
  search through \<open>scanOrder\<close>.
\<close>

fun firstHit ::
  "c_ulong \<Rightarrow> c_int \<Rightarrow> 'a Button_scheme list list \<Rightarrow> world \<Rightarrow> (nat \<times> nat) list \<Rightarrow>
   nat \<Rightarrow> event list \<Rightarrow> (nat \<times> nat) option \<times> nat \<times> event list" where
  "firstHit dd pressed bz w [] n tr = (None, n, tr)"
| "firstHit dd pressed bz w ((team, player) # rest) n tr =
     (let r = poll dd w n (bz ! team ! player);
          tr1 = tr @ [ReadBuzzer team player r]
      in if r = pressed then (Some (team, player), Suc n, tr1)
         else firstHit dd pressed bz w rest (Suc n) tr1)"

text \<open>The same search with the white-button check of the menu revision after each miss.\<close>

fun firstHit_menu ::
  "bool \<Rightarrow> c_ulong \<Rightarrow> ButtonLED list list \<Rightarrow> world \<Rightarrow> (nat \<times> nat) list \<Rightarrow>
   ButtonLED \<Rightarrow> c_int \<Rightarrow> nat \<Rightarrow> event list \<Rightarrow>
   ((nat \<times> nat) option \<times> ButtonLED \<times> c_int \<times> nat \<times> event list) option" where
  "firstHit_menu up dd bz w [] wb d n tr = Some (None, wb, d, n, tr)"
| "firstHit_menu up dd bz w ((team, player) # rest) wb d n tr =
     (let r = poll dd w n (bz ! team ! player);
          tr1 = tr @ [ReadBuzzer team player r]
      in if r = LOW then Some (Some (team, player), wb, d, Suc n, tr1)
         else if up then firstHit_menu up dd bz w rest wb d (Suc n) tr1
         else
           (let r2 = poll dd w (Suc n) wb;
                tr2 = tr1 @ [ReadWhite r2]
            in if r2 = LOW then
                 (case menuLoop dd w wb d (Suc (Suc n)) tr2 of
                    None \<Rightarrow> None
                  | Some (wb', d', n', tr') \<Rightarrow> firstHit_menu up dd bz w rest wb' d' n' tr')
               else firstHit_menu up dd bz w rest wb d (Suc (Suc n)) tr2))"

text \<open>
  What the specification asks of the buzzer reads of one scan, as a check on the events:
  the buzzers are read in the given order, every read before the last one is not
  \<open>pressed\<close>, and either the last read is \<open>pressed\<close>, its buzzer is the winner and no
  buzzer is read after it, or all buzzers were read and there is no winner.
\<close>

definition isReadBuzzer :: "event \<Rightarrow> bool" where
  "isReadBuzzer e = (case e of ReadBuzzer team player r \<Rightarrow> True | _ \<Rightarrow> False)"

fun scanOK :: "c_int \<Rightarrow> (nat \<times> nat) list \<Rightarrow> (nat \<times> nat) option \<Rightarrow> event list \<Rightarrow> bool" where
  "scanOK pressed [] winner evs = (winner = None \<and> evs = [])"
| "scanOK pressed ((team, player) # rest) winner [] = False"
| "scanOK pressed ((team, player) # rest) winner (e # evs) =
     (case e of
        ReadBuzzer team' player' r \<Rightarrow>
          team' = team \<and> player' = player \<and>
          (if r = pressed then winner = Some (team, player) \<and> evs = []
           else scanOK pressed rest winner evs)
      | _ \<Rightarrow> False)"

subsection \<open>The green LED\<close>

text \<open>
  What the specification asks of the green LED, as a check on the events, given the pin
  \<open>g\<close> of the green LED and its level \<open>lv\<close> before the events: every read of a buzzer
  happens while the LED is HIGH, every read of the white button in the reset wait happens
  while it is LOW.  \<open>ledLevel\<close> is the level after the events, \<open>greenWrites\<close> the levels
  written to the green LED, in order.
\<close>

fun ledOK :: "c_int \<Rightarrow> c_int \<Rightarrow> event list \<Rightarrow> bool" where
  "ledOK g lv [] = True"
| "ledOK g lv (ReadBuzzer team player r # es) = (lv = HIGH \<and> ledOK g lv es)"
| "ledOK g lv (ReadWhite r # es) = (lv = LOW \<and> ledOK g lv es)"
| "ledOK g lv (DigitalWrite pin x # es) = ledOK g (if pin = g then x else lv) es"

fun ledLevel :: "c_int \<Rightarrow> c_int \<Rightarrow> event list \<Rightarrow> c_int" where
  "ledLevel g lv [] = lv"
| "ledLevel g lv (ReadBuzzer team player r # es) = ledLevel g lv es"
| "ledLevel g lv (ReadWhite r # es) = ledLevel g lv es"
| "ledLevel g lv (DigitalWrite pin x # es) = ledLevel g (if pin = g then x else lv) es"

fun greenWrites :: "c_int \<Rightarrow> event list \<Rightarrow> c_int list" where
  "greenWrites g [] = []"
| "greenWrites g (ReadBuzzer team player r # es) = greenWrites g es"
| "greenWrites g (ReadWhite r # es) = greenWrites g es"
| "greenWrites g (DigitalWrite pin x # es) =
     (if pin = g then x # greenWrites g es else greenWrites g es)"

text \<open>
  The Arduino core calls \<^verbatim>\<open>setup()\<close> once and then \<^verbatim>\<open>loop()\<close> again and again:
  \<open>k\<close> passes of \<^verbatim>\<open>loop()\<close> of the potentiometer revisions, and the sketch from its start
  through \<open>k\<close> passes.
\<close>

fun passes_pot ::
  "nat \<Rightarrow> c_ulong \<Rightarrow> c_int \<Rightarrow> ButtonLED list list \<Rightarrow> ButtonLED \<Rightarrow> c_int \<Rightarrow> world \<Rightarrow>
   nat \<Rightarrow> event list \<Rightarrow> (nat \<times> event list) option" where
  "passes_pot 0 dd pressed bz wb g w n tr = Some (n, tr)"
| "passes_pot (Suc k) dd pressed bz wb g w n tr =
     (case loop_pot dd pressed bz wb g w n tr of
        None \<Rightarrow> None
      | Some (n', tr') \<Rightarrow> passes_pot k dd pressed bz wb g w n' tr')"

definition sketch_pot ::
  "nat \<Rightarrow> c_ulong \<Rightarrow> c_int \<Rightarrow> ButtonLED list list \<Rightarrow> ButtonLED \<Rightarrow> world \<Rightarrow>
   (nat \<times> event list) option" where
  "sketch_pot k dd pressed bz wb w =
     (case setup_sketch bz wb of
        (pinGreenLED, tr0) \<Rightarrow> passes_pot k dd pressed bz wb pinGreenLED w 0 tr0)"

subsection \<open>The passes of the menu revision\<close>

text \<open>
  \<open>k\<close> passes of \<^verbatim>\<open>loop()\<close> of the menu revision, which hand the globals
  \<^verbatim>\<open>whiteButton\<close> and \<^verbatim>\<open>delayReset\<close> from one pass to the next, and the sketch from
  its start through \<open>k\<close> passes.  \<^verbatim>\<open>setup()\<close> of the menu revision treats the LEDs as
  the other revisions do: every buzzer LED LOW, \<^verbatim>\<open>pinGreenLED = whiteButton.pinLED\<close>, and
  \<^verbatim>\<open>digitalWrite(pinGreenLED, HIGH)\<close> as the last write.
\<close>

fun passes_menu ::
  "nat \<Rightarrow> bool \<Rightarrow> c_ulong \<Rightarrow> ButtonLED list list \<Rightarrow> c_int \<Rightarrow> world \<Rightarrow>
   ButtonLED \<Rightarrow> c_int \<Rightarrow> nat \<Rightarrow> event list \<Rightarrow>
   (ButtonLED \<times> c_int \<times> nat \<times> event list) option" where
  "passes_menu 0 up dd bz g w wb d n tr = Some (wb, d, n, tr)"
| "passes_menu (Suc k) up dd bz g w wb d n tr =
     (case loop_menu up dd bz g w wb d n tr of
        None \<Rightarrow> None
      | Some (wb', d', n', tr') \<Rightarrow> passes_menu k up dd bz g w wb' d' n' tr')"

definition sketch_menu ::
  "nat \<Rightarrow> bool \<Rightarrow> c_ulong \<Rightarrow> ButtonLED list list \<Rightarrow> ButtonLED \<Rightarrow> c_int \<Rightarrow> world \<Rightarrow>
   (ButtonLED \<times> c_int \<times> nat \<times> event list) option" where
  "sketch_menu k up dd bz wb d w =
     (case setup_sketch bz wb of
        (pinGreenLED, tr0) \<Rightarrow> passes_menu k up dd bz pinGreenLED w wb d 0 tr0)"

subsection \<open>The controller stopped after a number of calls\<close>

text \<open>
  The loops of the sketch need not end, and the green LED is there to be looked at while
  they run.  So each loop that may run forever is given a second time, stopped as soon as
  \<open>K\<close> calls of the reader have been made and the loop is about to go round again: the
  result is \<open>Running\<close> with the loop the controller is in (the configuration menu, or the
  reset wait with its wait for the release) and the events so far, or \<open>Done\<close> with what
  the loop returns and the events when it ended before.  The bodies are those of the loops
  above.
\<close>

datatype phase = InMenu | InWait

datatype 'a progress = Running phase "event list" | Done 'a "event list"

fun events :: "'a progress \<Rightarrow> event list" where
  "events (Running ph tr) = tr"
| "events (Done r tr) = tr"

text \<open>
  The level the green LED is to have, and the writes that the pass under way is to have
  made to it, by where the controller is: LOW after one write of LOW in the reset wait;
  HIGH and no write in the configuration menu; HIGH after no write or after LOW and then
  HIGH when the pass has ended.
\<close>

fun ledWanted :: "'a progress \<Rightarrow> c_int" where
  "ledWanted (Running InWait tr) = LOW"
| "ledWanted (Running InMenu tr) = HIGH"
| "ledWanted (Done r tr) = HIGH"

fun writesOK :: "'a progress \<Rightarrow> c_int list \<Rightarrow> bool" where
  "writesOK (Running InWait tr) ws = (ws = [LOW])"
| "writesOK (Running InMenu tr) ws = (ws = [])"
| "writesOK (Done r tr) ws = (ws = [] \<or> ws = [LOW, HIGH])"

text \<open>
  The check of the events for the menu revision, which reads the white button in the scan
  and in the menu too: every read of a buzzer happens while the green LED is HIGH.
\<close>

fun ledOK_menu :: "c_int \<Rightarrow> c_int \<Rightarrow> event list \<Rightarrow> bool" where
  "ledOK_menu g lv [] = True"
| "ledOK_menu g lv (ReadBuzzer team player r # es) = (lv = HIGH \<and> ledOK_menu g lv es)"
| "ledOK_menu g lv (ReadWhite r # es) = ledOK_menu g lv es"
| "ledOK_menu g lv (DigitalWrite pin x # es) = ledOK_menu g (if pin = g then x else lv) es"

text \<open>The reset wait of the potentiometer revisions, stopped after \<open>K\<close> calls.\<close>

function resetWait_upto ::
  "nat \<Rightarrow> c_ulong \<Rightarrow> c_int \<Rightarrow> 'a Button_scheme \<Rightarrow> world \<Rightarrow> c_ulong \<Rightarrow> c_int \<Rightarrow>
   nat \<Rightarrow> event list \<Rightarrow> (exit \<times> nat) progress" where
  "resetWait_upto K debounceDelay pressed whiteButton w timestamp delayReset n tr =
     (if waitCond w timestamp delayReset n then
        (if K \<le> n then Running InWait tr
         else
           (let r = poll debounceDelay w n whiteButton;
                tr1 = tr @ [ReadWhite r]
            in if r = pressed then Done (ManualReset, Suc n) tr1
               else resetWait_upto K debounceDelay pressed whiteButton w timestamp delayReset
                      (Suc n) tr1))
      else Done (Timeout, n) tr)"
  by pat_completeness auto
termination
  by (relation "measure (\<lambda>(K, dd, pressed, wb, w, ts, d, n, tr). K - n)") auto

declare resetWait_upto.simps [simp del]

text \<open>\<^verbatim>\<open>loop()\<close> of the potentiometer revisions, its passes and the sketch, stopped
  after \<open>K\<close> calls.  The scan always ends.\<close>

definition loop_pot_upto ::
  "nat \<Rightarrow> c_ulong \<Rightarrow> c_int \<Rightarrow> ButtonLED list list \<Rightarrow> ButtonLED \<Rightarrow> c_int \<Rightarrow> world \<Rightarrow>
   nat \<Rightarrow> event list \<Rightarrow> nat progress" where
  "loop_pot_upto K debounceDelay pressed buzzers whiteButton pinGreenLED w n tr =
     (case scanTeams debounceDelay pressed buzzers w 0 n tr of
        (None, n1, tr1) \<Rightarrow> Done n1 tr1
      | (Some (teamBuzz, playerBuzz), n1, tr1) \<Rightarrow>
          (let tr2 = tr1 @ [DigitalWrite pinGreenLED LOW,
                            DigitalWrite (pinLED (buzzers ! teamBuzz ! playerBuzz)) HIGH];
               delayReset = potDelayReset (analogRead w n1);
               timestamp = millisT w n1
           in case resetWait_upto K debounceDelay pressed whiteButton w timestamp delayReset
                     n1 tr2 of
                Running ph tr3 \<Rightarrow> Running ph tr3
              | Done (ex, n2) tr3 \<Rightarrow>
                  Done n2 (tr3 @ [DigitalWrite pinGreenLED HIGH,
                          DigitalWrite (pinLED (buzzers ! teamBuzz ! playerBuzz)) LOW])))"

fun passes_pot_upto ::
  "nat \<Rightarrow> nat \<Rightarrow> c_ulong \<Rightarrow> c_int \<Rightarrow> ButtonLED list list \<Rightarrow> ButtonLED \<Rightarrow> c_int \<Rightarrow>
   world \<Rightarrow> nat \<Rightarrow> event list \<Rightarrow> nat progress" where
  "passes_pot_upto 0 K dd pressed bz wb g w n tr = Done n tr"
| "passes_pot_upto (Suc k) K dd pressed bz wb g w n tr =
     (case loop_pot_upto K dd pressed bz wb g w n tr of
        Running ph tr' \<Rightarrow> Running ph tr'
      | Done n' tr' \<Rightarrow> passes_pot_upto k K dd pressed bz wb g w n' tr')"

definition sketch_pot_upto ::
  "nat \<Rightarrow> nat \<Rightarrow> c_ulong \<Rightarrow> c_int \<Rightarrow> ButtonLED list list \<Rightarrow> ButtonLED \<Rightarrow> world \<Rightarrow>
   nat progress" where
  "sketch_pot_upto k K dd pressed bz wb w =
     (case setup_sketch bz wb of
        (pinGreenLED, tr0) \<Rightarrow> passes_pot_upto k K dd pressed bz wb pinGreenLED w 0 tr0)"

text \<open>The menu loop and the scan of the menu revision, stopped after \<open>K\<close> calls.  The
  scan stops only inside the menu loop.\<close>

function menuLoop_upto ::
  "nat \<Rightarrow> c_ulong \<Rightarrow> world \<Rightarrow> ButtonLED \<Rightarrow> c_int \<Rightarrow> nat \<Rightarrow> event list \<Rightarrow>
   (ButtonLED \<times> c_int \<times> nat) progress" where
  "menuLoop_upto K debounceDelay w whiteButton delayReset n tr =
     (if K \<le> n then Running InMenu tr
      else
        (let wb1 = whiteButton\<lparr>buttonState := HIGH, lastButtonState := HIGH\<rparr>;
             r = poll debounceDelay w n wb1;
             tr1 = tr @ [ReadWhite r]
         in if r = LOW then Done (wb1, delayReset, Suc n) tr1
            else menuLoop_upto K debounceDelay w wb1 (menuStep delayReset) (Suc n) tr1))"
  by pat_completeness auto
termination
  by (relation "measure (\<lambda>(K, dd, w, wb, d, n, tr). K - n)") auto

declare menuLoop_upto.simps [simp del]

function scanPlayers_menu_upto ::
  "nat \<Rightarrow> bool \<Rightarrow> c_ulong \<Rightarrow> ButtonLED list list \<Rightarrow> world \<Rightarrow> nat \<Rightarrow> nat \<Rightarrow>
   ButtonLED \<Rightarrow> c_int \<Rightarrow> nat \<Rightarrow> event list \<Rightarrow>
   ((nat \<times> nat) option \<times> ButtonLED \<times> c_int \<times> nat) progress" where
  "scanPlayers_menu_upto K usePotentiometer debounceDelay buzzers w team player
       whiteButton delayReset n tr =
     (if player < numPlayers then
        (let r = poll debounceDelay w n (buzzers ! team ! player);
             tr1 = tr @ [ReadBuzzer team player r]
         in if r = LOW then Done (Some (team, player), whiteButton, delayReset, Suc n) tr1
            else if usePotentiometer then
              scanPlayers_menu_upto K usePotentiometer debounceDelay buzzers w team (Suc player)
                whiteButton delayReset (Suc n) tr1
            else
              (let r2 = poll debounceDelay w (Suc n) whiteButton;
                   tr2 = tr1 @ [ReadWhite r2]
               in if r2 = LOW then
                    (case menuLoop_upto K debounceDelay w whiteButton delayReset (Suc (Suc n)) tr2 of
                       Running ph tr' \<Rightarrow> Running ph tr'
                     | Done (wb', d', n') tr' \<Rightarrow>
                         scanPlayers_menu_upto K usePotentiometer debounceDelay buzzers w team
                           (Suc player) wb' d' n' tr')
                  else
                    scanPlayers_menu_upto K usePotentiometer debounceDelay buzzers w team
                      (Suc player) whiteButton delayReset (Suc (Suc n)) tr2))
      else Done (None, whiteButton, delayReset, n) tr)"
  by pat_completeness auto
termination
  by (relation "measure (\<lambda>(K, up, dd, buzzers, w, team, player, rest). numPlayers - player)")
    auto

declare scanPlayers_menu_upto.simps [simp del]

function scanTeams_menu_upto ::
  "nat \<Rightarrow> bool \<Rightarrow> c_ulong \<Rightarrow> ButtonLED list list \<Rightarrow> world \<Rightarrow> nat \<Rightarrow>
   ButtonLED \<Rightarrow> c_int \<Rightarrow> nat \<Rightarrow> event list \<Rightarrow>
   ((nat \<times> nat) option \<times> ButtonLED \<times> c_int \<times> nat) progress" where
  "scanTeams_menu_upto K usePotentiometer debounceDelay buzzers w team whiteButton delayReset
       n tr =
     (if team < numTeams then
        (case scanPlayers_menu_upto K usePotentiometer debounceDelay buzzers w team 0
                whiteButton delayReset n tr of
           Running ph tr' \<Rightarrow> Running ph tr'
         | Done (Some winner, st) tr' \<Rightarrow> Done (Some winner, st) tr'
         | Done (None, wb', d', n') tr' \<Rightarrow>
             scanTeams_menu_upto K usePotentiometer debounceDelay buzzers w (Suc team)
               wb' d' n' tr')
      else Done (None, whiteButton, delayReset, n) tr)"
  by pat_completeness auto
termination
  by (relation "measure (\<lambda>(K, up, dd, buzzers, w, team, rest). numTeams - team)") auto

declare scanTeams_menu_upto.simps [simp del]

text \<open>The wait for the release and the reset wait of the menu revision, stopped after
  \<open>K\<close> calls.\<close>

function releaseWait_upto ::
  "nat \<Rightarrow> c_ulong \<Rightarrow> world \<Rightarrow> 'a Button_scheme \<Rightarrow> nat \<Rightarrow> event list \<Rightarrow> nat progress" where
  "releaseWait_upto K debounceDelay w whiteButton n tr =
     (if K \<le> n then Running InWait tr
      else
        (let r = poll debounceDelay w n whiteButton;
             tr1 = tr @ [ReadWhite r]
         in if r = LOW then releaseWait_upto K debounceDelay w whiteButton (Suc n) tr1
            else Done (Suc n) tr1))"
  by pat_completeness auto
termination
  by (relation "measure (\<lambda>(K, dd, w, wb, n, tr). K - n)") auto

declare releaseWait_upto.simps [simp del]

function resetWait_menu_upto ::
  "nat \<Rightarrow> c_ulong \<Rightarrow> 'a Button_scheme \<Rightarrow> world \<Rightarrow> c_ulong \<Rightarrow> c_int \<Rightarrow>
   nat \<Rightarrow> event list \<Rightarrow> (exit \<times> nat) progress" where
  "resetWait_menu_upto K debounceDelay whiteButton w timestamp delayReset n tr =
     (if waitCond w timestamp delayReset n then
        (if K \<le> n then Running InWait tr
         else
           (let r = poll debounceDelay w n whiteButton;
                tr1 = tr @ [ReadWhite r]
            in if r = LOW then
                 (case releaseWait_upto K debounceDelay w whiteButton (Suc n) tr1 of
                    Running ph tr' \<Rightarrow> Running ph tr'
                  | Done n' tr' \<Rightarrow> Done (ManualReset, n') tr')
               else resetWait_menu_upto K debounceDelay whiteButton w timestamp delayReset
                      (Suc n) tr1))
      else Done (Timeout, n) tr)"
  by pat_completeness auto
termination
  by (relation "measure (\<lambda>(K, dd, wb, w, ts, d, n, tr). K - n)") auto

declare resetWait_menu_upto.simps [simp del]

text \<open>\<^verbatim>\<open>loop()\<close> of the menu revision, its passes and the sketch, stopped after \<open>K\<close>
  calls.\<close>

definition loop_menu_upto ::
  "nat \<Rightarrow> bool \<Rightarrow> c_ulong \<Rightarrow> ButtonLED list list \<Rightarrow> c_int \<Rightarrow> world \<Rightarrow>
   ButtonLED \<Rightarrow> c_int \<Rightarrow> nat \<Rightarrow> event list \<Rightarrow> (ButtonLED \<times> c_int \<times> nat) progress" where
  "loop_menu_upto K usePotentiometer debounceDelay buzzers pinGreenLED w whiteButton delayReset
       n tr =
     (case scanTeams_menu_upto K usePotentiometer debounceDelay buzzers w 0
             whiteButton delayReset n tr of
        Running ph tr' \<Rightarrow> Running ph tr'
      | Done (None, st) tr1 \<Rightarrow> Done st tr1
      | Done (Some (teamBuzz, playerBuzz), wb1, d1, n1) tr1 \<Rightarrow>
          (let tr2 = tr1 @ [DigitalWrite pinGreenLED LOW,
                            DigitalWrite (pinLED (buzzers ! teamBuzz ! playerBuzz)) HIGH];
               d2 = (if usePotentiometer then potDelayReset (analogRead w n1) else d1);
               timestamp = millisT w n1
           in case resetWait_menu_upto K debounceDelay wb1 w timestamp d2 n1 tr2 of
                Running ph tr' \<Rightarrow> Running ph tr'
              | Done (ex, n2) tr3 \<Rightarrow>
                  Done (wb1, d2, n2) (tr3 @ [DigitalWrite pinGreenLED HIGH,
                          DigitalWrite (pinLED (buzzers ! teamBuzz ! playerBuzz)) LOW])))"

fun passes_menu_upto ::
  "nat \<Rightarrow> nat \<Rightarrow> bool \<Rightarrow> c_ulong \<Rightarrow> ButtonLED list list \<Rightarrow> c_int \<Rightarrow> world \<Rightarrow>
   ButtonLED \<Rightarrow> c_int \<Rightarrow> nat \<Rightarrow> event list \<Rightarrow> (ButtonLED \<times> c_int \<times> nat) progress" where
  "passes_menu_upto 0 K up dd bz g w wb d n tr = Done (wb, d, n) tr"
| "passes_menu_upto (Suc k) K up dd bz g w wb d n tr =
     (case loop_menu_upto K up dd bz g w wb d n tr of
        Running ph tr' \<Rightarrow> Running ph tr'
      | Done (wb', d', n') tr' \<Rightarrow> passes_menu_upto k K up dd bz g w wb' d' n' tr')"

definition sketch_menu_upto ::
  "nat \<Rightarrow> nat \<Rightarrow> bool \<Rightarrow> c_ulong \<Rightarrow> ButtonLED list list \<Rightarrow> ButtonLED \<Rightarrow> c_int \<Rightarrow> world \<Rightarrow>
   (ButtonLED \<times> c_int \<times> nat) progress" where
  "sketch_menu_upto k K up dd bz wb d w =
     (case setup_sketch bz wb of
        (pinGreenLED, tr0) \<Rightarrow> passes_menu_upto k K up dd bz pinGreenLED w wb d 0 tr0)"

subsection \<open>A world for examples\<close>

text \<open>
  One call of \<open>readButtonState\<close> per second from 40 s after the start on, the pins read
  as \<open>readings\<close> says, the potentiometer at 600.
\<close>

definition world_demo :: "(nat \<Rightarrow> c_int \<Rightarrow> c_int) \<Rightarrow> world" where
  "world_demo readings =
     \<lparr>digitalRead = readings,
      millisA = (\<lambda>n. 40000 + 1000 * of_nat n),
      millisB = (\<lambda>n. 40000 + 1000 * of_nat n),
      millisW = (\<lambda>n. 40000 + 1000 * of_nat n),
      millisT = (\<lambda>n. 40000 + 1000 * of_nat n),
      analogRead = (\<lambda>n. 600)\<rparr>"

section \<open>Properties\<close>

subsection \<open>Conversions\<close>

lemma sint_LOW [simp]: "sint LOW = 0"
  by (simp add: LOW_def)

lemma HIGH_neq_LOW [simp]: "HIGH \<noteq> LOW" "LOW \<noteq> HIGH"
  by (simp_all add: HIGH_def LOW_def)

lemma uint_ulong_of_int: "uint (ulong_of_int i) = sint i mod 4294967296"
  unfolding ulong_of_int_def scast_eq uint_word_of_int by simp

lemma sint_int_of_ulong: "sint (int_of_ulong t) = (uint t + 32768) mod 65536 - 32768"
  unfolding int_of_ulong_def ucast_eq int_word_sint by simp

lemma ulong_of_int_0 [simp]: "ulong_of_int 0 = 0"
  by (simp add: ulong_of_int_def)

lemma uint_debounceElapsed:
  "uint (debounceElapsed now2 (int_of_ulong now1)) =
     (uint now2 - ((uint now1 + 32768) mod 65536 - 32768)) mod 4294967296"
  by (simp add: debounceElapsed_def uint_word_ariths uint_ulong_of_int sint_int_of_ulong
      mod_diff_right_eq)

text \<open>
  While the clock is below \<open>2\<^sup>1\<^sup>5\<close> the \<^verbatim>\<open>int\<close> field holds the clock value it was
  given, and the subtraction gives the time that has passed.
\<close>

lemma debounceElapsed_low_window:
  assumes "now1 < 32768"
  shows "debounceElapsed now2 (int_of_ulong now1) = now2 - now1"
proof -
  have "uint now1 < 32768"
    using assms by (simp add: word_less_alt)
  then have "(uint now1 + 32768) mod 65536 - 32768 = uint now1"
    by simp
  then have "uint (debounceElapsed now2 (int_of_ulong now1)) =
      (uint now2 - uint now1) mod 4294967296"
    by (simp only: uint_debounceElapsed)
  also have "\<dots> = uint (now2 - now1)"
    by (simp add: uint_word_ariths)
  finally show ?thesis
    by (simp only: word_uint_eq_iff)
qed

text \<open>
  From \<open>2\<^sup>1\<^sup>5\<close> on, and until \<open>2\<^sup>1\<^sup>5\<close> milliseconds before the clock wraps, the
  time stamp cut to 16 bits and extended again is off by a positive multiple of
  \<open>2\<^sup>1\<^sup>6\<close>: the subtraction gives at least 65536 although hardly any time has passed.
\<close>

lemma debounceElapsed_mid_window:
  assumes lo: "32768 \<le> now1" and hi: "now1 < 4294934528" and le: "now1 \<le> now2"
    and near: "now2 - now1 < 65536"
  shows "65536 \<le> debounceElapsed now2 (int_of_ulong now1)"
proof -
  define a where "a = uint now1"
  define b where "b = uint now2"
  have a: "32768 \<le> a" "a < 4294934528"
    using lo hi by (simp_all add: a_def word_le_def word_less_alt)
  have b: "a \<le> b" "b < 4294967296" "b - a < 65536"
    using le near uint_lt2p [of now2]
    by (simp_all add: a_def b_def word_le_def word_less_alt uint_sub_if')
  define q where "q = (a + 32768) div 65536"
  have q: "1 \<le> q" "q \<le> 65535"
    using a by (simp_all add: q_def)
  have m: "(a + 32768) mod 65536 = a + 32768 - 65536 * q"
    by (simp add: q_def minus_mult_div_eq_mod)
  have "b - ((a + 32768) mod 65536 - 32768) = (b - a) + 65536 * q"
    by (simp add: m)
  moreover have "0 \<le> b - a"
    using b by simp
  ultimately have rng: "65536 \<le> b - ((a + 32768) mod 65536 - 32768)"
    "b - ((a + 32768) mod 65536 - 32768) < 4294967296"
    using q b by linarith+
  have "uint (debounceElapsed now2 (int_of_ulong now1)) =
      b - ((a + 32768) mod 65536 - 32768)"
    using rng by (simp add: uint_debounceElapsed a_def b_def)
  then show ?thesis
    using rng by (simp add: word_le_def)
qed

subsection \<open>What a call of the reader returns\<close>

lemma readButtonState_same:
  "reading = lastButtonState b \<Longrightarrow>
   readButtonState dd b reading now1 now2 =
     (if dd < debounceElapsed now2 (lastDebounceTime b) then reading else buttonState b)"
  by (simp add: readButtonState_def readButtonState_body_def)

lemma readButtonState_changed:
  "reading \<noteq> lastButtonState b \<Longrightarrow>
   readButtonState dd b reading now1 now2 =
     (if dd < debounceElapsed now2 (int_of_ulong now1) then reading else buttonState b)"
  by (simp add: readButtonState_def readButtonState_body_def)

lemma call_frame:
  "v \<noteq> Param \<Longrightarrow> snd (call_readButtonState dd s arg reading now1 now2) v = s v"
  by (simp add: call_readButtonState_def Let_def)

lemma call_result:
  "fst (call_readButtonState dd s arg reading now1 now2) =
     readButtonState dd (s arg) reading now1 now2"
  by (simp add: call_readButtonState_def Let_def readButtonState_def)

lemma pollSeq_frame:
  "v \<noteq> Param \<Longrightarrow> snd (pollSeq dd s g samples) v = s v"
proof (induction samples arbitrary: s)
  case Nil
  then show ?case by simp
next
  case (Cons x xs)
  obtain reading now1 now2 where x: "x = (reading, now1, now2)"
    by (cases x) auto
  show ?case
    using Cons by (simp add: x split_beta Let_def call_frame)
qed

lemma pollSeq_result:
  "g \<noteq> Param \<Longrightarrow>
   fst (pollSeq dd s g samples) =
     map (\<lambda>(reading, now1, now2). readButtonState dd (s g) reading now1 now2) samples"
proof (induction samples arbitrary: s)
  case Nil
  then show ?case by simp
next
  case (Cons x xs)
  obtain reading now1 now2 where x: "x = (reading, now1, now2)"
    by (cases x) auto
  show ?case
    using Cons by (simp add: x split_beta Let_def call_frame call_result)
qed

lemma debounceElapsed_zero [simp]: "debounceElapsed now 0 = now"
  by (simp add: debounceElapsed_def)

lemmas cfg_defs = store_menu_def store_v1_def buzzers_menu_def buzzers_v1_def
  whiteButton_menu_def whiteButton_v1_def mkButton_def debounceDelay_menu_def
  debounceDelay_v1_def

lemmas rd_defs = call_readButtonState_def readButtonState_body_def readButtonState_def
  debounceElapsed_def int_of_ulong_def ulong_of_int_def HIGH_def LOW_def Let_def

subsection \<open>The reader does not filter\<close>

text \<open>
  C1 (the filtered state changes only after the raw signal has been stable for the
  debounce interval, and never during a shorter run).  The reader fails this.  In the menu
  revision (debounce interval 50 ms) buzzer (0, 0) is polled at 40000, 40010 and 40020 ms
  with a raw signal that flickers LOW, HIGH, LOW: the three calls return LOW, HIGH, LOW,
  two changes of the filtered state within 20 ms.  The initial revision (interval 500 ms)
  lets the flicker HIGH, LOW, HIGH through in the same way.
\<close>

theorem flicker_reaches_the_controller:
  "fst (pollSeq debounceDelay_menu store_menu (Buzzer 0 0)
          [(LOW, 40000, 40000), (HIGH, 40010, 40010), (LOW, 40020, 40020)])
     = [LOW, HIGH, LOW] \<and>
   fst (pollSeq debounceDelay_v1 store_v1 (Buzzer 0 0)
          [(HIGH, 40000, 40000), (LOW, 40010, 40010), (HIGH, 40020, 40020)])
     = [HIGH, LOW, HIGH]"
  by (simp add: cfg_defs rd_defs)

text \<open>
  C2 (every call updates the caller's Button: \<open>lastButtonState\<close> always,
  \<open>lastDebounceTime\<close> when the raw sample changes, \<open>buttonState\<close> once the interval has
  elapsed).  The updates are made, but on the parameter object only.  After
  \<^verbatim>\<open>readButtonState(whiteButton)\<close> in the menu revision with a HIGH reading at 40000 ms
  the parameter holds \<open>lastButtonState = HIGH\<close> and a new \<open>lastDebounceTime\<close>, while
  \<^verbatim>\<open>whiteButton\<close> is what it was, with \<open>lastButtonState = LOW\<close> and
  \<open>lastDebounceTime = 0\<close>; with a LOW reading the parameter's \<open>buttonState\<close> becomes LOW
  and \<^verbatim>\<open>whiteButton.buttonState\<close> stays HIGH.
\<close>

theorem bookkeeping_is_lost:
  "snd (call_readButtonState debounceDelay_menu store_menu WhiteButton HIGH 40000 40000)
     WhiteButton = whiteButton_menu \<and>
   lastButtonState whiteButton_menu = LOW \<and>
   lastDebounceTime whiteButton_menu = 0 \<and>
   lastButtonState
     (snd (call_readButtonState debounceDelay_menu store_menu WhiteButton HIGH 40000 40000)
        Param) = HIGH \<and>
   lastDebounceTime
     (snd (call_readButtonState debounceDelay_menu store_menu WhiteButton HIGH 40000 40000)
        Param) = int_of_ulong 40000 \<and>
   int_of_ulong 40000 \<noteq> 0 \<and>
   snd (call_readButtonState debounceDelay_menu store_menu WhiteButton LOW 40000 40000)
     WhiteButton = whiteButton_menu \<and>
   buttonState whiteButton_menu = HIGH \<and>
   buttonState
     (snd (call_readButtonState debounceDelay_menu store_menu WhiteButton LOW 40000 40000)
        Param) = LOW"
  by (simp add: cfg_defs rd_defs)

text \<open>
  C8 (every elapsed-time check yields the time that has passed).  The debounce check does
  not: the time stamp is kept in the \<^verbatim>\<open>int\<close> field \<open>lastDebounceTime\<close>.  In the initial
  revision a buzzer whose reading changes at 40000 ms gets the time stamp
  \<open>int_of_ulong 40000\<close>, and the check made 10 ms later computes 65546 ms, more than the
  debounce interval, so that the reading is taken at once.
\<close>

theorem debounce_elapsed_is_not_the_time_passed:
  "lastDebounceTime
     (readButtonState_body debounceDelay_v1 (buzzers_v1 ! 0 ! 0) HIGH 40000 40010)
     = int_of_ulong 40000 \<and>
   debounceElapsed 40010 (int_of_ulong 40000) = 65546 \<and>
   (40010 :: c_ulong) - 40000 = 10 \<and>
   readButtonState debounceDelay_v1 (buzzers_v1 ! 0 ! 0) HIGH 40000 40010 = HIGH"
  by (simp add: cfg_defs rd_defs)

subsection \<open>What the reader does instead\<close>

text \<open>
  C9 as it is worded says that every call made more than \<open>debounceDelay\<close> after clock
  zero returns the raw sample.  Two calls that do not: a buzzer of the initial revision
  read HIGH 1000 ms before the clock wraps returns LOW, and the reset button of the menu
  revision, in the state the configuration menu leaves it in, read LOW at 32600 ms
  returns HIGH.
\<close>

theorem reader_keeps_stored_state_counterexample:
  "debounceDelay_v1 < 4294966296 \<and>
   readButtonState debounceDelay_v1 (buzzers_v1 ! 0 ! 0) HIGH 4294966296 4294966296 = LOW \<and>
   debounceDelay_menu < 32600 \<and>
   readButtonState debounceDelay_menu
     (whiteButton_menu\<lparr>buttonState := HIGH, lastButtonState := HIGH\<rparr>) LOW 32600 32600
     = HIGH"
  by (simp add: cfg_defs rd_defs)

text \<open>
  C9, amended.  A call of \<open>readButtonState\<close> on a global Button leaves every global Button
  as it was, so does any sequence of calls, and a stored \<open>lastDebounceTime\<close> of 0 stays 0.
  The value returned is the raw sample of that call
  \<^item> when the sample equals the stored \<open>lastButtonState\<close> and the clock is past
    \<open>debounceDelay\<close>;
  \<^item> when the sample differs from the stored \<open>lastButtonState\<close> and the clock is between
    \<open>2\<^sup>1\<^sup>5\<close> and \<open>2\<^sup>3\<^sup>2 - 2\<^sup>1\<^sup>5\<close> (the two clock readings of the call less than
    \<open>2\<^sup>1\<^sup>6\<close> apart, the debounce interval below \<open>2\<^sup>1\<^sup>6\<close>).
  When the sample differs from the stored \<open>lastButtonState\<close> and the clock is below
  \<open>2\<^sup>1\<^sup>5\<close>, the call returns the stored \<open>buttonState\<close>.
\<close>

theorem reader_without_memory:
  assumes "g \<noteq> Param"
  shows "(\<forall>v. v \<noteq> Param \<longrightarrow>
            snd (call_readButtonState dd s g reading now1 now2) v = s v) \<and>
         (\<forall>v. v \<noteq> Param \<longrightarrow> snd (pollSeq dd s g samples) v = s v) \<and>
         (lastDebounceTime (s g) = 0 \<longrightarrow>
            lastDebounceTime (snd (pollSeq dd s g samples) g) = 0) \<and>
         (reading = lastButtonState (s g) \<and> lastDebounceTime (s g) = 0 \<and> dd < now2 \<longrightarrow>
            fst (call_readButtonState dd s g reading now1 now2) = reading) \<and>
         (reading \<noteq> lastButtonState (s g) \<and> dd < 65536 \<and> 32768 \<le> now1 \<and>
          now1 < 4294934528 \<and> now1 \<le> now2 \<and> now2 - now1 < 65536 \<longrightarrow>
            fst (call_readButtonState dd s g reading now1 now2) = reading) \<and>
         (reading \<noteq> lastButtonState (s g) \<and> now1 < 32768 \<and> now2 - now1 \<le> dd \<longrightarrow>
            fst (call_readButtonState dd s g reading now1 now2) = buttonState (s g))"
proof (intro conjI allI impI)
  fix v :: var
  assume "v \<noteq> Param"
  then show "snd (call_readButtonState dd s g reading now1 now2) v = s v"
    by (rule call_frame)
next
  fix v :: var
  assume "v \<noteq> Param"
  then show "snd (pollSeq dd s g samples) v = s v"
    by (rule pollSeq_frame)
next
  assume "lastDebounceTime (s g) = 0"
  then show "lastDebounceTime (snd (pollSeq dd s g samples) g) = 0"
    using assms by (simp add: pollSeq_frame)
next
  assume "reading = lastButtonState (s g) \<and> lastDebounceTime (s g) = 0 \<and> dd < now2"
  then show "fst (call_readButtonState dd s g reading now1 now2) = reading"
    by (simp add: call_result readButtonState_same)
next
  assume h: "reading \<noteq> lastButtonState (s g) \<and> dd < 65536 \<and> 32768 \<le> now1 \<and>
          now1 < 4294934528 \<and> now1 \<le> now2 \<and> now2 - now1 < 65536"
  then have "65536 \<le> debounceElapsed now2 (int_of_ulong now1)"
    by (simp add: debounceElapsed_mid_window)
  with h have "dd < debounceElapsed now2 (int_of_ulong now1)"
    by (auto intro: less_le_trans)
  with h show "fst (call_readButtonState dd s g reading now1 now2) = reading"
    by (simp add: call_result readButtonState_changed)
next
  assume h: "reading \<noteq> lastButtonState (s g) \<and> now1 < 32768 \<and> now2 - now1 \<le> dd"
  then have "debounceElapsed now2 (int_of_ulong now1) = now2 - now1"
    by (simp add: debounceElapsed_low_window)
  with h have "\<not> dd < debounceElapsed now2 (int_of_ulong now1)"
    by (simp add: not_less)
  with h show "fst (call_readButtonState dd s g reading now1 now2) = buttonState (s g)"
    by (simp add: call_result readButtonState_changed)
qed

theorem reader_without_memory_witness:
  "WhiteButton \<noteq> Param \<and>
   snd (call_readButtonState debounceDelay_menu store_menu WhiteButton LOW 40000 40000)
     WhiteButton = whiteButton_menu \<and>
   snd (pollSeq debounceDelay_menu store_menu WhiteButton
          [(LOW, 40000, 40000), (HIGH, 40010, 40010)]) WhiteButton = whiteButton_menu \<and>
   lastDebounceTime (store_menu WhiteButton) = 0 \<and>
   lastDebounceTime
     (snd (pollSeq debounceDelay_menu store_menu WhiteButton
             [(LOW, 40000, 40000), (HIGH, 40010, 40010)]) WhiteButton) = 0 \<and>
   LOW = lastButtonState (store_menu WhiteButton) \<and> debounceDelay_menu < 40000 \<and>
   fst (call_readButtonState debounceDelay_menu store_menu WhiteButton LOW 40000 40000)
     = LOW \<and>
   HIGH \<noteq> lastButtonState (store_v1 WhiteButton) \<and> debounceDelay_v1 < 65536 \<and>
   fst (call_readButtonState debounceDelay_v1 store_v1 WhiteButton HIGH 40000 40000)
     = HIGH \<and>
   (1000 :: c_ulong) < 32768 \<and> (1000 :: c_ulong) - 1000 \<le> debounceDelay_v1 \<and>
   fst (call_readButtonState debounceDelay_v1 store_v1 WhiteButton HIGH 1000 1000)
     = buttonState (store_v1 WhiteButton) \<and>
   buttonState (store_v1 WhiteButton) = LOW"
  using reader_without_memory [of WhiteButton debounceDelay_menu store_menu LOW 40000 40000
      "[(LOW, 40000, 40000), (HIGH, 40010, 40010)]"]
    reader_without_memory [of WhiteButton debounceDelay_v1 store_v1 HIGH 40000 40000 "[]"]
    reader_without_memory [of WhiteButton debounceDelay_v1 store_v1 HIGH 1000 1000 "[]"]
  by (simp add: cfg_defs HIGH_def LOW_def)

subsection \<open>The potentiometer\<close>

lemma potDelayReset_scaled:
  assumes "0 \<le>s sampled" "sampled \<le>s 1000"
  shows "sint (potDelayReset sampled) = sint sampled * 5000 div 1000"
proof -
  define n where "n = sint sampled"
  have n: "0 \<le> n" "n \<le> 1000"
    using assms by (simp_all add: n_def word_sle_eq)
  have "\<not> 1000 <s sampled"
    using assms by (simp add: word_sless_alt word_sle_eq)
  then have eq: "potDelayReset sampled =
      int_of_ulong ((ulong_of_int sampled * 5000) div 1000)"
    by (simp add: potDelayReset_def delayResetMax_def)
  have "uint (ulong_of_int sampled) = n"
    using n by (simp add: uint_ulong_of_int n_def)
  then have "uint (ulong_of_int sampled * 5000) = n * 5000"
    using n by (simp add: uint_word_ariths)
  then have "uint ((ulong_of_int sampled * 5000) div 1000) = n * 5"
    by (simp add: uint_div)
  then have "sint (potDelayReset sampled) = n * 5"
    using n by (simp add: eq sint_int_of_ulong)
  then show ?thesis
    by (simp add: n_def)
qed

lemma potDelayReset_sentinel:
  assumes "1000 <s sampled"
  shows "sint (potDelayReset sampled) = - 30414"
  using assms
  by (simp add: potDelayReset_def delayResetMax_def int_of_ulong_def ulong_of_int_def)

section \<open>The configuration menu\<close>

lemma map_upt_shift:
  "map f [0..<Suc N] = f 0 # map (\<lambda>i. f (Suc i)) [0..<N]"
  by (simp add: upt_conv_Cons map_Suc_upt [symmetric] del: upt_Suc)

lemma menuLoop_nano_steps:
  assumes "\<forall>i<N. poll dd w (n + i) wb \<noteq> LOW"
    and "poll dd w (n + N) wb = LOW"
  shows "menuLoop_nano dd w wb d2 d n tr =
     Some ((menuStep_nano d2 ^^ N) d, Suc (n + N),
       tr @ map (\<lambda>i. ReadWhite (poll dd w (n + i) wb)) [0..<Suc N])"
  using assms
proof (induction N arbitrary: d n tr)
  case 0
  then show ?case
    by (subst menuLoop_nano.simps) (simp add: Let_def)
next
  case (Suc N)
  have first: "poll dd w n wb \<noteq> LOW"
    using Suc.prems(1) by force
  have rest: "\<forall>i<N. poll dd w (Suc n + i) wb \<noteq> LOW"
  proof (intro allI impI)
    fix i
    assume "i < N"
    then have "Suc i < Suc N"
      by simp
    with Suc.prems(1) have "poll dd w (n + Suc i) wb \<noteq> LOW"
      by blast
    then show "poll dd w (Suc n + i) wb \<noteq> LOW"
      by simp
  qed
  have last: "poll dd w (Suc n + N) wb = LOW"
    using Suc.prems(2) by simp
  have "menuLoop_nano dd w wb d2 d n tr =
      menuLoop_nano dd w wb d2 (menuStep_nano d2 d) (Suc n) (tr @ [ReadWhite (poll dd w n wb)])"
    using first by (subst menuLoop_nano.simps) (simp add: Let_def)
  also have "\<dots> = Some ((menuStep_nano d2 ^^ N) (menuStep_nano d2 d), Suc (Suc n + N),
       (tr @ [ReadWhite (poll dd w n wb)]) @
         map (\<lambda>i. ReadWhite (poll dd w (Suc n + i) wb)) [0..<Suc N])"
    by (rule Suc.IH [OF rest last])
  finally show ?case
    by (simp only: map_upt_shift [of _ "Suc N"] funpow_Suc_right o_apply) simp
qed

lemma sint_menuStep:
  "sint (menuStep d) =
     (if sint d < 0 then 1000
      else if sint d < 5000 then sint d + 1000
      else if sint d = 5000 then 10000
      else - 1)"
proof (cases "sint d < 0")
  case True
  then show ?thesis
    by (simp add: menuStep_def word_sless_alt)
next
  case False
  then have u: "uint (ulong_of_int d) = sint d"
    using sint_lt [of d] by (simp add: uint_ulong_of_int)
  have r: "sint d < 32768"
    using sint_lt [of d] by simp
  have add: "sint d < 5000 \<Longrightarrow> sint (d + 1000) = sint d + 1000"
    using False by (simp add: sint_word_ariths signed_take_bit_int_eq_self)
  have dbl: "sint d = 5000 \<Longrightarrow> sint (d * 2) = 10000"
    by (simp add: sint_word_ariths signed_take_bit_int_eq_self)
  show ?thesis
    using False u add dbl
    by (simp add: menuStep_def delayResetMax_def word_sless_alt word_less_alt
        word_uint_eq_iff)
qed

lemma sint_menuStep_nano:
  assumes "sint d2 \<le> sint d \<or> sint d \<le> 31767"
  shows "sint (menuStep_nano d2 d) = specStep 1000 1000 (sint d2) (sint d)"
proof -
  have add: "0 \<le> sint d \<Longrightarrow> sint d < sint d2 \<Longrightarrow> sint (d + 1000) = sint d + 1000"
    using assms by (simp add: sint_word_ariths signed_take_bit_int_eq_self)
  show ?thesis
    using add by (simp add: menuStep_nano_def specStep_def word_sless_alt word_sle_eq)
qed

lemma sint_double:
  fixes d :: c_int
  assumes "- 16384 \<le> sint d" and "sint d \<le> 16383"
  shows "sint (d * 2) = 2 * sint d"
  using assms by (simp add: sint_word_ariths signed_take_bit_int_eq_self)

text \<open>
  Outside these bounds the \<^verbatim>\<open>int\<close> arithmetic of the Nano revision wraps: from a delay
  of 24000 on entry, \<^verbatim>\<open>delayReset*2\<close> is negative and the first step already gives \<open>-1\<close>.
\<close>

lemma nano_ceiling_wraps:
  "sint ((24000::c_int) * 2) = - 17536 \<and> sint (menuStep_nano (24000 * 2) 24000) = - 1"
  by (simp add: menuStep_nano_def word_sless_alt word_sle_eq)

lemma menuLoop_steps:
  assumes "\<forall>i<N. poll dd w (n + i) (wb\<lparr>buttonState := HIGH, lastButtonState := HIGH\<rparr>) \<noteq> LOW"
    and "poll dd w (n + N) (wb\<lparr>buttonState := HIGH, lastButtonState := HIGH\<rparr>) = LOW"
  shows "menuLoop dd w wb d n tr =
     Some (wb\<lparr>buttonState := HIGH, lastButtonState := HIGH\<rparr>, (menuStep ^^ N) d, Suc (n + N),
       tr @ map (\<lambda>i. ReadWhite (poll dd w (n + i)
                 (wb\<lparr>buttonState := HIGH, lastButtonState := HIGH\<rparr>))) [0..<Suc N])"
  using assms
proof (induction N arbitrary: wb d n tr)
  case 0
  then show ?case
    by (subst menuLoop.simps) (simp add: Let_def)
next
  case (Suc N)
  let ?wb1 = "wb\<lparr>buttonState := HIGH, lastButtonState := HIGH\<rparr>"
  have idem: "?wb1\<lparr>buttonState := HIGH, lastButtonState := HIGH\<rparr> = ?wb1"
    by simp
  have first: "poll dd w n ?wb1 \<noteq> LOW"
    using Suc.prems(1) by force
  have rest: "\<forall>i<N. poll dd w (Suc n + i) (?wb1\<lparr>buttonState := HIGH, lastButtonState := HIGH\<rparr>) \<noteq> LOW"
  proof (intro allI impI)
    fix i
    assume "i < N"
    then have "Suc i < Suc N"
      by simp
    with Suc.prems(1) have "poll dd w (n + Suc i) ?wb1 \<noteq> LOW"
      by blast
    then show "poll dd w (Suc n + i) (?wb1\<lparr>buttonState := HIGH, lastButtonState := HIGH\<rparr>) \<noteq> LOW"
      by simp
  qed
  have last: "poll dd w (Suc n + N) (?wb1\<lparr>buttonState := HIGH, lastButtonState := HIGH\<rparr>) = LOW"
    using Suc.prems(2) by simp
  have "menuLoop dd w wb d n tr =
      menuLoop dd w ?wb1 (menuStep d) (Suc n) (tr @ [ReadWhite (poll dd w n ?wb1)])"
    using first by (subst menuLoop.simps) (simp add: Let_def)
  also have "\<dots> = Some (?wb1, (menuStep ^^ N) (menuStep d), Suc (Suc n + N),
       (tr @ [ReadWhite (poll dd w n ?wb1)]) @
         map (\<lambda>i. ReadWhite (poll dd w (Suc n + i) ?wb1)) [0..<Suc N])"
    using Suc.IH [OF rest last, of "menuStep d" "tr @ [ReadWhite (poll dd w n ?wb1)]"]
    by (simp only: idem)
  finally show ?case
    by (simp only: map_upt_shift [of _ "Suc N"] funpow_Suc_right o_apply) simp
qed

lemma poll_demo:
  "poll dd (world_demo readings) n b =
     readButtonState dd b (readings n (pinButton b))
       (40000 + 1000 * of_nat n) (40000 + 1000 * of_nat n)"
  by (simp add: poll_def world_demo_def)

lemma all_less_3: "(\<forall>i<3. P i) \<longleftrightarrow> P (0::nat) \<and> P 1 \<and> P 2"
  by (auto simp: eval_nat_numeral less_Suc_eq)

lemma all_less_5: "(\<forall>i<5. P i) \<longleftrightarrow> P (0::nat) \<and> P 1 \<and> P 2 \<and> P 3 \<and> P 4"
  by (auto simp: eval_nat_numeral less_Suc_eq)

text \<open>
  C7 as it is worded describes the step as "a fixed increment up to a ceiling, then the
  sentinel, then the minimum".  The menu revision does something else at its ceiling
  \<open>delayResetMax = 5000\<close>: the step from 5000 gives 10000, where the described step gives
  the sentinel (ceiling 5000) or 6000 (ceiling 10000).
\<close>

theorem menu_step_has_a_doubling_branch_counterexample:
  "sint (menuStep 5000) = 10000 \<and>
   uint delayResetMax = 5000 \<and>
   specStep 1000 1000 5000 5000 = - 1 \<and>
   specStep 1000 1000 10000 5000 = 6000"
  by (simp add: menuStep_def specStep_def delayResetMax_def ulong_of_int_def word_sless_alt)

text \<open>
  C7, amended.  Each pass of the menu loop in which the white button does not read LOW
  applies one step to \<open>delayReset\<close>; when the button reads LOW at the pass number \<open>N\<close>
  the loop ends with the \<open>N\<close>-fold step of the initial value, in the menu revision
  (\<open>menuLoop\<close>) and in the Nano revision (\<open>configMenu_nano\<close>, whose ceiling
  \<open>delayReset2\<close> is \<^verbatim>\<open>delayReset*2\<close> computed on entry).  The step of the menu revision is:
  1000 from a negative value, plus 1000 below 5000, 10000 from 5000, and \<open>-1\<close> above 5000.
  The step of the Nano revision is the one described, with minimum and increment 1000 and
  the ceiling \<open>delayReset2\<close>, for every value that is not below the ceiling or is at most
  31767 (so that the addition stays within an \<^verbatim>\<open>int\<close>); and the ceiling is twice the
  delay on entry when that delay is between \<open>-16384\<close> and 16383 (so that the product stays
  within an \<^verbatim>\<open>int\<close>).
\<close>

theorem config_menu_cycles:
  "((\<forall>i<N. poll dd w (n + i) (wb\<lparr>buttonState := HIGH, lastButtonState := HIGH\<rparr>) \<noteq> LOW) \<and>
    poll dd w (n + N) (wb\<lparr>buttonState := HIGH, lastButtonState := HIGH\<rparr>) = LOW \<longrightarrow>
      menuLoop dd w wb d n tr =
        Some (wb\<lparr>buttonState := HIGH, lastButtonState := HIGH\<rparr>, (menuStep ^^ N) d,
          Suc (n + N),
          tr @ map (\<lambda>i. ReadWhite (poll dd w (n + i)
                    (wb\<lparr>buttonState := HIGH, lastButtonState := HIGH\<rparr>))) [0..<Suc N])) \<and>
   ((\<forall>i<M. poll ddn wn (m + i) wbn \<noteq> LOW) \<and> poll ddn wn (m + M) wbn = LOW \<longrightarrow>
      configMenu_nano ddn wn wbn dn m trn =
        Some ((menuStep_nano (dn * 2) ^^ M) dn, Suc (m + M),
          trn @ map (\<lambda>i. ReadWhite (poll ddn wn (m + i) wbn)) [0..<Suc M])) \<and>
   sint (menuStep d) =
     (if sint d < 0 then 1000
      else if sint d < 5000 then sint d + 1000
      else if sint d = 5000 then 10000
      else - 1) \<and>
   (sint d2 \<le> sint dv \<or> sint dv \<le> 31767 \<longrightarrow>
      sint (menuStep_nano d2 dv) = specStep 1000 1000 (sint d2) (sint dv)) \<and>
   (- 16384 \<le> sint dn \<and> sint dn \<le> 16383 \<longrightarrow> sint (dn * 2) = 2 * sint dn)"
  by (simp add: menuLoop_steps menuLoop_nano_steps configMenu_nano_def sint_menuStep
      sint_menuStep_nano sint_double del: upt_Suc)

theorem config_menu_cycles_witness:
  "menuLoop debounceDelay_menu (world_demo (\<lambda>n pin. if n < 3 then HIGH else LOW))
     whiteButton_menu 5000 0 [] =
     Some (whiteButton_menu\<lparr>buttonState := HIGH, lastButtonState := HIGH\<rparr>, 1000, 4,
       [ReadWhite HIGH, ReadWhite HIGH, ReadWhite HIGH, ReadWhite LOW]) \<and>
   configMenu_nano debounceDelay_v1 (world_demo (\<lambda>n pin. if n < 5 then HIGH else LOW))
     whiteButton_nano 3000 0 [] =
     Some (1000, 6, [ReadWhite HIGH, ReadWhite HIGH, ReadWhite HIGH, ReadWhite HIGH,
       ReadWhite HIGH, ReadWhite LOW]) \<and>
   sint (menuStep 5000) = 10000 \<and>
   sint (6000 :: c_int) \<le> sint (6000 :: c_int) \<and>
   sint (menuStep_nano 6000 6000) = - 1 \<and>
   sint (31000 :: c_int) \<le> 31767 \<and>
   sint (menuStep_nano 32000 31000) = 32000 \<and>
   - 16384 \<le> sint (16000 :: c_int) \<and> sint (16000 :: c_int) \<le> 16383 \<and>
   sint ((16000 :: c_int) * 2) = 32000"
proof -
  let ?w = "world_demo (\<lambda>n pin. if n < 3 then HIGH else LOW)"
  let ?wn = "world_demo (\<lambda>n pin. if n < 5 then HIGH else LOW)"
  let ?wb1 = "whiteButton_menu\<lparr>buttonState := HIGH, lastButtonState := HIGH\<rparr>"
  note T = config_menu_cycles
  have p: "poll debounceDelay_menu ?w 0 ?wb1 = HIGH" "poll debounceDelay_menu ?w (Suc 0) ?wb1 = HIGH"
    "poll debounceDelay_menu ?w 2 ?wb1 = HIGH" "poll debounceDelay_menu ?w 3 ?wb1 = LOW"
    by (simp_all add: poll_demo cfg_defs rd_defs)
  have pn: "poll debounceDelay_v1 ?wn 0 whiteButton_nano = HIGH"
    "poll debounceDelay_v1 ?wn (Suc 0) whiteButton_nano = HIGH"
    "poll debounceDelay_v1 ?wn 2 whiteButton_nano = HIGH"
    "poll debounceDelay_v1 ?wn 3 whiteButton_nano = HIGH"
    "poll debounceDelay_v1 ?wn 4 whiteButton_nano = HIGH"
    "poll debounceDelay_v1 ?wn 5 whiteButton_nano = LOW"
    by (simp_all add: poll_demo cfg_defs rd_defs whiteButton_nano_def)
  have f3: "\<And>f x. (f ^^ 3) x = f (f (f x))"
    by (simp add: eval_nat_numeral)
  have f5: "\<And>f x. (f ^^ 5) x = f (f (f (f (f x))))"
    by (simp add: eval_nat_numeral)
  have s: "(menuStep ^^ 3) 5000 = 1000" "(menuStep_nano 6000 ^^ 5) 3000 = 1000"
    unfolding f3 f5
    by (simp_all add: menuStep_def menuStep_nano_def delayResetMax_def
        ulong_of_int_def word_sless_alt word_sle_eq)
  have u: "[0..<4] = [0, Suc 0, 2, 3]" "[0..<6] = [0, Suc 0, 2, 3, 4, 5]"
    by (simp_all add: upt_conv_Cons)
  have A: "menuLoop debounceDelay_menu ?w whiteButton_menu 5000 0 [] =
     Some (?wb1, 1000, 4, [ReadWhite HIGH, ReadWhite HIGH, ReadWhite HIGH, ReadWhite LOW]) \<and>
   configMenu_nano debounceDelay_v1 ?wn whiteButton_nano 3000 0 [] =
     Some (1000, 6, [ReadWhite HIGH, ReadWhite HIGH, ReadWhite HIGH, ReadWhite HIGH,
       ReadWhite HIGH, ReadWhite LOW]) \<and>
   sint (menuStep 5000) = 10000"
    using T [where N = 3 and dd = debounceDelay_menu and n = 0
        and w = ?w and wb = whiteButton_menu and d = 5000 and tr = "[]" and ?d2.0 = 6000
        and M = 5 and ddn = debounceDelay_v1 and m = 0 and wn = ?wn
        and wbn = whiteButton_nano and dn = 3000 and trn = "[]" and dv = 6000]
    by (simp add: all_less_3 all_less_5 p pn s u specStep_def del: upt_Suc)
  have h1: "sint (6000 :: c_int) \<le> sint (6000 :: c_int) \<or> sint (6000 :: c_int) \<le> 31767"
    by simp
  have B: "sint (menuStep_nano 6000 6000) = - 1"
    using T [where ?d2.0 = 6000 and dv = 6000, THEN conjunct2, THEN conjunct2, THEN conjunct2,
        THEN conjunct1, THEN mp, OF h1]
    by (simp add: specStep_def)
  have h2: "sint (32000 :: c_int) \<le> sint (31000 :: c_int) \<or> sint (31000 :: c_int) \<le> 31767"
    by simp
  have C: "sint (menuStep_nano 32000 31000) = 32000"
    using T [where ?d2.0 = 32000 and dv = 31000, THEN conjunct2, THEN conjunct2,
        THEN conjunct2, THEN conjunct1, THEN mp, OF h2]
    by (simp add: specStep_def)
  have h3: "- 16384 \<le> sint (16000 :: c_int) \<and> sint (16000 :: c_int) \<le> 16383"
    by simp
  have D: "sint ((16000 :: c_int) * 2) = 32000"
    using T [where dn = 16000, THEN conjunct2, THEN conjunct2, THEN conjunct2,
        THEN conjunct2, THEN mp, OF h3]
    by simp
  from A B C D h3 show ?thesis
    by simp
qed

section \<open>The scan\<close>

lemma scanPlayers_firstHit:
  "scanPlayers dd pressed bz w team player n tr =
     firstHit dd pressed bz w (map (Pair team) [player..<numPlayers]) n tr"
proof (induction dd pressed bz w team player n tr rule: scanPlayers.induct)
  case (1 dd pressed bz w team player n tr)
  show ?case
  proof (cases "player < numPlayers")
    case True
    then have "[player..<numPlayers] = player # [Suc player..<numPlayers]"
      by (rule upt_conv_Cons)
    with True 1 show ?thesis
      by (subst scanPlayers.simps) (simp add: Let_def)
  next
    case False
    then show ?thesis
      by (subst scanPlayers.simps) simp
  qed
qed

lemma firstHit_append:
  "firstHit dd pressed bz w (xs @ ys) n tr =
     (case firstHit dd pressed bz w xs n tr of
        (Some winner, n', tr') \<Rightarrow> (Some winner, n', tr')
      | (None, n', tr') \<Rightarrow> firstHit dd pressed bz w ys n' tr')"
proof (induction xs arbitrary: n tr)
  case Nil
  then show ?case by simp
next
  case (Cons x xs)
  obtain team player where x: "x = (team, player)"
    by (cases x) auto
  show ?case
    by (simp add: x Let_def Cons.IH)
qed

lemma scanTeams_firstHit:
  "scanTeams dd pressed bz w team n tr =
     firstHit dd pressed bz w
       (concat (map (\<lambda>team. map (Pair team) [0..<numPlayers]) [team..<numTeams])) n tr"
proof (induction dd pressed bz w team n tr rule: scanTeams.induct)
  case (1 dd pressed bz w team n tr)
  show ?case
  proof (cases "team < numTeams")
    case True
    then have u: "[team..<numTeams] = team # [Suc team..<numTeams]"
      by (rule upt_conv_Cons)
    obtain win n' tr' where r: "scanPlayers dd pressed bz w team 0 n tr = (win, n', tr')"
      by (cases "scanPlayers dd pressed bz w team 0 n tr") auto
    show ?thesis
    proof (cases win)
      case None
      with True r 1 show ?thesis
        by (subst scanTeams.simps)
          (simp add: u firstHit_append scanPlayers_firstHit [symmetric])
    next
      case (Some a)
      with True r show ?thesis
        by (subst scanTeams.simps)
          (simp add: u firstHit_append scanPlayers_firstHit [symmetric])
    qed
  next
    case False
    then show ?thesis
      by (subst scanTeams.simps) simp
  qed
qed

lemma firstHit_first_pressed:
  assumes "i < length xs"
    and "\<forall>j<i. poll dd w (n + j) (bz ! fst (xs ! j) ! snd (xs ! j)) \<noteq> pressed"
    and "poll dd w (n + i) (bz ! fst (xs ! i) ! snd (xs ! i)) = pressed"
  shows "firstHit dd pressed bz w xs n tr =
     (Some (xs ! i), Suc (n + i),
      tr @ map (\<lambda>j. ReadBuzzer (fst (xs ! j)) (snd (xs ! j))
                  (poll dd w (n + j) (bz ! fst (xs ! j) ! snd (xs ! j)))) [0..<Suc i])"
  using assms
proof (induction xs arbitrary: i n tr)
  case Nil
  then show ?case by simp
next
  case (Cons x xs)
  obtain team player where x: "x = (team, player)"
    by (cases x) auto
  show ?case
  proof (cases i)
    case 0
    with Cons.prems show ?thesis
      by (simp add: x Let_def)
  next
    case (Suc k)
    have k: "k < length xs"
      using Cons.prems(1) Suc by simp
    have first: "poll dd w n (bz ! team ! player) \<noteq> pressed"
      using Cons.prems(2) Suc x by force
    have rest: "\<forall>j<k. poll dd w (Suc n + j) (bz ! fst (xs ! j) ! snd (xs ! j)) \<noteq> pressed"
    proof (intro allI impI)
      fix j
      assume "j < k"
      then have "Suc j < i"
        using Suc by simp
      with Cons.prems(2) have
        "poll dd w (n + Suc j) (bz ! fst ((x # xs) ! Suc j) ! snd ((x # xs) ! Suc j)) \<noteq> pressed"
        by blast
      then show "poll dd w (Suc n + j) (bz ! fst (xs ! j) ! snd (xs ! j)) \<noteq> pressed"
        by simp
    qed
    have hit: "poll dd w (Suc n + k) (bz ! fst (xs ! k) ! snd (xs ! k)) = pressed"
      using Cons.prems(3) Suc by simp
    have sh: "\<And>f. map f [0..<Suc (Suc k)] = f 0 # map (\<lambda>j. f (Suc j)) [0..<Suc k]"
      by (rule map_upt_shift)
    show ?thesis
      using first Cons.IH [OF k rest hit, of "tr @ [ReadBuzzer team player (poll dd w n (bz ! team ! player))]"]
      by (simp add: x Let_def Suc sh del: upt_Suc)
  qed
qed

lemma firstHit_none_pressed:
  assumes "\<forall>j<length xs. poll dd w (n + j) (bz ! fst (xs ! j) ! snd (xs ! j)) \<noteq> pressed"
  shows "firstHit dd pressed bz w xs n tr =
     (None, n + length xs,
      tr @ map (\<lambda>j. ReadBuzzer (fst (xs ! j)) (snd (xs ! j))
                  (poll dd w (n + j) (bz ! fst (xs ! j) ! snd (xs ! j)))) [0..<length xs])"
  using assms
proof (induction xs arbitrary: n tr)
  case Nil
  then show ?case by simp
next
  case (Cons x xs)
  obtain team player where x: "x = (team, player)"
    by (cases x) auto
  have first: "poll dd w n (bz ! team ! player) \<noteq> pressed"
    using Cons.prems x by force
  have rest: "\<forall>j<length xs. poll dd w (Suc n + j) (bz ! fst (xs ! j) ! snd (xs ! j)) \<noteq> pressed"
  proof (intro allI impI)
    fix j
    assume "j < length xs"
    then have "Suc j < length (x # xs)"
      by simp
    with Cons.prems have
      "poll dd w (n + Suc j) (bz ! fst ((x # xs) ! Suc j) ! snd ((x # xs) ! Suc j)) \<noteq> pressed"
      by blast
    then show "poll dd w (Suc n + j) (bz ! fst (xs ! j) ! snd (xs ! j)) \<noteq> pressed"
      by simp
  qed
  have sh: "\<And>f. map f [0..<Suc (length xs)] = f 0 # map (\<lambda>j. f (Suc j)) [0..<length xs]"
    by (rule map_upt_shift)
  show ?case
    using first Cons.IH [OF rest, of "tr @ [ReadBuzzer team player (poll dd w n (bz ! team ! player))]"]
    by (simp add: x Let_def sh del: upt_Suc)
qed

lemma scanOrder_eq:
  "scanOrder = [(0, 0), (0, 1), (0, 2), (0, 3), (1, 0), (1, 1), (1, 2), (1, 3)]"
  by (simp add: scanOrder_def numTeams_def numPlayers_def upt_conv_Cons)

lemma isReadBuzzer_simps [simp]:
  "isReadBuzzer (ReadBuzzer team player r)"
  "\<not> isReadBuzzer (ReadWhite r)"
  "\<not> isReadBuzzer (DigitalWrite pin level)"
  by (simp_all add: isReadBuzzer_def)

lemma menuLoop_trace_aux:
  assumes "menuLoop dd w wb d n tr = Some y"
  shows "\<exists>ws. snd (snd (snd y)) = tr @ ws \<and> filter isReadBuzzer ws = []"
proof (rule menuLoop.raw_induct
    [where P = "\<lambda>dd w wb d n tr y. \<exists>ws. snd (snd (snd y)) = tr @ ws \<and> filter isReadBuzzer ws = []",
      OF _ assms])
  fix loop :: "c_ulong \<Rightarrow> world \<Rightarrow> ButtonLED \<Rightarrow> c_int \<Rightarrow> nat \<Rightarrow> event list \<Rightarrow>
      (ButtonLED \<times> c_int \<times> nat \<times> event list) option"
  fix dd w wb d n tr y
  assume IH: "\<And>dd w wb d n tr y. loop dd w wb d n tr = Some y \<Longrightarrow>
      \<exists>ws. snd (snd (snd y)) = tr @ ws \<and> filter isReadBuzzer ws = []"
  assume body: "(let wb1 = wb\<lparr>buttonState := HIGH, lastButtonState := HIGH\<rparr>;
          r = poll dd w n wb1; tr1 = tr @ [ReadWhite r]
      in if r = LOW then Some (wb1, d, Suc n, tr1)
         else loop dd w wb1 (menuStep d) (Suc n) tr1) = Some y"
  let ?wb1 = "wb\<lparr>buttonState := HIGH, lastButtonState := HIGH\<rparr>"
  show "\<exists>ws. snd (snd (snd y)) = tr @ ws \<and> filter isReadBuzzer ws = []"
  proof (cases "poll dd w n ?wb1 = LOW")
    case True
    with body have "snd (snd (snd y)) = tr @ [ReadWhite (poll dd w n ?wb1)]"
      by (auto simp: Let_def)
    then show ?thesis
      by simp
  next
    case False
    with body have "loop dd w ?wb1 (menuStep d) (Suc n) (tr @ [ReadWhite (poll dd w n ?wb1)]) = Some y"
      by (simp add: Let_def)
    from IH [OF this] obtain ws where
      "snd (snd (snd y)) = (tr @ [ReadWhite (poll dd w n ?wb1)]) @ ws" "filter isReadBuzzer ws = []"
      by blast
    then have "snd (snd (snd y)) = tr @ (ReadWhite (poll dd w n ?wb1) # ws) \<and>
        filter isReadBuzzer (ReadWhite (poll dd w n ?wb1) # ws) = []"
      by simp
    then show ?thesis
      by blast
  qed
qed

lemma menuLoop_trace:
  "menuLoop dd w wb d n tr = Some (wb', d', n', tr') \<Longrightarrow>
   \<exists>ws. tr' = tr @ ws \<and> filter isReadBuzzer ws = []"
  using menuLoop_trace_aux [of dd w wb d n tr "(wb', d', n', tr')"] by simp

lemma scanPlayers_menu_firstHit:
  "scanPlayers_menu up dd bz w team player wb d n tr =
     firstHit_menu up dd bz w (map (Pair team) [player..<numPlayers]) wb d n tr"
proof (induction up dd bz w team player wb d n tr rule: scanPlayers_menu.induct)
  case (1 up dd bz w team player wb d n tr)
  show ?case
  proof (cases "player < numPlayers")
    case True
    then have u: "[player..<numPlayers] = player # [Suc player..<numPlayers]"
      by (rule upt_conv_Cons)
    show ?thesis
      using True 1
      by (subst scanPlayers_menu.simps) (simp add: u Let_def split: option.split)
  next
    case False
    then show ?thesis
      by (subst scanPlayers_menu.simps) simp
  qed
qed

lemma firstHit_menu_append:
  "firstHit_menu up dd bz w (xs @ ys) wb d n tr =
     (case firstHit_menu up dd bz w xs wb d n tr of
        None \<Rightarrow> None
      | Some (Some winner, st) \<Rightarrow> Some (Some winner, st)
      | Some (None, wb', d', n', tr') \<Rightarrow> firstHit_menu up dd bz w ys wb' d' n' tr')"
proof (induction xs arbitrary: wb d n tr)
  case Nil
  then show ?case by simp
next
  case (Cons x xs)
  obtain team player where x: "x = (team, player)"
    by (cases x) auto
  show ?case
  proof (cases "poll dd w n (bz ! team ! player) = LOW")
    case True
    then show ?thesis
      by (simp add: x Let_def)
  next
    case miss: False
    show ?thesis
    proof (cases up)
      case True
      with miss Cons.IH show ?thesis
        by (simp add: x Let_def)
    next
      case noPot: False
      show ?thesis
      proof (cases "poll dd w (Suc n) wb = LOW")
        case False
        with miss noPot Cons.IH show ?thesis
          by (simp add: x Let_def)
      next
        case True
        show ?thesis
        proof (cases "menuLoop dd w wb d (Suc (Suc n))
            (tr @ [ReadBuzzer team player (poll dd w n (bz ! team ! player)),
                   ReadWhite (poll dd w (Suc n) wb)])")
          case None
          with miss noPot True show ?thesis
            by (simp add: x Let_def)
        next
          case (Some st)
          obtain wb' d' n' tr' where st: "st = (wb', d', n', tr')"
            by (cases st) auto
          with miss noPot True Some Cons.IH show ?thesis
            by (simp add: x Let_def)
        qed
      qed
    qed
  qed
qed

lemma scanTeams_menu_firstHit:
  "scanTeams_menu up dd bz w team wb d n tr =
     firstHit_menu up dd bz w
       (concat (map (\<lambda>team. map (Pair team) [0..<numPlayers]) [team..<numTeams])) wb d n tr"
proof (induction up dd bz w team wb d n tr rule: scanTeams_menu.induct)
  case (1 up dd bz w team wb d n tr)
  show ?case
  proof (cases "team < numTeams")
    case True
    then have u: "[team..<numTeams] = team # [Suc team..<numTeams]"
      by (rule upt_conv_Cons)
    show ?thesis
      using True 1
      by (subst scanTeams_menu.simps)
        (auto simp add: u firstHit_menu_append scanPlayers_menu_firstHit [symmetric]
          split: option.split prod.split)
  next
    case False
    then show ?thesis
      by (subst scanTeams_menu.simps) simp
  qed
qed

lemma firstHit_scanOK:
  "firstHit dd pressed bz w xs n tr = (winner, n', tr') \<Longrightarrow>
   \<exists>new. tr' = tr @ new \<and> scanOK pressed xs winner new"
proof (induction xs arbitrary: n tr)
  case Nil
  then show ?case by simp
next
  case (Cons x xs)
  obtain team player where x: "x = (team, player)"
    by (cases x) auto
  let ?r = "poll dd w n (bz ! team ! player)"
  show ?case
  proof (cases "?r = pressed")
    case True
    with Cons.prems have "tr' = tr @ [ReadBuzzer team player ?r]" "winner = Some (team, player)"
      by (simp_all add: x Let_def)
    with True have "tr' = tr @ [ReadBuzzer team player ?r] \<and>
        scanOK pressed (x # xs) winner [ReadBuzzer team player ?r]"
      by (simp add: x)
    then show ?thesis
      by blast
  next
    case False
    with Cons.prems have "firstHit dd pressed bz w xs (Suc n) (tr @ [ReadBuzzer team player ?r])
        = (winner, n', tr')"
      by (simp add: x Let_def)
    from Cons.IH [OF this] obtain new where
      new: "tr' = (tr @ [ReadBuzzer team player ?r]) @ new" "scanOK pressed xs winner new"
      by blast
    with False have "tr' = tr @ (ReadBuzzer team player ?r # new) \<and>
        scanOK pressed (x # xs) winner (ReadBuzzer team player ?r # new)"
      by (simp add: x)
    then show ?thesis
      by blast
  qed
qed

lemma firstHit_menu_scanOK:
  "firstHit_menu up dd bz w xs wb d n tr = Some (winner, wb', d', n', tr') \<Longrightarrow>
   \<exists>new. tr' = tr @ new \<and> scanOK LOW xs winner (filter isReadBuzzer new)"
proof (induction xs arbitrary: wb d n tr)
  case Nil
  then show ?case by simp
next
  case (Cons x xs)
  obtain team player where x: "x = (team, player)"
    by (cases x) auto
  let ?r = "poll dd w n (bz ! team ! player)"
  let ?r2 = "poll dd w (Suc n) wb"
  let ?tr1 = "tr @ [ReadBuzzer team player ?r]"
  let ?tr2 = "?tr1 @ [ReadWhite ?r2]"
  have step: "\<exists>new. tr' = tr @ new \<and> scanOK LOW (x # xs) winner (filter isReadBuzzer new)"
    if miss: "?r \<noteq> LOW" and mid: "filter isReadBuzzer ws = []"
      and rest: "firstHit_menu up dd bz w xs wb1 d1 n1 (?tr1 @ ws) = Some (winner, wb', d', n', tr')"
    for ws wb1 d1 n1
  proof -
    from Cons.IH [OF rest] obtain new where
      new: "tr' = (?tr1 @ ws) @ new" "scanOK LOW xs winner (filter isReadBuzzer new)"
      by blast
    with miss mid have "tr' = tr @ (ReadBuzzer team player ?r # ws @ new) \<and>
        scanOK LOW (x # xs) winner (filter isReadBuzzer (ReadBuzzer team player ?r # ws @ new))"
      by (simp add: x)
    then show ?thesis
      by blast
  qed
  show ?case
  proof (cases "?r = LOW")
    case True
    with Cons.prems have "tr' = ?tr1" "winner = Some (team, player)"
      by (simp_all add: x Let_def)
    with True have "tr' = tr @ [ReadBuzzer team player ?r] \<and>
        scanOK LOW (x # xs) winner (filter isReadBuzzer [ReadBuzzer team player ?r])"
      by (simp add: x)
    then show ?thesis
      by blast
  next
    case miss: False
    show ?thesis
    proof (cases up)
      case True
      with miss Cons.prems have
        "firstHit_menu up dd bz w xs wb d (Suc n) (?tr1 @ []) = Some (winner, wb', d', n', tr')"
        by (simp add: x Let_def)
      from step [OF miss _ this] show ?thesis
        by simp
    next
      case noPot: False
      show ?thesis
      proof (cases "?r2 = LOW")
        case False
        with miss noPot Cons.prems have
          "firstHit_menu up dd bz w xs wb d (Suc (Suc n)) (?tr1 @ [ReadWhite ?r2])
             = Some (winner, wb', d', n', tr')"
          by (simp add: x Let_def)
        from step [OF miss _ this] show ?thesis
          by simp
      next
        case True
        show ?thesis
        proof (cases "menuLoop dd w wb d (Suc (Suc n)) ?tr2")
          case None
          with miss noPot True Cons.prems show ?thesis
            by (simp add: x Let_def)
        next
          case (Some st)
          obtain wb1 d1 n1 tr1 where st: "st = (wb1, d1, n1, tr1)"
            by (cases st) auto
          from Some st obtain ws where ws: "tr1 = ?tr2 @ ws" "filter isReadBuzzer ws = []"
            using menuLoop_trace by blast
          from miss noPot True Some st Cons.prems have
            "firstHit_menu up dd bz w xs wb1 d1 n1 tr1 = Some (winner, wb', d', n', tr')"
            by (simp add: x Let_def)
          with ws have
            "firstHit_menu up dd bz w xs wb1 d1 n1 (?tr1 @ (ReadWhite ?r2 # ws))
               = Some (winner, wb', d', n', tr')"
            by simp
          moreover have "filter isReadBuzzer (ReadWhite ?r2 # ws) = []"
            using ws by simp
          ultimately show ?thesis
            using miss step by blast
        qed
      qed
    qed
  qed
qed

lemma firstHit_menu_usePot:
  "firstHit_menu True dd bz w xs wb d n tr =
     (case firstHit dd LOW bz w xs n tr of (winner, n', tr') \<Rightarrow> Some (winner, wb, d, n', tr'))"
proof (induction xs arbitrary: n tr)
  case Nil
  then show ?case by simp
next
  case (Cons x xs)
  obtain team player where x: "x = (team, player)"
    by (cases x) auto
  show ?case
    by (simp add: x Let_def Cons.IH)
qed

lemma concat_map_upt_shift:
  "concat (map f [0..<Suc N]) = f 0 @ concat (map (\<lambda>i. f (Suc i)) [0..<N])"
  by (simp only: map_upt_shift concat.simps)

lemma firstHit_menu_first_pressed:
  assumes "i < length xs"
    and "\<forall>j<i. poll dd w (n + 2 * j) (bz ! fst (xs ! j) ! snd (xs ! j)) \<noteq> LOW \<and>
               poll dd w (Suc (n + 2 * j)) wb \<noteq> LOW"
    and "poll dd w (n + 2 * i) (bz ! fst (xs ! i) ! snd (xs ! i)) = LOW"
  shows "firstHit_menu False dd bz w xs wb d n tr =
     Some (Some (xs ! i), wb, d, Suc (n + 2 * i),
       tr @ concat (map (\<lambda>j. [ReadBuzzer (fst (xs ! j)) (snd (xs ! j))
                                (poll dd w (n + 2 * j) (bz ! fst (xs ! j) ! snd (xs ! j))),
                              ReadWhite (poll dd w (Suc (n + 2 * j)) wb)]) [0..<i])
          @ [ReadBuzzer (fst (xs ! i)) (snd (xs ! i)) LOW])"
  using assms
proof (induction xs arbitrary: i n tr)
  case Nil
  then show ?case by simp
next
  case (Cons x xs)
  obtain team player where x: "x = (team, player)"
    by (cases x) auto
  show ?case
  proof (cases i)
    case 0
    with Cons.prems show ?thesis
      by (simp add: x Let_def)
  next
    case (Suc k)
    have k: "k < length xs"
      using Cons.prems(1) Suc by simp
    have "0 < i"
      using Suc by simp
    with Cons.prems(2) have first: "poll dd w n (bz ! team ! player) \<noteq> LOW"
      "poll dd w (Suc n) wb \<noteq> LOW"
      using x by force+
    have rest: "\<forall>j<k. poll dd w (Suc (Suc n) + 2 * j) (bz ! fst (xs ! j) ! snd (xs ! j)) \<noteq> LOW \<and>
               poll dd w (Suc (Suc (Suc n) + 2 * j)) wb \<noteq> LOW"
    proof (intro allI impI)
      fix j
      assume "j < k"
      then have "Suc j < i"
        using Suc by simp
      with Cons.prems(2) have
        "poll dd w (n + 2 * Suc j) (bz ! fst ((x # xs) ! Suc j) ! snd ((x # xs) ! Suc j)) \<noteq> LOW \<and>
         poll dd w (Suc (n + 2 * Suc j)) wb \<noteq> LOW"
        by blast
      then show "poll dd w (Suc (Suc n) + 2 * j) (bz ! fst (xs ! j) ! snd (xs ! j)) \<noteq> LOW \<and>
               poll dd w (Suc (Suc (Suc n) + 2 * j)) wb \<noteq> LOW"
        by simp
    qed
    have hit: "poll dd w (Suc (Suc n) + 2 * k) (bz ! fst (xs ! k) ! snd (xs ! k)) = LOW"
      using Cons.prems(3) Suc by simp
    show ?thesis
      using first Cons.IH [OF k rest hit,
          of "tr @ [ReadBuzzer team player (poll dd w n (bz ! team ! player)),
                    ReadWhite (poll dd w (Suc n) wb)]"]
      by (simp add: x Let_def Suc concat_map_upt_shift del: upt_Suc)
  qed
qed

text \<open>
  C3.  The scan visits the buzzers in the order \<open>scanOrder\<close>, team ascending and then
  player ascending.  In the potentiometer revisions, when the buzzer at position \<open>i\<close> of
  that order is the first whose read gives \<open>pressed\<close>, the scan returns exactly that
  (team, player) pair after \<open>i + 1\<close> reads: the buzzers after it are not read; when no
  read gives \<open>pressed\<close> all of them are read and there is no winner.  In the menu revision
  the buzzer reads of any scan that returns are in scan order and stop at the first
  \<open>LOW\<close>, whose buzzer is the winner; when the white button does not read \<open>LOW\<close> in
  between, the result is the same first buzzer; and with \<open>usePotentiometer\<close> the scan is
  the scan of the potentiometer revisions.  The scan is a function of the buttons and
  of what is read: the same readings give the same winner.
\<close>

theorem first_buzzer_in_scan_order_wins:
  "scanOrder = [(0, 0), (0, 1), (0, 2), (0, 3), (1, 0), (1, 1), (1, 2), (1, 3)] \<and>
   (i < length scanOrder \<and>
    (\<forall>j<i. poll dd w (n + j) (bz ! fst (scanOrder ! j) ! snd (scanOrder ! j)) \<noteq> pressed) \<and>
    poll dd w (n + i) (bz ! fst (scanOrder ! i) ! snd (scanOrder ! i)) = pressed \<longrightarrow>
      scanTeams dd pressed bz w 0 n tr =
        (Some (scanOrder ! i), Suc (n + i),
         tr @ map (\<lambda>j. ReadBuzzer (fst (scanOrder ! j)) (snd (scanOrder ! j))
                     (poll dd w (n + j) (bz ! fst (scanOrder ! j) ! snd (scanOrder ! j))))
                [0..<Suc i])) \<and>
   ((\<forall>j<length scanOrder.
        poll dd w (n + j) (bz ! fst (scanOrder ! j) ! snd (scanOrder ! j)) \<noteq> pressed) \<longrightarrow>
      scanTeams dd pressed bz w 0 n tr =
        (None, n + length scanOrder,
         tr @ map (\<lambda>j. ReadBuzzer (fst (scanOrder ! j)) (snd (scanOrder ! j))
                     (poll dd w (n + j) (bz ! fst (scanOrder ! j) ! snd (scanOrder ! j))))
                [0..<length scanOrder])) \<and>
   (scanTeams_menu up dd bzm w 0 wb d n tr = Some (winner, wb', d', n', tr') \<longrightarrow>
      (\<exists>new. tr' = tr @ new \<and> scanOK LOW scanOrder winner (filter isReadBuzzer new))) \<and>
   (i < length scanOrder \<and>
    (\<forall>j<i. poll dd w (n + 2 * j) (bzm ! fst (scanOrder ! j) ! snd (scanOrder ! j)) \<noteq> LOW \<and>
           poll dd w (Suc (n + 2 * j)) wb \<noteq> LOW) \<and>
    poll dd w (n + 2 * i) (bzm ! fst (scanOrder ! i) ! snd (scanOrder ! i)) = LOW \<longrightarrow>
      scanTeams_menu False dd bzm w 0 wb d n tr =
        Some (Some (scanOrder ! i), wb, d, Suc (n + 2 * i),
          tr @ concat (map (\<lambda>j.
                  [ReadBuzzer (fst (scanOrder ! j)) (snd (scanOrder ! j))
                     (poll dd w (n + 2 * j) (bzm ! fst (scanOrder ! j) ! snd (scanOrder ! j))),
                   ReadWhite (poll dd w (Suc (n + 2 * j)) wb)]) [0..<i])
             @ [ReadBuzzer (fst (scanOrder ! i)) (snd (scanOrder ! i)) LOW])) \<and>
   scanTeams_menu True dd bzm w 0 wb d n tr =
     (case scanTeams dd LOW bzm w 0 n tr of
        (winner, n', tr') \<Rightarrow> Some (winner, wb, d, n', tr'))"
proof (intro conjI impI)
  show "scanOrder = [(0, 0), (0, 1), (0, 2), (0, 3), (1, 0), (1, 1), (1, 2), (1, 3)]"
    by (rule scanOrder_eq)
next
  assume "i < length scanOrder \<and>
    (\<forall>j<i. poll dd w (n + j) (bz ! fst (scanOrder ! j) ! snd (scanOrder ! j)) \<noteq> pressed) \<and>
    poll dd w (n + i) (bz ! fst (scanOrder ! i) ! snd (scanOrder ! i)) = pressed"
  then show "scanTeams dd pressed bz w 0 n tr =
        (Some (scanOrder ! i), Suc (n + i),
         tr @ map (\<lambda>j. ReadBuzzer (fst (scanOrder ! j)) (snd (scanOrder ! j))
                     (poll dd w (n + j) (bz ! fst (scanOrder ! j) ! snd (scanOrder ! j))))
                [0..<Suc i])"
    unfolding scanTeams_firstHit scanOrder_def [symmetric]
    by (intro firstHit_first_pressed) simp_all
next
  assume "\<forall>j<length scanOrder.
        poll dd w (n + j) (bz ! fst (scanOrder ! j) ! snd (scanOrder ! j)) \<noteq> pressed"
  then show "scanTeams dd pressed bz w 0 n tr =
        (None, n + length scanOrder,
         tr @ map (\<lambda>j. ReadBuzzer (fst (scanOrder ! j)) (snd (scanOrder ! j))
                     (poll dd w (n + j) (bz ! fst (scanOrder ! j) ! snd (scanOrder ! j))))
                [0..<length scanOrder])"
    unfolding scanTeams_firstHit scanOrder_def [symmetric]
    by (rule firstHit_none_pressed)
next
  assume "scanTeams_menu up dd bzm w 0 wb d n tr = Some (winner, wb', d', n', tr')"
  then show "\<exists>new. tr' = tr @ new \<and> scanOK LOW scanOrder winner (filter isReadBuzzer new)"
    unfolding scanTeams_menu_firstHit scanOrder_def [symmetric]
    by (rule firstHit_menu_scanOK)
next
  assume "i < length scanOrder \<and>
    (\<forall>j<i. poll dd w (n + 2 * j) (bzm ! fst (scanOrder ! j) ! snd (scanOrder ! j)) \<noteq> LOW \<and>
           poll dd w (Suc (n + 2 * j)) wb \<noteq> LOW) \<and>
    poll dd w (n + 2 * i) (bzm ! fst (scanOrder ! i) ! snd (scanOrder ! i)) = LOW"
  then show "scanTeams_menu False dd bzm w 0 wb d n tr =
        Some (Some (scanOrder ! i), wb, d, Suc (n + 2 * i),
          tr @ concat (map (\<lambda>j.
                  [ReadBuzzer (fst (scanOrder ! j)) (snd (scanOrder ! j))
                     (poll dd w (n + 2 * j) (bzm ! fst (scanOrder ! j) ! snd (scanOrder ! j))),
                   ReadWhite (poll dd w (Suc (n + 2 * j)) wb)]) [0..<i])
             @ [ReadBuzzer (fst (scanOrder ! i)) (snd (scanOrder ! i)) LOW])"
    unfolding scanTeams_menu_firstHit scanOrder_def [symmetric]
    by (intro firstHit_menu_first_pressed) simp_all
next
  show "scanTeams_menu True dd bzm w 0 wb d n tr =
     (case scanTeams dd LOW bzm w 0 n tr of
        (winner, n', tr') \<Rightarrow> Some (winner, wb, d, n', tr'))"
    unfolding scanTeams_menu_firstHit scanTeams_firstHit
    by (rule firstHit_menu_usePot)
qed

lemma all_less_2: "(\<forall>i<2. P i) \<longleftrightarrow> P (0::nat) \<and> P 1"
  by (auto simp: eval_nat_numeral less_Suc_eq)

lemma all_less_8:
  "(\<forall>i<8. P i) \<longleftrightarrow> P (0::nat) \<and> P 1 \<and> P 2 \<and> P 3 \<and> P 4 \<and> P 5 \<and> P 6 \<and> P 7"
proof
  assume "\<forall>i<8. P i"
  then show "P 0 \<and> P 1 \<and> P 2 \<and> P 3 \<and> P 4 \<and> P 5 \<and> P 6 \<and> P 7"
    by simp
next
  assume h: "P 0 \<and> P 1 \<and> P 2 \<and> P 3 \<and> P 4 \<and> P 5 \<and> P 6 \<and> P 7"
  show "\<forall>i<8. P i"
  proof (intro allI impI)
    fix i :: nat
    assume "i < 8"
    then have "i = 0 \<or> i = 1 \<or> i = 2 \<or> i = 3 \<or> i = 4 \<or> i = 5 \<or> i = 6 \<or> i = 7"
      by arith
    with h show "P i"
      by blast
  qed
qed

theorem first_buzzer_in_scan_order_wins_witness:
  "scanTeams debounceDelay_v1 HIGH buzzers_v1
     (world_demo (\<lambda>n pin. if pin = 27 \<or> pin = 31 then HIGH else LOW)) 0 0 [] =
     (Some (0, 2), 3, [ReadBuzzer 0 0 LOW, ReadBuzzer 0 1 LOW, ReadBuzzer 0 2 HIGH]) \<and>
   scanTeams debounceDelay_v1 HIGH buzzers_v1 (world_demo (\<lambda>n pin. LOW)) 0 0 [] =
     (None, 8, [ReadBuzzer 0 0 LOW, ReadBuzzer 0 1 LOW, ReadBuzzer 0 2 LOW, ReadBuzzer 0 3 LOW,
                ReadBuzzer 1 0 LOW, ReadBuzzer 1 1 LOW, ReadBuzzer 1 2 LOW, ReadBuzzer 1 3 LOW]) \<and>
   scanTeams_menu False debounceDelay_menu buzzers_menu
     (world_demo (\<lambda>n pin. if pin = 35 \<or> pin = 23 then LOW else HIGH)) 0
     whiteButton_menu 5000 0 [] =
     Some (Some (0, 2), whiteButton_menu, 5000, 5,
       [ReadBuzzer 0 0 HIGH, ReadWhite HIGH, ReadBuzzer 0 1 HIGH, ReadWhite HIGH,
        ReadBuzzer 0 2 LOW]) \<and>
   (\<exists>new. [ReadBuzzer 0 0 HIGH, ReadWhite HIGH, ReadBuzzer 0 1 HIGH, ReadWhite HIGH,
            ReadBuzzer 0 2 LOW] = [] @ new \<and>
          scanOK LOW scanOrder (Some (0, 2)) (filter isReadBuzzer new))"
proof -
  let ?wA = "world_demo (\<lambda>n pin. if pin = 27 \<or> pin = 31 then HIGH else LOW)"
  let ?wB = "world_demo (\<lambda>n pin. LOW)"
  let ?wC = "world_demo (\<lambda>n pin. if pin = 35 \<or> pin = 23 then LOW else HIGH)"
  have so: "scanOrder ! 0 = (0, 0)" "scanOrder ! Suc 0 = (0, 1)" "scanOrder ! 2 = (0, 2)"
    "scanOrder ! 3 = (0, 3)" "scanOrder ! 4 = (1, 0)" "scanOrder ! 5 = (1, 1)"
    "scanOrder ! 6 = (1, 2)" "scanOrder ! 7 = (1, 3)" "length scanOrder = 8"
    by (simp_all add: scanOrder_eq)
  have bz1: "buzzers_v1 ! 0 ! 0 = mkButton 23 53 LOW LOW 0"
    "buzzers_v1 ! 0 ! Suc 0 = mkButton 25 51 LOW LOW 0"
    "buzzers_v1 ! 0 ! 2 = mkButton 27 49 LOW LOW 0"
    "buzzers_v1 ! 0 ! 3 = mkButton 29 47 LOW LOW 0"
    "buzzers_v1 ! Suc 0 ! 0 = mkButton 31 45 LOW LOW 0"
    "buzzers_v1 ! Suc 0 ! Suc 0 = mkButton 33 43 LOW LOW 0"
    "buzzers_v1 ! Suc 0 ! 2 = mkButton 35 41 LOW LOW 0"
    "buzzers_v1 ! Suc 0 ! 3 = mkButton 37 39 LOW LOW 0"
    by (simp_all add: buzzers_v1_def)
  have bzm: "buzzers_menu ! 0 ! 0 = mkButton 31 53 HIGH LOW 0"
    "buzzers_menu ! 0 ! Suc 0 = mkButton 33 51 HIGH LOW 0"
    "buzzers_menu ! 0 ! 2 = mkButton 35 49 HIGH LOW 0"
    by (simp_all add: buzzers_menu_def)
  have pA: "poll debounceDelay_v1 ?wA 0 (mkButton 23 53 LOW LOW 0) = LOW"
    "poll debounceDelay_v1 ?wA (Suc 0) (mkButton 25 51 LOW LOW 0) = LOW"
    "poll debounceDelay_v1 ?wA 2 (mkButton 27 49 LOW LOW 0) = HIGH"
    "poll debounceDelay_v1 ?wA (Suc (Suc 0)) (mkButton 27 49 LOW LOW 0) = HIGH"
    by (simp_all add: poll_demo cfg_defs rd_defs)
  have pB: "\<And>n b. lastButtonState b = LOW \<Longrightarrow> buttonState b = LOW \<Longrightarrow>
      poll debounceDelay_v1 ?wB n b = LOW"
    by (simp add: poll_demo readButtonState_same)
  have pC: "poll debounceDelay_menu ?wC 0 (mkButton 31 53 HIGH LOW 0) = HIGH"
    "poll debounceDelay_menu ?wC (Suc 0) whiteButton_menu = HIGH"
    "poll debounceDelay_menu ?wC 2 (mkButton 33 51 HIGH LOW 0) = HIGH"
    "poll debounceDelay_menu ?wC 3 whiteButton_menu = HIGH"
    "poll debounceDelay_menu ?wC 4 (mkButton 35 49 HIGH LOW 0) = LOW"
    "poll debounceDelay_menu ?wC (Suc (Suc 0)) (mkButton 33 51 HIGH LOW 0) = HIGH"
    "poll debounceDelay_menu ?wC (Suc (Suc (Suc 0))) whiteButton_menu = HIGH"
    "poll debounceDelay_menu ?wC (Suc (Suc (Suc (Suc 0)))) (mkButton 35 49 HIGH LOW 0) = LOW"
    by (simp_all add: poll_demo cfg_defs rd_defs)
  have u: "[0..<3] = [0, Suc 0, 2]" "[0..<8] = [0, Suc 0, 2, 3, 4, 5, 6, 7]"
    "[0..<2] = [0, Suc 0]"
    by (simp_all add: upt_conv_Cons)
  have u3: "[0..<Suc 2] = [0, Suc 0, 2]"
    by (simp add: upt_conv_Cons)
  have two: "Suc (Suc 0) = 2"
    by simp
  have hA: "2 < length scanOrder \<and>
      (\<forall>j<2. poll debounceDelay_v1 ?wA (0 + j)
          (buzzers_v1 ! fst (scanOrder ! j) ! snd (scanOrder ! j)) \<noteq> HIGH) \<and>
      poll debounceDelay_v1 ?wA (0 + 2)
          (buzzers_v1 ! fst (scanOrder ! 2) ! snd (scanOrder ! 2)) = HIGH"
    by (simp add: all_less_2 so bz1 pA)
  have A: "scanTeams debounceDelay_v1 HIGH buzzers_v1 ?wA 0 0 [] =
     (Some (0, 2), 3, [ReadBuzzer 0 0 LOW, ReadBuzzer 0 1 LOW, ReadBuzzer 0 2 HIGH])"
    using first_buzzer_in_scan_order_wins [where i = 2 and dd = debounceDelay_v1 and w = ?wA
        and n = 0 and bz = buzzers_v1 and pressed = HIGH and tr = "[]",
        THEN conjunct2, THEN conjunct1, THEN mp, OF hA]
    by (simp add: so bz1 pA u u3 two del: upt_Suc)
  have hB: "\<forall>j<length scanOrder. poll debounceDelay_v1 ?wB (0 + j)
          (buzzers_v1 ! fst (scanOrder ! j) ! snd (scanOrder ! j)) \<noteq> HIGH"
    by (simp add: all_less_8 so bz1 pB mkButton_def)
  have B: "scanTeams debounceDelay_v1 HIGH buzzers_v1 ?wB 0 0 [] =
     (None, 8, [ReadBuzzer 0 0 LOW, ReadBuzzer 0 1 LOW, ReadBuzzer 0 2 LOW, ReadBuzzer 0 3 LOW,
                ReadBuzzer 1 0 LOW, ReadBuzzer 1 1 LOW, ReadBuzzer 1 2 LOW, ReadBuzzer 1 3 LOW])"
    using first_buzzer_in_scan_order_wins [where dd = debounceDelay_v1 and w = ?wB
        and n = 0 and bz = buzzers_v1 and pressed = HIGH and tr = "[]",
        THEN conjunct2, THEN conjunct2, THEN conjunct1, THEN mp, OF hB]
    by (simp add: so bz1 pB u two mkButton_def del: upt_Suc)
  have hC: "2 < length scanOrder \<and>
      (\<forall>j<2. poll debounceDelay_menu ?wC (0 + 2 * j)
          (buzzers_menu ! fst (scanOrder ! j) ! snd (scanOrder ! j)) \<noteq> LOW \<and>
        poll debounceDelay_menu ?wC (Suc (0 + 2 * j)) whiteButton_menu \<noteq> LOW) \<and>
      poll debounceDelay_menu ?wC (0 + 2 * 2)
          (buzzers_menu ! fst (scanOrder ! 2) ! snd (scanOrder ! 2)) = LOW"
    by (simp add: all_less_2 so bzm pC)
  have C: "scanTeams_menu False debounceDelay_menu buzzers_menu ?wC 0 whiteButton_menu 5000 0 [] =
     Some (Some (0, 2), whiteButton_menu, 5000, 5,
       [ReadBuzzer 0 0 HIGH, ReadWhite HIGH, ReadBuzzer 0 1 HIGH, ReadWhite HIGH,
        ReadBuzzer 0 2 LOW])"
    using first_buzzer_in_scan_order_wins [where i = 2 and dd = debounceDelay_menu and w = ?wC
        and n = 0 and bzm = buzzers_menu and wb = whiteButton_menu and d = 5000 and tr = "[]",
        THEN conjunct2, THEN conjunct2, THEN conjunct2, THEN conjunct2, THEN conjunct1,
        THEN mp, OF hC]
    by (simp add: so bzm pC u two del: upt_Suc)
  have D: "\<exists>new. [ReadBuzzer 0 0 HIGH, ReadWhite HIGH, ReadBuzzer 0 1 HIGH, ReadWhite HIGH,
            ReadBuzzer 0 2 LOW] = [] @ new \<and>
          scanOK LOW scanOrder (Some (0, 2)) (filter isReadBuzzer new)"
    by (rule first_buzzer_in_scan_order_wins [where up = False and dd = debounceDelay_menu
        and w = ?wC and n = 0 and bzm = buzzers_menu and wb = whiteButton_menu and d = 5000
        and tr = "[]", THEN conjunct2, THEN conjunct2, THEN conjunct2, THEN conjunct1,
        THEN mp, OF C])
  from A B C D show ?thesis
    by blast
qed

section \<open>The reset wait\<close>

lemma resetWait_exit_aux:
  assumes "resetWait dd pressed wb w ts d n tr = Some y"
  shows "(fst y = Timeout \<longrightarrow>
            n \<le> fst (snd y) \<and> \<not> waitCond w ts d (fst (snd y)) \<and>
            (\<forall>k. n \<le> k \<and> k < fst (snd y) \<longrightarrow> waitCond w ts d k \<and> poll dd w k wb \<noteq> pressed)) \<and>
         (fst y = ManualReset \<longrightarrow>
            n < fst (snd y) \<and> waitCond w ts d (fst (snd y) - 1) \<and>
            poll dd w (fst (snd y) - 1) wb = pressed \<and>
            (\<forall>k. n \<le> k \<and> k < fst (snd y) - 1 \<longrightarrow>
               waitCond w ts d k \<and> poll dd w k wb \<noteq> pressed))"
proof (rule resetWait.raw_induct
    [where P = "\<lambda>dd pressed wb w ts d n tr y.
         (fst y = Timeout \<longrightarrow>
            n \<le> fst (snd y) \<and> \<not> waitCond w ts d (fst (snd y)) \<and>
            (\<forall>k. n \<le> k \<and> k < fst (snd y) \<longrightarrow> waitCond w ts d k \<and> poll dd w k wb \<noteq> pressed)) \<and>
         (fst y = ManualReset \<longrightarrow>
            n < fst (snd y) \<and> waitCond w ts d (fst (snd y) - 1) \<and>
            poll dd w (fst (snd y) - 1) wb = pressed \<and>
            (\<forall>k. n \<le> k \<and> k < fst (snd y) - 1 \<longrightarrow>
               waitCond w ts d k \<and> poll dd w k wb \<noteq> pressed))",
      OF _ assms])
  fix loop :: "c_ulong \<Rightarrow> c_int \<Rightarrow> 'a Button_scheme \<Rightarrow> world \<Rightarrow> c_ulong \<Rightarrow> c_int \<Rightarrow>
      nat \<Rightarrow> event list \<Rightarrow> (exit \<times> nat \<times> event list) option"
  fix dd pressed wb w ts d n tr y
  assume IH: "\<And>dd pressed wb w ts d n tr y. loop dd pressed wb w ts d n tr = Some y \<Longrightarrow>
         (fst y = Timeout \<longrightarrow>
            n \<le> fst (snd y) \<and> \<not> waitCond w ts d (fst (snd y)) \<and>
            (\<forall>k. n \<le> k \<and> k < fst (snd y) \<longrightarrow> waitCond w ts d k \<and> poll dd w k wb \<noteq> pressed)) \<and>
         (fst y = ManualReset \<longrightarrow>
            n < fst (snd y) \<and> waitCond w ts d (fst (snd y) - 1) \<and>
            poll dd w (fst (snd y) - 1) wb = pressed \<and>
            (\<forall>k. n \<le> k \<and> k < fst (snd y) - 1 \<longrightarrow>
               waitCond w ts d k \<and> poll dd w k wb \<noteq> pressed))"
  assume body: "(if waitCond w ts d n
      then let r = poll dd w n wb; tr1 = tr @ [ReadWhite r]
           in if r = pressed then Some (ManualReset, Suc n, tr1)
              else loop dd pressed wb w ts d (Suc n) tr1
      else Some (Timeout, n, tr)) = Some y"
  show "(fst y = Timeout \<longrightarrow>
            n \<le> fst (snd y) \<and> \<not> waitCond w ts d (fst (snd y)) \<and>
            (\<forall>k. n \<le> k \<and> k < fst (snd y) \<longrightarrow> waitCond w ts d k \<and> poll dd w k wb \<noteq> pressed)) \<and>
         (fst y = ManualReset \<longrightarrow>
            n < fst (snd y) \<and> waitCond w ts d (fst (snd y) - 1) \<and>
            poll dd w (fst (snd y) - 1) wb = pressed \<and>
            (\<forall>k. n \<le> k \<and> k < fst (snd y) - 1 \<longrightarrow>
               waitCond w ts d k \<and> poll dd w k wb \<noteq> pressed))"
  proof (cases "waitCond w ts d n")
    case False
    with body have "y = (Timeout, n, tr)"
      by simp
    with False show ?thesis
      by auto
  next
    case c: True
    show ?thesis
    proof (cases "poll dd w n wb = pressed")
      case True
      with c body have "y = (ManualReset, Suc n, tr @ [ReadWhite (poll dd w n wb)])"
        by (simp add: Let_def)
      with c True show ?thesis
        by auto
    next
      case False
      with c body have "loop dd pressed wb w ts d (Suc n) (tr @ [ReadWhite (poll dd w n wb)]) = Some y"
        by (simp add: Let_def)
      from IH [OF this] c False show ?thesis
        by (auto simp: le_Suc_eq Suc_le_eq dest: le_neq_implies_less)
    qed
  qed
qed

lemma shift_prems:
  assumes "\<forall>i<Suc N. P (n + i)"
  shows "P n" "\<forall>i<N. P (Suc n + i)"
proof -
  show "P n"
    using assms by force
  show "\<forall>i<N. P (Suc n + i)"
  proof (intro allI impI)
    fix i
    assume "i < N"
    then have "Suc i < Suc N"
      by simp
    with assms have "P (n + Suc i)"
      by blast
    then show "P (Suc n + i)"
      by simp
  qed
qed

lemma resetWait_runs:
  assumes "\<forall>i<N. waitCond w ts d (n + i) \<and> poll dd w (n + i) wb \<noteq> pressed"
  shows "resetWait dd pressed wb w ts d n tr =
     resetWait dd pressed wb w ts d (n + N)
       (tr @ map (\<lambda>i. ReadWhite (poll dd w (n + i) wb)) [0..<N])"
  using assms
proof (induction N arbitrary: n tr)
  case 0
  then show ?case by simp
next
  case (Suc N)
  note sp = shift_prems [where P = "\<lambda>k. waitCond w ts d k \<and> poll dd w k wb \<noteq> pressed",
      OF Suc.prems]
  have "resetWait dd pressed wb w ts d n tr =
      resetWait dd pressed wb w ts d (Suc n) (tr @ [ReadWhite (poll dd w n wb)])"
    using sp(1) by (subst resetWait.simps) (simp add: Let_def)
  also have "\<dots> = resetWait dd pressed wb w ts d (Suc n + N)
       ((tr @ [ReadWhite (poll dd w n wb)]) @
          map (\<lambda>i. ReadWhite (poll dd w (Suc n + i) wb)) [0..<N])"
    by (rule Suc.IH [OF sp(2)])
  finally show ?case
    by (simp add: map_upt_shift del: upt_Suc)
qed

lemma resetWait_timeout:
  assumes "\<forall>i<N. waitCond w ts d (n + i) \<and> poll dd w (n + i) wb \<noteq> pressed"
    and "\<not> waitCond w ts d (n + N)"
  shows "resetWait dd pressed wb w ts d n tr =
     Some (Timeout, n + N, tr @ map (\<lambda>i. ReadWhite (poll dd w (n + i) wb)) [0..<N])"
  using assms(2) by (subst resetWait_runs [OF assms(1)], subst resetWait.simps) simp

lemma resetWait_manual:
  assumes "\<forall>i<N. waitCond w ts d (n + i) \<and> poll dd w (n + i) wb \<noteq> pressed"
    and "waitCond w ts d (n + N)" and "poll dd w (n + N) wb = pressed"
  shows "resetWait dd pressed wb w ts d n tr =
     Some (ManualReset, Suc (n + N),
       tr @ map (\<lambda>i. ReadWhite (poll dd w (n + i) wb)) [0..<Suc N])"
  using assms(2,3) by (subst resetWait_runs [OF assms(1)], subst resetWait.simps) (simp add: Let_def)

lemma releaseWait_runs:
  assumes "\<forall>i<M. poll dd w (n + i) wb = LOW"
  shows "releaseWait dd w wb n tr =
     releaseWait dd w wb (n + M) (tr @ map (\<lambda>i. ReadWhite (poll dd w (n + i) wb)) [0..<M])"
  using assms
proof (induction M arbitrary: n tr)
  case 0
  then show ?case by simp
next
  case (Suc M)
  note sp = shift_prems [where P = "\<lambda>k. poll dd w k wb = LOW", OF Suc.prems]
  have "releaseWait dd w wb n tr =
      releaseWait dd w wb (Suc n) (tr @ [ReadWhite (poll dd w n wb)])"
    using sp(1) by (subst releaseWait.simps) (simp add: Let_def)
  also have "\<dots> = releaseWait dd w wb (Suc n + M)
       ((tr @ [ReadWhite (poll dd w n wb)]) @
          map (\<lambda>i. ReadWhite (poll dd w (Suc n + i) wb)) [0..<M])"
    by (rule Suc.IH [OF sp(2)])
  finally show ?case
    by (simp add: map_upt_shift del: upt_Suc)
qed

lemma releaseWait_released:
  assumes "\<forall>i<M. poll dd w (n + i) wb = LOW" and "poll dd w (n + M) wb \<noteq> LOW"
  shows "releaseWait dd w wb n tr =
     Some (Suc (n + M), tr @ map (\<lambda>i. ReadWhite (poll dd w (n + i) wb)) [0..<Suc M])"
  using assms(2) by (subst releaseWait_runs [OF assms(1)], subst releaseWait.simps) (simp add: Let_def)

lemma releaseWait_exit_aux:
  assumes "releaseWait dd w wb n tr = Some y"
  shows "n < fst y \<and> poll dd w (fst y - 1) wb \<noteq> LOW \<and>
         (\<forall>k. n \<le> k \<and> k < fst y - 1 \<longrightarrow> poll dd w k wb = LOW)"
proof (rule releaseWait.raw_induct
    [where P = "\<lambda>dd w wb n tr y. n < fst y \<and> poll dd w (fst y - 1) wb \<noteq> LOW \<and>
         (\<forall>k. n \<le> k \<and> k < fst y - 1 \<longrightarrow> poll dd w k wb = LOW)",
      OF _ assms])
  fix loop :: "c_ulong \<Rightarrow> world \<Rightarrow> 'a Button_scheme \<Rightarrow> nat \<Rightarrow> event list \<Rightarrow>
      (nat \<times> event list) option"
  fix dd w wb n tr y
  assume IH: "\<And>dd w wb n tr y. loop dd w wb n tr = Some y \<Longrightarrow>
      n < fst y \<and> poll dd w (fst y - 1) wb \<noteq> LOW \<and>
         (\<forall>k. n \<le> k \<and> k < fst y - 1 \<longrightarrow> poll dd w k wb = LOW)"
  assume body: "(let r = poll dd w n wb; tr1 = tr @ [ReadWhite r]
      in if r = LOW then loop dd w wb (Suc n) tr1 else Some (Suc n, tr1)) = Some y"
  show "n < fst y \<and> poll dd w (fst y - 1) wb \<noteq> LOW \<and>
         (\<forall>k. n \<le> k \<and> k < fst y - 1 \<longrightarrow> poll dd w k wb = LOW)"
  proof (cases "poll dd w n wb = LOW")
    case False
    with body have "y = (Suc n, tr @ [ReadWhite (poll dd w n wb)])"
      by (simp add: Let_def)
    with False show ?thesis
      by auto
  next
    case True
    with body have "loop dd w wb (Suc n) (tr @ [ReadWhite (poll dd w n wb)]) = Some y"
      by (simp add: Let_def)
    from IH [OF this] True show ?thesis
      by (auto simp: le_Suc_eq Suc_le_eq dest: le_neq_implies_less)
  qed
qed

lemma resetWait_menu_runs:
  assumes "\<forall>i<N. waitCond w ts d (n + i) \<and> poll dd w (n + i) wb \<noteq> LOW"
  shows "resetWait_menu dd wb w ts d n tr =
     resetWait_menu dd wb w ts d (n + N)
       (tr @ map (\<lambda>i. ReadWhite (poll dd w (n + i) wb)) [0..<N])"
  using assms
proof (induction N arbitrary: n tr)
  case 0
  then show ?case by simp
next
  case (Suc N)
  note sp = shift_prems [where P = "\<lambda>k. waitCond w ts d k \<and> poll dd w k wb \<noteq> LOW",
      OF Suc.prems]
  have "resetWait_menu dd wb w ts d n tr =
      resetWait_menu dd wb w ts d (Suc n) (tr @ [ReadWhite (poll dd w n wb)])"
    using sp(1) by (subst resetWait_menu.simps) (simp add: Let_def)
  also have "\<dots> = resetWait_menu dd wb w ts d (Suc n + N)
       ((tr @ [ReadWhite (poll dd w n wb)]) @
          map (\<lambda>i. ReadWhite (poll dd w (Suc n + i) wb)) [0..<N])"
    by (rule Suc.IH [OF sp(2)])
  finally show ?case
    by (simp add: map_upt_shift del: upt_Suc)
qed

lemma resetWait_menu_timeout:
  assumes "\<forall>i<N. waitCond w ts d (n + i) \<and> poll dd w (n + i) wb \<noteq> LOW"
    and "\<not> waitCond w ts d (n + N)"
  shows "resetWait_menu dd wb w ts d n tr =
     Some (Timeout, n + N, tr @ map (\<lambda>i. ReadWhite (poll dd w (n + i) wb)) [0..<N])"
  using assms(2) by (subst resetWait_menu_runs [OF assms(1)], subst resetWait_menu.simps) simp

lemma resetWait_menu_manual:
  assumes "\<forall>i<N. waitCond w ts d (n + i) \<and> poll dd w (n + i) wb \<noteq> LOW"
    and "waitCond w ts d (n + N)" and "poll dd w (n + N) wb = LOW"
    and "\<forall>i<M. poll dd w (Suc (n + N) + i) wb = LOW"
    and "poll dd w (Suc (n + N) + M) wb \<noteq> LOW"
  shows "resetWait_menu dd wb w ts d n tr =
     Some (ManualReset, Suc (Suc (n + N) + M),
       tr @ map (\<lambda>i. ReadWhite (poll dd w (n + i) wb)) [0..<Suc N]
          @ map (\<lambda>i. ReadWhite (poll dd w (Suc (n + N) + i) wb)) [0..<Suc M])"
proof -
  have "resetWait_menu dd wb w ts d n tr =
     resetWait_menu dd wb w ts d (n + N)
       (tr @ map (\<lambda>i. ReadWhite (poll dd w (n + i) wb)) [0..<N])"
    by (rule resetWait_menu_runs [OF assms(1)])
  also have "\<dots> =
     (case releaseWait dd w wb (Suc (n + N))
             ((tr @ map (\<lambda>i. ReadWhite (poll dd w (n + i) wb)) [0..<N])
                @ [ReadWhite (poll dd w (n + N) wb)]) of
        None \<Rightarrow> None
      | Some (n', tr') \<Rightarrow> Some (ManualReset, n', tr'))"
    using assms(2,3) by (subst resetWait_menu.simps) (simp add: Let_def)
  also have "\<dots> = Some (ManualReset, Suc (Suc (n + N) + M),
       ((tr @ map (\<lambda>i. ReadWhite (poll dd w (n + i) wb)) [0..<N])
                @ [ReadWhite (poll dd w (n + N) wb)])
          @ map (\<lambda>i. ReadWhite (poll dd w (Suc (n + N) + i) wb)) [0..<Suc M])"
    by (simp only: releaseWait_released [OF assms(4,5)] option.case prod.case)
  finally show ?thesis
    by simp
qed

lemma resetWait_menu_exit_aux:
  assumes "resetWait_menu dd wb w ts d n tr = Some y"
  shows "(fst y = Timeout \<longrightarrow>
            n \<le> fst (snd y) \<and> \<not> waitCond w ts d (fst (snd y)) \<and>
            (\<forall>k. n \<le> k \<and> k < fst (snd y) \<longrightarrow> waitCond w ts d k \<and> poll dd w k wb \<noteq> LOW)) \<and>
         (fst y = ManualReset \<longrightarrow>
            (\<exists>m. n \<le> m \<and> Suc m < fst (snd y) \<and> waitCond w ts d m \<and> poll dd w m wb = LOW \<and>
               (\<forall>k. n \<le> k \<and> k < m \<longrightarrow> waitCond w ts d k \<and> poll dd w k wb \<noteq> LOW) \<and>
               (\<forall>k. m < k \<and> k < fst (snd y) - 1 \<longrightarrow> poll dd w k wb = LOW)) \<and>
            poll dd w (fst (snd y) - 1) wb \<noteq> LOW)"
proof (rule resetWait_menu.raw_induct
    [where P = "\<lambda>dd wb w ts d n tr y.
         (fst y = Timeout \<longrightarrow>
            n \<le> fst (snd y) \<and> \<not> waitCond w ts d (fst (snd y)) \<and>
            (\<forall>k. n \<le> k \<and> k < fst (snd y) \<longrightarrow> waitCond w ts d k \<and> poll dd w k wb \<noteq> LOW)) \<and>
         (fst y = ManualReset \<longrightarrow>
            (\<exists>m. n \<le> m \<and> Suc m < fst (snd y) \<and> waitCond w ts d m \<and> poll dd w m wb = LOW \<and>
               (\<forall>k. n \<le> k \<and> k < m \<longrightarrow> waitCond w ts d k \<and> poll dd w k wb \<noteq> LOW) \<and>
               (\<forall>k. m < k \<and> k < fst (snd y) - 1 \<longrightarrow> poll dd w k wb = LOW)) \<and>
            poll dd w (fst (snd y) - 1) wb \<noteq> LOW)",
      OF _ assms])
  fix loop :: "c_ulong \<Rightarrow> 'a Button_scheme \<Rightarrow> world \<Rightarrow> c_ulong \<Rightarrow> c_int \<Rightarrow>
      nat \<Rightarrow> event list \<Rightarrow> (exit \<times> nat \<times> event list) option"
  fix dd wb w ts d n tr y
  assume IH: "\<And>dd wb w ts d n tr y. loop dd wb w ts d n tr = Some y \<Longrightarrow>
         (fst y = Timeout \<longrightarrow>
            n \<le> fst (snd y) \<and> \<not> waitCond w ts d (fst (snd y)) \<and>
            (\<forall>k. n \<le> k \<and> k < fst (snd y) \<longrightarrow> waitCond w ts d k \<and> poll dd w k wb \<noteq> LOW)) \<and>
         (fst y = ManualReset \<longrightarrow>
            (\<exists>m. n \<le> m \<and> Suc m < fst (snd y) \<and> waitCond w ts d m \<and> poll dd w m wb = LOW \<and>
               (\<forall>k. n \<le> k \<and> k < m \<longrightarrow> waitCond w ts d k \<and> poll dd w k wb \<noteq> LOW) \<and>
               (\<forall>k. m < k \<and> k < fst (snd y) - 1 \<longrightarrow> poll dd w k wb = LOW)) \<and>
            poll dd w (fst (snd y) - 1) wb \<noteq> LOW)"
  assume body: "(if waitCond w ts d n
      then let r = poll dd w n wb; tr1 = tr @ [ReadWhite r]
           in if r = LOW
              then case releaseWait dd w wb (Suc n) tr1 of None \<Rightarrow> None
                   | Some (n', tr') \<Rightarrow> Some (ManualReset, n', tr')
              else loop dd wb w ts d (Suc n) tr1
      else Some (Timeout, n, tr)) = Some y"
  show "(fst y = Timeout \<longrightarrow>
            n \<le> fst (snd y) \<and> \<not> waitCond w ts d (fst (snd y)) \<and>
            (\<forall>k. n \<le> k \<and> k < fst (snd y) \<longrightarrow> waitCond w ts d k \<and> poll dd w k wb \<noteq> LOW)) \<and>
         (fst y = ManualReset \<longrightarrow>
            (\<exists>m. n \<le> m \<and> Suc m < fst (snd y) \<and> waitCond w ts d m \<and> poll dd w m wb = LOW \<and>
               (\<forall>k. n \<le> k \<and> k < m \<longrightarrow> waitCond w ts d k \<and> poll dd w k wb \<noteq> LOW) \<and>
               (\<forall>k. m < k \<and> k < fst (snd y) - 1 \<longrightarrow> poll dd w k wb = LOW)) \<and>
            poll dd w (fst (snd y) - 1) wb \<noteq> LOW)"
  proof (cases "waitCond w ts d n")
    case False
    with body have "y = (Timeout, n, tr)"
      by simp
    with False show ?thesis
      by auto
  next
    case c: True
    show ?thesis
    proof (cases "poll dd w n wb = LOW")
      case True
      with c body obtain n' tr' where
        rel: "releaseWait dd w wb (Suc n) (tr @ [ReadWhite (poll dd w n wb)]) = Some (n', tr')"
        and y: "y = (ManualReset, n', tr')"
        by (auto simp: Let_def split: option.splits)
      from releaseWait_exit_aux [OF rel] have
        r: "Suc n < n'" "poll dd w (n' - 1) wb \<noteq> LOW"
        "\<forall>k. Suc n \<le> k \<and> k < n' - 1 \<longrightarrow> poll dd w k wb = LOW"
        by simp_all
      have "n \<le> n \<and> Suc n < n' \<and> waitCond w ts d n \<and> poll dd w n wb = LOW \<and>
               (\<forall>k. n \<le> k \<and> k < n \<longrightarrow> waitCond w ts d k \<and> poll dd w k wb \<noteq> LOW) \<and>
               (\<forall>k. n < k \<and> k < n' - 1 \<longrightarrow> poll dd w k wb = LOW)"
        using c True r by (auto simp: Suc_le_eq)
      then have "\<exists>m. n \<le> m \<and> Suc m < n' \<and> waitCond w ts d m \<and> poll dd w m wb = LOW \<and>
               (\<forall>k. n \<le> k \<and> k < m \<longrightarrow> waitCond w ts d k \<and> poll dd w k wb \<noteq> LOW) \<and>
               (\<forall>k. m < k \<and> k < n' - 1 \<longrightarrow> poll dd w k wb = LOW)"
        by blast
      with r y show ?thesis
        by simp
    next
      case False
      with c body have l: "loop dd wb w ts d (Suc n) (tr @ [ReadWhite (poll dd w n wb)]) = Some y"
        by (simp add: Let_def)
      note ih = IH [OF l]
      show ?thesis
      proof (intro conjI impI)
        assume "fst y = Timeout"
        with ih c False show "n \<le> fst (snd y)" "\<not> waitCond w ts d (fst (snd y))"
          "\<forall>k. n \<le> k \<and> k < fst (snd y) \<longrightarrow> waitCond w ts d k \<and> poll dd w k wb \<noteq> LOW"
          by (auto simp: le_Suc_eq Suc_le_eq dest: le_neq_implies_less)
      next
        assume "fst y = ManualReset"
        with ih obtain m where m: "Suc n \<le> m" "Suc m < fst (snd y)" "waitCond w ts d m"
          "poll dd w m wb = LOW"
          "\<forall>k. Suc n \<le> k \<and> k < m \<longrightarrow> waitCond w ts d k \<and> poll dd w k wb \<noteq> LOW"
          "\<forall>k. m < k \<and> k < fst (snd y) - 1 \<longrightarrow> poll dd w k wb = LOW"
          by blast
        have "\<forall>k. n \<le> k \<and> k < m \<longrightarrow> waitCond w ts d k \<and> poll dd w k wb \<noteq> LOW"
          using m(5) c False by (auto simp: le_Suc_eq Suc_le_eq dest: le_neq_implies_less)
        with m have "n \<le> m \<and> Suc m < fst (snd y) \<and> waitCond w ts d m \<and> poll dd w m wb = LOW \<and>
               (\<forall>k. n \<le> k \<and> k < m \<longrightarrow> waitCond w ts d k \<and> poll dd w k wb \<noteq> LOW) \<and>
               (\<forall>k. m < k \<and> k < fst (snd y) - 1 \<longrightarrow> poll dd w k wb = LOW)"
          by simp
        then show "\<exists>m. n \<le> m \<and> Suc m < fst (snd y) \<and> waitCond w ts d m \<and> poll dd w m wb = LOW \<and>
               (\<forall>k. n \<le> k \<and> k < m \<longrightarrow> waitCond w ts d k \<and> poll dd w k wb \<noteq> LOW) \<and>
               (\<forall>k. m < k \<and> k < fst (snd y) - 1 \<longrightarrow> poll dd w k wb = LOW)"
          by blast
      next
        assume "fst y = ManualReset"
        with ih show "poll dd w (fst (snd y) - 1) wb \<noteq> LOW"
          by blast
      qed
    qed
  qed
qed

lemma waitCond_iff:
  "waitCond w ts d n \<longleftrightarrow> sint d < 0 \<or> uint (millisW w n - ts) < sint d"
proof (cases "sint d < 0")
  case True
  then show ?thesis
    by (simp add: waitCond_def word_sless_alt)
next
  case False
  then have "uint (ulong_of_int d) = sint d"
    using sint_lt [of d] by (simp add: uint_ulong_of_int)
  with False show ?thesis
    by (simp add: waitCond_def word_sless_alt word_less_alt)
qed

lemma elapsed_le_true_time:
  assumes "T0 \<le> T"
  shows "uint (of_nat T - of_nat T0 :: c_ulong) \<le> int (T - T0)"
proof -
  have "(of_nat T - of_nat T0 :: c_ulong) = of_nat (T - T0)"
    using assms by simp
  then have "uint (of_nat T - of_nat T0 :: c_ulong) = int ((T - T0) mod 4294967296)"
    by (simp add: uint_nat unat_of_nat)
  also have "\<dots> \<le> int (T - T0)"
    by simp
  finally show ?thesis .
qed

lemma resetWait_diverges:
  assumes "sint d < 0" and "\<forall>k\<ge>n. poll dd w k wb \<noteq> pressed"
  shows "resetWait dd pressed wb w ts d n tr = None"
proof (cases "resetWait dd pressed wb w ts d n tr")
  case None
  then show ?thesis .
next
  case (Some y)
  note ex = resetWait_exit_aux [OF Some]
  show ?thesis
  proof (cases "fst y")
    case Timeout
    with ex assms(1) show ?thesis
      by (simp add: waitCond_iff)
  next
    case ManualReset
    with ex have "n \<le> fst (snd y) - 1" "poll dd w (fst (snd y) - 1) wb = pressed"
      by auto
    with assms(2) show ?thesis
      by blast
  qed
qed

lemma resetWait_menu_diverges:
  assumes "sint d < 0" and "\<forall>k\<ge>n. poll dd w k wb \<noteq> LOW"
  shows "resetWait_menu dd wb w ts d n tr = None"
proof (cases "resetWait_menu dd wb w ts d n tr")
  case None
  then show ?thesis .
next
  case (Some y)
  note ex = resetWait_menu_exit_aux [OF Some]
  show ?thesis
  proof (cases "fst y")
    case Timeout
    with ex assms(1) show ?thesis
      by (simp add: waitCond_iff)
  next
    case ManualReset
    with ex obtain m where "n \<le> m" "poll dd w m wb = LOW"
      by blast
    with assms(2) show ?thesis
      by blast
  qed
qed

lemma poll_demo_same:
  "lastButtonState b = r \<Longrightarrow> buttonState b = r \<Longrightarrow>
   poll dd (world_demo (\<lambda>n pin. r)) n b = r"
  by (simp add: poll_demo readButtonState_same)

lemma millisW_demo: "millisW (world_demo rd) n = 40000 + 1000 * of_nat n"
  by (simp add: world_demo_def)

text \<open>
  C4.  When the reset wait is left through its condition (the timeout), the delay is not
  negative and the elapsed time computed by the condition has reached it: the timeout does
  not fire before \<open>timestamp + delayReset\<close>, also in true time when the clock has wrapped
  in between.  With a delay that is not negative, a button that is not pressed and a clock
  that reaches the deadline at the check number \<open>N\<close>, the wait does end there with the
  timeout.  With a negative delay every exit is a manual reset, after a read of the white
  button that gave "pressed"; and when the button never reads "pressed" the wait never
  ends.  This holds for the wait of the potentiometer revisions (\<open>resetWait\<close>) and for the
  wait of the menu and Nano revisions (\<open>resetWait_menu\<close>).
\<close>

theorem timeout_not_before_deadline:
  "(resetWait dd pressed wb w ts d n tr = Some (Timeout, n', tr') \<or>
    resetWait_menu dd wbm w ts d n tr = Some (Timeout, n', tr') \<longrightarrow>
      0 \<le> sint d \<and> sint d \<le> uint (millisW w n' - ts) \<and>
      (\<forall>T0 T. ts = of_nat T0 \<and> millisW w n' = of_nat T \<and> T0 \<le> T \<longrightarrow>
         int T0 + sint d \<le> int T)) \<and>
   (0 \<le> sint d \<and>
    (\<forall>i<N. uint (millisW w (n + i) - ts) < sint d \<and> poll dd w (n + i) wb \<noteq> pressed) \<and>
    sint d \<le> uint (millisW w (n + N) - ts) \<longrightarrow>
      resetWait dd pressed wb w ts d n tr =
        Some (Timeout, n + N, tr @ map (\<lambda>i. ReadWhite (poll dd w (n + i) wb)) [0..<N])) \<and>
   (0 \<le> sint d \<and>
    (\<forall>i<N. uint (millisW w (n + i) - ts) < sint d \<and> poll dd w (n + i) wbm \<noteq> LOW) \<and>
    sint d \<le> uint (millisW w (n + N) - ts) \<longrightarrow>
      resetWait_menu dd wbm w ts d n tr =
        Some (Timeout, n + N, tr @ map (\<lambda>i. ReadWhite (poll dd w (n + i) wbm)) [0..<N])) \<and>
   (sint d < 0 \<and> resetWait dd pressed wb w ts d n tr = Some (ex, n', tr') \<longrightarrow>
      ex = ManualReset \<and> n < n' \<and> poll dd w (n' - 1) wb = pressed) \<and>
   (sint d < 0 \<and> resetWait_menu dd wbm w ts d n tr = Some (ex, n', tr') \<longrightarrow>
      ex = ManualReset \<and> (\<exists>m\<ge>n. m < n' \<and> poll dd w m wbm = LOW)) \<and>
   (sint d < 0 \<and> (\<forall>k\<ge>n. poll dd w k wb \<noteq> pressed) \<longrightarrow>
      resetWait dd pressed wb w ts d n tr = None) \<and>
   (sint d < 0 \<and> (\<forall>k\<ge>n. poll dd w k wbm \<noteq> LOW) \<longrightarrow>
      resetWait_menu dd wbm w ts d n tr = None)"
proof (intro conjI impI)
  assume h: "resetWait dd pressed wb w ts d n tr = Some (Timeout, n', tr') \<or>
    resetWait_menu dd wbm w ts d n tr = Some (Timeout, n', tr')"
  then have nc: "\<not> waitCond w ts d n'"
    using resetWait_exit_aux [of dd pressed wb w ts d n tr "(Timeout, n', tr')"]
      resetWait_menu_exit_aux [of dd wbm w ts d n tr "(Timeout, n', tr')"]
    by auto
  then show d0: "0 \<le> sint d" and el: "sint d \<le> uint (millisW w n' - ts)"
    by (simp_all add: waitCond_iff)
  show "\<forall>T0 T. ts = of_nat T0 \<and> millisW w n' = of_nat T \<and> T0 \<le> T \<longrightarrow>
         int T0 + sint d \<le> int T"
  proof (intro allI impI)
    fix T0 T
    assume t: "ts = of_nat T0 \<and> millisW w n' = of_nat T \<and> T0 \<le> T"
    then have "uint (millisW w n' - ts) \<le> int (T - T0)"
      using elapsed_le_true_time [of T0 T] by simp
    with el t show "int T0 + sint d \<le> int T"
      by linarith
  qed
next
  assume "0 \<le> sint d \<and>
    (\<forall>i<N. uint (millisW w (n + i) - ts) < sint d \<and> poll dd w (n + i) wb \<noteq> pressed) \<and>
    sint d \<le> uint (millisW w (n + N) - ts)"
  then show "resetWait dd pressed wb w ts d n tr =
        Some (Timeout, n + N, tr @ map (\<lambda>i. ReadWhite (poll dd w (n + i) wb)) [0..<N])"
    by (intro resetWait_timeout) (simp_all add: waitCond_iff)
next
  assume "0 \<le> sint d \<and>
    (\<forall>i<N. uint (millisW w (n + i) - ts) < sint d \<and> poll dd w (n + i) wbm \<noteq> LOW) \<and>
    sint d \<le> uint (millisW w (n + N) - ts)"
  then show "resetWait_menu dd wbm w ts d n tr =
        Some (Timeout, n + N, tr @ map (\<lambda>i. ReadWhite (poll dd w (n + i) wbm)) [0..<N])"
    by (intro resetWait_menu_timeout) (simp_all add: waitCond_iff)
next
  assume h: "sint d < 0 \<and> resetWait dd pressed wb w ts d n tr = Some (ex, n', tr')"
  then have c: "\<And>k. waitCond w ts d k"
    by (simp add: waitCond_iff)
  from h have e: "resetWait dd pressed wb w ts d n tr = Some (ex, n', tr')"
    by simp
  from resetWait_exit_aux [OF e] c show m: "ex = ManualReset"
    by (cases ex) simp_all
  from resetWait_exit_aux [OF e] m show "n < n'" "poll dd w (n' - 1) wb = pressed"
    by simp_all
next
  assume h: "sint d < 0 \<and> resetWait_menu dd wbm w ts d n tr = Some (ex, n', tr')"
  then have c: "\<And>k. waitCond w ts d k"
    by (simp add: waitCond_iff)
  from h have e: "resetWait_menu dd wbm w ts d n tr = Some (ex, n', tr')"
    by simp
  from resetWait_menu_exit_aux [OF e] c show m: "ex = ManualReset"
    by (cases ex) simp_all
  from resetWait_menu_exit_aux [OF e] m obtain k where "n \<le> k" "Suc k < n'" "poll dd w k wbm = LOW"
    by auto
  then have "n \<le> k \<and> k < n' \<and> poll dd w k wbm = LOW"
    by simp
  then show "\<exists>m\<ge>n. m < n' \<and> poll dd w m wbm = LOW"
    by blast
next
  assume "sint d < 0 \<and> (\<forall>k\<ge>n. poll dd w k wb \<noteq> pressed)"
  then show "resetWait dd pressed wb w ts d n tr = None"
    by (simp add: resetWait_diverges)
next
  assume "sint d < 0 \<and> (\<forall>k\<ge>n. poll dd w k wbm \<noteq> LOW)"
  then show "resetWait_menu dd wbm w ts d n tr = None"
    by (simp add: resetWait_menu_diverges)
qed

theorem timeout_not_before_deadline_witness:
  "resetWait debounceDelay_v1 HIGH whiteButton_v1 (world_demo (\<lambda>n pin. LOW)) 40000 3000 0 [] =
     Some (Timeout, 3, [ReadWhite LOW, ReadWhite LOW, ReadWhite LOW]) \<and>
   sint (3000 :: c_int) \<le> uint (millisW (world_demo (\<lambda>n pin. LOW)) 3 - 40000) \<and>
   int 40000 + sint (3000 :: c_int) \<le> int 43000 \<and>
   resetWait_menu debounceDelay_menu whiteButton_menu (world_demo (\<lambda>n pin. HIGH)) 40000 2000 0 [] =
     Some (Timeout, 2, [ReadWhite HIGH, ReadWhite HIGH]) \<and>
   resetWait debounceDelay_v1 HIGH whiteButton_v1
     (world_demo (\<lambda>n pin. if n < 2 then LOW else HIGH)) 40000 (- 1) 0 [] =
     Some (ManualReset, 3, [ReadWhite LOW, ReadWhite LOW, ReadWhite HIGH]) \<and>
   resetWait debounceDelay_v1 HIGH whiteButton_v1 (world_demo (\<lambda>n pin. LOW)) 40000 (- 1) 0 [] = None \<and>
   resetWait_menu debounceDelay_menu whiteButton_menu (world_demo (\<lambda>n pin. HIGH)) 40000 (- 1) 0 []
     = None"
proof -
  let ?w1 = "world_demo (\<lambda>n pin. LOW)"
  let ?w2 = "world_demo (\<lambda>n pin. HIGH)"
  let ?w3 = "world_demo (\<lambda>n pin. if n < 2 then LOW else HIGH)"
  note T = timeout_not_before_deadline
  have p1: "\<And>k. poll debounceDelay_v1 ?w1 k whiteButton_v1 = LOW"
    by (rule poll_demo_same) (simp_all add: whiteButton_v1_def mkButton_def)
  have p2: "\<And>k. poll debounceDelay_menu ?w2 k whiteButton_menu = HIGH"
    by (simp add: poll_demo readButtonState_changed whiteButton_menu_def mkButton_def)
  have p3: "poll debounceDelay_v1 ?w3 0 whiteButton_v1 = LOW"
    "poll debounceDelay_v1 ?w3 (Suc 0) whiteButton_v1 = LOW"
    "poll debounceDelay_v1 ?w3 2 whiteButton_v1 = HIGH"
    by (simp_all add: poll_demo cfg_defs rd_defs)
  have u: "[0..<3] = [0, Suc 0, 2]" "[0..<2] = [0, Suc 0]"
    by (simp_all add: upt_conv_Cons)
  have h1: "0 \<le> sint (3000 :: c_int) \<and>
      (\<forall>i<3. uint (millisW ?w1 (0 + i) - 40000) < sint (3000 :: c_int) \<and>
         poll debounceDelay_v1 ?w1 (0 + i) whiteButton_v1 \<noteq> HIGH) \<and>
      sint (3000 :: c_int) \<le> uint (millisW ?w1 (0 + 3) - 40000)"
    by (simp add: all_less_3 millisW_demo p1)
  have A: "resetWait debounceDelay_v1 HIGH whiteButton_v1 ?w1 40000 3000 0 [] =
     Some (Timeout, 3, [ReadWhite LOW, ReadWhite LOW, ReadWhite LOW])"
    using T [where dd = debounceDelay_v1 and pressed = HIGH and wb = whiteButton_v1
        and w = ?w1 and ts = 40000 and d = 3000 and n = 0 and tr = "[]" and N = 3,
        THEN conjunct2, THEN conjunct1, THEN mp, OF h1]
    by (simp add: p1 u del: upt_Suc)
  have A': "sint (3000 :: c_int) \<le> uint (millisW ?w1 3 - 40000) \<and>
      int 40000 + sint (3000 :: c_int) \<le> int 43000"
    using T [where dd = debounceDelay_v1 and pressed = HIGH and wb = whiteButton_v1
        and w = ?w1 and ts = 40000 and d = 3000 and n = 0 and tr = "[]" and n' = 3
        and tr' = "[ReadWhite LOW, ReadWhite LOW, ReadWhite LOW]",
        THEN conjunct1, THEN mp, OF disjI1, OF A]
    by (simp add: millisW_demo)
  have h2: "0 \<le> sint (2000 :: c_int) \<and>
      (\<forall>i<2. uint (millisW ?w2 (0 + i) - 40000) < sint (2000 :: c_int) \<and>
         poll debounceDelay_menu ?w2 (0 + i) whiteButton_menu \<noteq> LOW) \<and>
      sint (2000 :: c_int) \<le> uint (millisW ?w2 (0 + 2) - 40000)"
    by (simp add: all_less_2 millisW_demo p2)
  have B: "resetWait_menu debounceDelay_menu whiteButton_menu ?w2 40000 2000 0 [] =
     Some (Timeout, 2, [ReadWhite HIGH, ReadWhite HIGH])"
    using T [where dd = debounceDelay_menu and wbm = whiteButton_menu
        and w = ?w2 and ts = 40000 and d = 2000 and n = 0 and tr = "[]" and N = 2,
        THEN conjunct2, THEN conjunct2, THEN conjunct1, THEN mp, OF h2]
    by (simp add: p2 u del: upt_Suc)
  have h3: "\<forall>i<2. waitCond ?w3 40000 (- 1) (0 + i) \<and>
      poll debounceDelay_v1 ?w3 (0 + i) whiteButton_v1 \<noteq> HIGH"
    by (simp add: all_less_2 p3 waitCond_iff)
  have C: "resetWait debounceDelay_v1 HIGH whiteButton_v1 ?w3 40000 (- 1) 0 [] =
     Some (ManualReset, 3, [ReadWhite LOW, ReadWhite LOW, ReadWhite HIGH])"
    using resetWait_manual [OF h3, where tr = "[]"]
    by (simp add: p3 u waitCond_iff del: upt_Suc add_2_eq_Suc add_2_eq_Suc')
  have C': "ManualReset = ManualReset \<and> (0::nat) < 3 \<and>
      poll debounceDelay_v1 ?w3 (3 - 1) whiteButton_v1 = HIGH"
    using T [where dd = debounceDelay_v1 and pressed = HIGH and wb = whiteButton_v1
        and w = ?w3 and ts = 40000 and d = "- 1" and n = 0 and tr = "[]" and n' = 3
        and ex = ManualReset and tr' = "[ReadWhite LOW, ReadWhite LOW, ReadWhite HIGH]",
        THEN conjunct2, THEN conjunct2, THEN conjunct2, THEN conjunct1, THEN mp]
      C
    by simp
  have D: "resetWait debounceDelay_v1 HIGH whiteButton_v1 ?w1 40000 (- 1) 0 [] = None"
    using T [where dd = debounceDelay_v1 and pressed = HIGH and wb = whiteButton_v1
        and w = ?w1 and ts = 40000 and d = "- 1" and n = 0 and tr = "[]",
        THEN conjunct2, THEN conjunct2, THEN conjunct2, THEN conjunct2, THEN conjunct2,
        THEN conjunct1, THEN mp]
    by (simp add: p1)
  have E: "resetWait_menu debounceDelay_menu whiteButton_menu ?w2 40000 (- 1) 0 [] = None"
    using T [where dd = debounceDelay_menu and wbm = whiteButton_menu
        and w = ?w2 and ts = 40000 and d = "- 1" and n = 0 and tr = "[]",
        THEN conjunct2, THEN conjunct2, THEN conjunct2, THEN conjunct2, THEN conjunct2,
        THEN conjunct2, THEN mp]
    by (simp add: p2)
  from A A' B C D E show ?thesis
    by blast
qed

section \<open>The green LED\<close>

lemma ledOK_append:
  "ledOK g lv (xs @ ys) \<longleftrightarrow> ledOK g lv xs \<and> ledOK g (ledLevel g lv xs) ys"
  by (induction g lv xs rule: ledOK.induct) auto

lemma ledLevel_append:
  "ledLevel g lv (xs @ ys) = ledLevel g (ledLevel g lv xs) ys"
  by (induction g lv xs rule: ledLevel.induct) auto

lemma greenWrites_append:
  "greenWrites g (xs @ ys) = greenWrites g xs @ greenWrites g ys"
  by (induction g xs rule: greenWrites.induct) auto

lemma buzzer_reads_led:
  assumes "\<forall>e\<in>set es. isReadBuzzer e"
  shows "ledOK g HIGH es" "ledLevel g lv es = lv" "greenWrites g es = []"
  using assms
proof (induction es)
  case Nil
  {
    case 1 show ?case by simp
  next
    case 2 show ?case by simp
  next
    case 3 show ?case by simp
  }
next
  case (Cons e es)
  {
    case 1 with Cons show ?case by (cases e) simp_all
  next
    case 2 with Cons show ?case by (cases e) simp_all
  next
    case 3 with Cons show ?case by (cases e) simp_all
  }
qed

lemma white_reads_led:
  assumes "\<forall>e\<in>set es. \<exists>r. e = ReadWhite r"
  shows "ledOK g LOW es" "ledLevel g lv es = lv" "greenWrites g es = []"
  using assms
proof (induction es)
  case Nil
  {
    case 1 show ?case by simp
  next
    case 2 show ?case by simp
  next
    case 3 show ?case by simp
  }
next
  case (Cons e es)
  {
    case 1 with Cons show ?case by (cases e) simp_all
  next
    case 2 with Cons show ?case by (cases e) simp_all
  next
    case 3 with Cons show ?case by (cases e) simp_all
  }
qed

lemma firstHit_events:
  "firstHit dd pressed bz w xs n tr = (win, n', tr') \<Longrightarrow>
   \<exists>new. tr' = tr @ new \<and> (\<forall>e\<in>set new. isReadBuzzer e) \<and>
     (\<forall>x. win = Some x \<longrightarrow> x \<in> set xs)"
proof (induction xs arbitrary: n tr)
  case Nil
  then show ?case by simp
next
  case (Cons x xs)
  obtain team player where x: "x = (team, player)"
    by (cases x) auto
  let ?r = "poll dd w n (bz ! team ! player)"
  show ?case
  proof (cases "?r = pressed")
    case True
    with Cons.prems have "tr' = tr @ [ReadBuzzer team player ?r]" "win = Some (team, player)"
      by (simp_all add: x Let_def)
    then have "tr' = tr @ [ReadBuzzer team player ?r] \<and>
        (\<forall>e\<in>set [ReadBuzzer team player ?r]. isReadBuzzer e) \<and>
        (\<forall>y. win = Some y \<longrightarrow> y \<in> set (x # xs))"
      by (simp add: x)
    then show ?thesis
      by blast
  next
    case False
    with Cons.prems have "firstHit dd pressed bz w xs (Suc n) (tr @ [ReadBuzzer team player ?r])
        = (win, n', tr')"
      by (simp add: x Let_def)
    from Cons.IH [OF this] obtain new where
      new: "tr' = (tr @ [ReadBuzzer team player ?r]) @ new" "\<forall>e\<in>set new. isReadBuzzer e"
        "\<forall>y. win = Some y \<longrightarrow> y \<in> set xs"
      by blast
    then have "tr' = tr @ (ReadBuzzer team player ?r # new) \<and>
        (\<forall>e\<in>set (ReadBuzzer team player ?r # new). isReadBuzzer e) \<and>
        (\<forall>y. win = Some y \<longrightarrow> y \<in> set (x # xs))"
      by simp
    then show ?thesis
      by blast
  qed
qed

lemma resetWait_events_aux:
  assumes "resetWait dd pressed wb w ts d n tr = Some y"
  shows "\<exists>new. snd (snd y) = tr @ new \<and> (\<forall>e\<in>set new. \<exists>r. e = ReadWhite r)"
proof (rule resetWait.raw_induct
    [where P = "\<lambda>dd pressed wb w ts d n tr y.
         \<exists>new. snd (snd y) = tr @ new \<and> (\<forall>e\<in>set new. \<exists>r. e = ReadWhite r)",
      OF _ assms])
  fix loop :: "c_ulong \<Rightarrow> c_int \<Rightarrow> 'a Button_scheme \<Rightarrow> world \<Rightarrow> c_ulong \<Rightarrow> c_int \<Rightarrow>
      nat \<Rightarrow> event list \<Rightarrow> (exit \<times> nat \<times> event list) option"
  fix dd pressed wb w ts d n tr y
  assume IH: "\<And>dd pressed wb w ts d n tr y. loop dd pressed wb w ts d n tr = Some y \<Longrightarrow>
         \<exists>new. snd (snd y) = tr @ new \<and> (\<forall>e\<in>set new. \<exists>r. e = ReadWhite r)"
  assume body: "(if waitCond w ts d n
      then let r = poll dd w n wb; tr1 = tr @ [ReadWhite r]
           in if r = pressed then Some (ManualReset, Suc n, tr1)
              else loop dd pressed wb w ts d (Suc n) tr1
      else Some (Timeout, n, tr)) = Some y"
  show "\<exists>new. snd (snd y) = tr @ new \<and> (\<forall>e\<in>set new. \<exists>r. e = ReadWhite r)"
  proof (cases "waitCond w ts d n")
    case False
    with body have "snd (snd y) = tr @ []"
      by auto
    then show ?thesis
      by fastforce
  next
    case c: True
    show ?thesis
    proof (cases "poll dd w n wb = pressed")
      case True
      with c body have "snd (snd y) = tr @ [ReadWhite (poll dd w n wb)]"
        by (auto simp: Let_def)
      then show ?thesis
        by fastforce
    next
      case False
      with c body have "loop dd pressed wb w ts d (Suc n) (tr @ [ReadWhite (poll dd w n wb)]) = Some y"
        by (simp add: Let_def)
      from IH [OF this] obtain new where
        "snd (snd y) = (tr @ [ReadWhite (poll dd w n wb)]) @ new"
        "\<forall>e\<in>set new. \<exists>r. e = ReadWhite r"
        by blast
      then have "snd (snd y) = tr @ (ReadWhite (poll dd w n wb) # new) \<and>
          (\<forall>e\<in>set (ReadWhite (poll dd w n wb) # new). \<exists>r. e = ReadWhite r)"
        by simp
      then show ?thesis
        by blast
    qed
  qed
qed

lemma set_scanOrder:
  "(team, player) \<in> set scanOrder \<longleftrightarrow> team < numTeams \<and> player < numPlayers"
  by (auto simp: scanOrder_def image_iff)

lemma loop_pot_events:
  assumes leds: "\<forall>team<numTeams. \<forall>player<numPlayers. pinLED (bz ! team ! player) \<noteq> g"
    and run: "loop_pot dd pressed bz wb g w n tr = Some (n', tr')"
  shows "\<exists>new. tr' = tr @ new \<and> ledOK g HIGH new \<and> ledLevel g HIGH new = HIGH \<and>
     (greenWrites g new = [] \<or> greenWrites g new = [LOW, HIGH])"
proof -
  obtain win n1 tr1 where sc: "scanTeams dd pressed bz w 0 n tr = (win, n1, tr1)"
    by (cases "scanTeams dd pressed bz w 0 n tr") auto
  then have "firstHit dd pressed bz w scanOrder n tr = (win, n1, tr1)"
    by (simp only: scanTeams_firstHit scanOrder_def)
  from firstHit_events [OF this] obtain sev where
    sev: "tr1 = tr @ sev" "\<forall>e\<in>set sev. isReadBuzzer e" "\<forall>x. win = Some x \<longrightarrow> x \<in> set scanOrder"
    by blast
  note sl = buzzer_reads_led [OF sev(2)]
  show ?thesis
  proof (cases win)
    case None
    with run sc have "tr' = tr1"
      by (simp add: loop_pot_def)
    with sev sl have "tr' = tr @ sev \<and> ledOK g HIGH sev \<and> ledLevel g HIGH sev = HIGH \<and>
        (greenWrites g sev = [] \<or> greenWrites g sev = [LOW, HIGH])"
      by simp
    then show ?thesis
      by blast
  next
    case (Some x)
    obtain team player where x: "x = (team, player)"
      by (cases x) auto
    with Some sev(3) have "team < numTeams" "player < numPlayers"
      by (simp_all add: set_scanOrder)
    with leds have led: "pinLED (bz ! team ! player) \<noteq> g"
      by simp
    let ?on = "[DigitalWrite g LOW, DigitalWrite (pinLED (bz ! team ! player)) HIGH]"
    let ?off = "[DigitalWrite g HIGH, DigitalWrite (pinLED (bz ! team ! player)) LOW]"
    from run sc Some x obtain ex n2 tr3 where
      rw: "resetWait dd pressed wb w (millisT w n1) (potDelayReset (analogRead w n1)) n1
             (tr1 @ ?on) = Some (ex, n2, tr3)"
      and out: "tr' = tr3 @ ?off"
      by (auto simp: loop_pot_def Let_def split: option.splits)
    from resetWait_events_aux [OF rw] obtain wev where
      wev: "tr3 = (tr1 @ ?on) @ wev" "\<forall>e\<in>set wev. \<exists>r. e = ReadWhite r"
      by auto
    note wl = white_reads_led [OF wev(2)]
    have "tr' = tr @ (sev @ ?on @ wev @ ?off)"
      using out wev(1) sev(1) by simp
    moreover have "ledOK g HIGH (sev @ ?on @ wev @ ?off)"
      using led sl wl by (simp add: ledOK_append ledLevel_append)
    moreover have "ledLevel g HIGH (sev @ ?on @ wev @ ?off) = HIGH"
      using led sl wl by (simp add: ledLevel_append)
    moreover have "greenWrites g (sev @ ?on @ wev @ ?off) = [LOW, HIGH]"
      using led sl wl by (simp add: greenWrites_append)
    ultimately show ?thesis
      by blast
  qed
qed

lemma passes_pot_events:
  assumes leds: "\<forall>team<numTeams. \<forall>player<numPlayers. pinLED (bz ! team ! player) \<noteq> g"
  shows "passes_pot k dd pressed bz wb g w n tr = Some (n', tr') \<Longrightarrow>
     \<exists>new. tr' = tr @ new \<and> ledOK g HIGH new \<and> ledLevel g HIGH new = HIGH"
proof (induction k arbitrary: n tr)
  case 0
  then show ?case by simp
next
  case (Suc k)
  from Suc.prems obtain n1 tr1 where
    one: "loop_pot dd pressed bz wb g w n tr = Some (n1, tr1)"
    and rest: "passes_pot k dd pressed bz wb g w n1 tr1 = Some (n', tr')"
    by (auto split: option.splits)
  from loop_pot_events [OF leds one] obtain a where
    a: "tr1 = tr @ a" "ledOK g HIGH a" "ledLevel g HIGH a = HIGH"
    by blast
  from Suc.IH [OF rest] obtain b where
    b: "tr' = tr1 @ b" "ledOK g HIGH b" "ledLevel g HIGH b = HIGH"
    by blast
  from a b have "tr' = tr @ (a @ b) \<and> ledOK g HIGH (a @ b) \<and> ledLevel g HIGH (a @ b) = HIGH"
    by (simp add: ledOK_append ledLevel_append)
  then show ?case
    by blast
qed

lemma other_writes_led:
  assumes "\<forall>e\<in>set es. \<exists>pin x. e = DigitalWrite pin x \<and> pin \<noteq> g"
  shows "ledOK g lv es" "ledLevel g lv es = lv" "greenWrites g es = []"
  using assms
proof (induction es)
  case Nil
  {
    case 1 show ?case by simp
  next
    case 2 show ?case by simp
  next
    case 3 show ?case by simp
  }
next
  case (Cons e es)
  {
    case 1 with Cons show ?case by (cases e) auto
  next
    case 2 with Cons show ?case by (cases e) auto
  next
    case 3 with Cons show ?case by (cases e) auto
  }
qed

lemma setup_sketch_events:
  assumes leds: "\<forall>team<numTeams. \<forall>player<numPlayers. pinLED (bz ! team ! player) \<noteq> pinLED wb"
  shows "fst (setup_sketch bz wb) = pinLED wb"
    and "\<exists>pre. snd (setup_sketch bz wb) = pre @ [DigitalWrite (pinLED wb) HIGH] \<and>
           greenWrites (pinLED wb) pre = []"
    and "ledOK (pinLED wb) lv0 (snd (setup_sketch bz wb))"
    and "ledLevel (pinLED wb) lv0 (snd (setup_sketch bz wb)) = HIGH"
proof -
  let ?pre = "concat (map (\<lambda>team. map (\<lambda>player.
                  DigitalWrite (pinLED (bz ! team ! player)) LOW) [0..<numPlayers])
                [0..<numTeams])"
  have s: "setup_sketch bz wb = (pinLED wb, ?pre @ [DigitalWrite (pinLED wb) HIGH])"
    by (simp add: setup_sketch_def Let_def)
  have "\<forall>e\<in>set ?pre. \<exists>pin x. e = DigitalWrite pin x \<and> pin \<noteq> pinLED wb"
    using leds by auto
  note pl = other_writes_led [OF this]
  show "fst (setup_sketch bz wb) = pinLED wb"
    by (simp add: s)
  have "snd (setup_sketch bz wb) = ?pre @ [DigitalWrite (pinLED wb) HIGH] \<and>
           greenWrites (pinLED wb) ?pre = []"
    using pl by (simp add: s)
  then show "\<exists>pre. snd (setup_sketch bz wb) = pre @ [DigitalWrite (pinLED wb) HIGH] \<and>
           greenWrites (pinLED wb) pre = []"
    by blast
  show "ledOK (pinLED wb) lv0 (snd (setup_sketch bz wb))"
    using pl by (simp add: s ledOK_append)
  show "ledLevel (pinLED wb) lv0 (snd (setup_sketch bz wb)) = HIGH"
    using pl by (simp add: s ledLevel_append)
qed

lemma all_less_4: "(\<forall>i<4. P i) \<longleftrightarrow> P (0::nat) \<and> P 1 \<and> P 2 \<and> P 3"
proof
  assume "\<forall>i<4. P i"
  then show "P 0 \<and> P 1 \<and> P 2 \<and> P 3"
    by simp
next
  assume h: "P 0 \<and> P 1 \<and> P 2 \<and> P 3"
  show "\<forall>i<4. P i"
  proof (intro allI impI)
    fix i :: nat
    assume "i < 4"
    then have "i = 0 \<or> i = 1 \<or> i = 2 \<or> i = 3"
      by arith
    with h show "P i"
      by blast
  qed
qed

lemma loop_pot_buzz:
  assumes "scanTeams dd pressed bz w 0 n tr = (Some (team, player), n1, tr1)"
    and "resetWait dd pressed wb w (millisT w n1) (potDelayReset (analogRead w n1)) n1
           (tr1 @ [DigitalWrite g LOW, DigitalWrite (pinLED (bz ! team ! player)) HIGH])
         = Some (ex, n2, tr3)"
  shows "loop_pot dd pressed bz wb g w n tr =
     Some (n2, tr3 @ [DigitalWrite g HIGH, DigitalWrite (pinLED (bz ! team ! player)) LOW])"
  by (simp add: loop_pot_def assms Let_def)

lemma leds_v1:
  "\<forall>team<numTeams. \<forall>player<numPlayers.
     pinLED (buzzers_v1 ! team ! player) \<noteq> pinLED whiteButton_v1"
  by (simp add: numTeams_def numPlayers_def all_less_2 all_less_4 buzzers_v1_def
      whiteButton_v1_def mkButton_def)

lemma demo_reads: "millisT (world_demo rd) n = 40000 + 1000 * of_nat n"
  "analogRead (world_demo rd) n = 600"
  by (simp_all add: world_demo_def)

lemma potDelayReset_600: "potDelayReset 600 = 3000"
  by (simp add: potDelayReset_def delayResetMax_def int_of_ulong_def ulong_of_int_def)

lemma scan_v1_first:
  assumes "poll debounceDelay_v1 w n (buzzers_v1 ! 0 ! 0) = HIGH"
  shows "scanTeams debounceDelay_v1 HIGH buzzers_v1 w 0 n tr =
     (Some (0, 0), Suc n, tr @ [ReadBuzzer 0 0 HIGH])"
proof -
  have "firstHit debounceDelay_v1 HIGH buzzers_v1 w scanOrder n tr =
     (Some (scanOrder ! 0), Suc (n + 0),
      tr @ map (\<lambda>j. ReadBuzzer (fst (scanOrder ! j)) (snd (scanOrder ! j))
                  (poll debounceDelay_v1 w (n + j)
                     (buzzers_v1 ! fst (scanOrder ! j) ! snd (scanOrder ! j)))) [0..<Suc 0])"
    using assms by (intro firstHit_first_pressed) (simp_all add: scanOrder_eq)
  then show ?thesis
    using assms by (simp add: scanTeams_firstHit scanOrder_def [symmetric] scanOrder_eq)
qed

subsection \<open>The potentiometer revisions stopped after a number of calls\<close>

lemma resetWait_upto_events:
  "\<exists>new. events (resetWait_upto K dd pressed wb w ts d n tr) = tr @ new \<and>
     (\<forall>e\<in>set new. \<exists>r. e = ReadWhite r)"
proof (induction K dd pressed wb w ts d n tr rule: resetWait_upto.induct)
  case (1 K dd pressed wb w ts d n tr)
  let ?r = "poll dd w n wb"
  show ?case
  proof (cases "waitCond w ts d n \<and> \<not> K \<le> n \<and> ?r \<noteq> pressed")
    case True
    then have eq: "resetWait_upto K dd pressed wb w ts d n tr =
        resetWait_upto K dd pressed wb w ts d (Suc n) (tr @ [ReadWhite ?r])"
      by (subst resetWait_upto.simps) (simp add: Let_def)
    from True have c: "waitCond w ts d n" "\<not> K \<le> n" "?r \<noteq> pressed"
      by simp_all
    have "\<exists>new. events (resetWait_upto K dd pressed wb w ts d (Suc n)
          (tr @ [ReadWhite ?r])) = (tr @ [ReadWhite ?r]) @ new \<and>
        (\<forall>e\<in>set new. \<exists>r. e = ReadWhite r)"
      by (rule 1 [OF c(1,2) refl refl c(3)])
    then obtain new where
      "events (resetWait_upto K dd pressed wb w ts d (Suc n) (tr @ [ReadWhite ?r])) =
         (tr @ [ReadWhite ?r]) @ new" "\<forall>e\<in>set new. \<exists>r. e = ReadWhite r"
      by blast
    then have "events (resetWait_upto K dd pressed wb w ts d n tr) = tr @ (ReadWhite ?r # new) \<and>
        (\<forall>e\<in>set (ReadWhite ?r # new). \<exists>r. e = ReadWhite r)"
      by (simp add: eq)
    then show ?thesis
      by blast
  next
    case False
    then have "resetWait_upto K dd pressed wb w ts d n tr = Running InWait tr \<or>
        resetWait_upto K dd pressed wb w ts d n tr = Done (ManualReset, Suc n) (tr @ [ReadWhite ?r]) \<or>
        resetWait_upto K dd pressed wb w ts d n tr = Done (Timeout, n) tr"
      by (subst (1 2 3) resetWait_upto.simps) (auto simp: Let_def)
    then show ?thesis
      by (elim disjE) simp_all
  qed
qed

lemma resetWait_upto_phase:
  "resetWait_upto K dd pressed wb w ts d n tr \<noteq> Running InMenu t"
proof (induction K dd pressed wb w ts d n tr rule: resetWait_upto.induct)
  case (1 K dd pressed wb w ts d n tr)
  then show ?case
    by (subst resetWait_upto.simps) (simp add: Let_def)
qed

lemma resetWait_upto_sound:
  "resetWait_upto K dd pressed wb w ts d n tr = Done (ex, n') tr' \<Longrightarrow>
   resetWait dd pressed wb w ts d n tr = Some (ex, n', tr')"
proof (induction K dd pressed wb w ts d n tr rule: resetWait_upto.induct)
  case (1 K dd pressed wb w ts d n tr)
  let ?r = "poll dd w n wb"
  show ?case
  proof (cases "waitCond w ts d n \<and> \<not> K \<le> n \<and> ?r \<noteq> pressed")
    case True
    then have "resetWait_upto K dd pressed wb w ts d n tr =
        resetWait_upto K dd pressed wb w ts d (Suc n) (tr @ [ReadWhite ?r])"
      by (subst resetWait_upto.simps) (simp add: Let_def)
    with "1.prems" have u: "resetWait_upto K dd pressed wb w ts d (Suc n) (tr @ [ReadWhite ?r]) =
        Done (ex, n') tr'"
      by simp
    from True have c: "waitCond w ts d n" "\<not> K \<le> n" "?r \<noteq> pressed"
      by simp_all
    have "resetWait dd pressed wb w ts d (Suc n) (tr @ [ReadWhite ?r]) =
        Some (ex, n', tr')"
      by (rule "1.IH" [OF c(1,2) refl refl c(3) u])
    with True show ?thesis
      by (subst resetWait.simps) (simp add: Let_def)
  next
    case False
    with "1.prems" show ?thesis
      by (subst resetWait.simps, subst (asm) resetWait_upto.simps)
        (auto simp: Let_def split: if_splits)
  qed
qed

lemma resetWait_upto_complete_aux:
  assumes "resetWait dd pressed wb w ts d n tr = Some y"
  shows "\<exists>K0. \<forall>K\<ge>K0. resetWait_upto K dd pressed wb w ts d n tr =
     Done (fst y, fst (snd y)) (snd (snd y))"
proof (rule resetWait.raw_induct
    [where P = "\<lambda>dd pressed wb w ts d n tr y.
         \<exists>K0. \<forall>K\<ge>K0. resetWait_upto K dd pressed wb w ts d n tr =
           Done (fst y, fst (snd y)) (snd (snd y))",
      OF _ assms])
  fix loop :: "c_ulong \<Rightarrow> c_int \<Rightarrow> 'a Button_scheme \<Rightarrow> world \<Rightarrow> c_ulong \<Rightarrow> c_int \<Rightarrow>
      nat \<Rightarrow> event list \<Rightarrow> (exit \<times> nat \<times> event list) option"
  fix dd pressed wb w ts d n tr y
  assume IH: "\<And>dd pressed wb w ts d n tr y. loop dd pressed wb w ts d n tr = Some y \<Longrightarrow>
         \<exists>K0. \<forall>K\<ge>K0. resetWait_upto K dd pressed wb w ts d n tr =
           Done (fst y, fst (snd y)) (snd (snd y))"
  assume body: "(if waitCond w ts d n
      then let r = poll dd w n wb; tr1 = tr @ [ReadWhite r]
           in if r = pressed then Some (ManualReset, Suc n, tr1)
              else loop dd pressed wb w ts d (Suc n) tr1
      else Some (Timeout, n, tr)) = Some y"
  let ?r = "poll dd w n wb"
  show "\<exists>K0. \<forall>K\<ge>K0. resetWait_upto K dd pressed wb w ts d n tr =
           Done (fst y, fst (snd y)) (snd (snd y))"
  proof (cases "waitCond w ts d n")
    case False
    with body have y: "y = (Timeout, n, tr)"
      by auto
    from False have "\<forall>K\<ge>0. resetWait_upto K dd pressed wb w ts d n tr =
           Done (fst y, fst (snd y)) (snd (snd y))"
      by (subst resetWait_upto.simps) (simp add: y)
    then show ?thesis
      by blast
  next
    case c: True
    show ?thesis
    proof (cases "?r = pressed")
      case True
      with c body have y: "y = (ManualReset, Suc n, tr @ [ReadWhite ?r])"
        by (auto simp: Let_def)
      from c True have "\<forall>K\<ge>Suc n. resetWait_upto K dd pressed wb w ts d n tr =
           Done (fst y, fst (snd y)) (snd (snd y))"
        by (subst resetWait_upto.simps) (simp add: y Let_def)
      then show ?thesis
        by blast
    next
      case False
      with c body have "loop dd pressed wb w ts d (Suc n) (tr @ [ReadWhite ?r]) = Some y"
        by (simp add: Let_def)
      from IH [OF this] obtain K0 where
        K0: "\<forall>K\<ge>K0. resetWait_upto K dd pressed wb w ts d (Suc n) (tr @ [ReadWhite ?r]) =
           Done (fst y, fst (snd y)) (snd (snd y))"
        by blast
      have "\<forall>K\<ge>max K0 (Suc n). resetWait_upto K dd pressed wb w ts d n tr =
           Done (fst y, fst (snd y)) (snd (snd y))"
      proof (intro allI impI)
        fix K
        assume "max K0 (Suc n) \<le> K"
        then have "K0 \<le> K" "\<not> K \<le> n"
          by simp_all
        with c False K0 show "resetWait_upto K dd pressed wb w ts d n tr =
           Done (fst y, fst (snd y)) (snd (snd y))"
          by (subst resetWait_upto.simps) (simp add: Let_def)
      qed
      then show ?thesis
        by blast
    qed
  qed
qed

lemma resetWait_upto_complete:
  "resetWait dd pressed wb w ts d n tr = Some (ex, n', tr') \<Longrightarrow>
   \<exists>K0. \<forall>K\<ge>K0. resetWait_upto K dd pressed wb w ts d n tr = Done (ex, n') tr'"
  using resetWait_upto_complete_aux [of dd pressed wb w ts d n tr "(ex, n', tr')"] by simp

lemma loop_pot_upto_sound:
  assumes "loop_pot_upto K dd pressed bz wb g w n tr = Done n' tr'"
  shows "loop_pot dd pressed bz wb g w n tr = Some (n', tr')"
proof -
  obtain win n1 tr1 where sc: "scanTeams dd pressed bz w 0 n tr = (win, n1, tr1)"
    by (cases "scanTeams dd pressed bz w 0 n tr") auto
  show ?thesis
  proof (cases win)
    case None
    with assms sc show ?thesis
      by (simp add: loop_pot_upto_def loop_pot_def)
  next
    case (Some x)
    obtain team player where x: "x = (team, player)"
      by (cases x) auto
    let ?on = "[DigitalWrite g LOW, DigitalWrite (pinLED (bz ! team ! player)) HIGH]"
    let ?off = "[DigitalWrite g HIGH, DigitalWrite (pinLED (bz ! team ! player)) LOW]"
    from assms sc Some x obtain ex tr3 where
      "resetWait_upto K dd pressed wb w (millisT w n1) (potDelayReset (analogRead w n1)) n1
         (tr1 @ ?on) = Done (ex, n') tr3" and out: "tr' = tr3 @ ?off"
      by (auto simp: loop_pot_upto_def Let_def split: progress.splits)
    from resetWait_upto_sound [OF this(1)] out sc Some x show ?thesis
      by (simp add: loop_pot_def Let_def)
  qed
qed

lemma loop_pot_upto_complete:
  assumes "loop_pot dd pressed bz wb g w n tr = Some (n', tr')"
  shows "\<exists>K0. \<forall>K\<ge>K0. loop_pot_upto K dd pressed bz wb g w n tr = Done n' tr'"
proof -
  obtain win n1 tr1 where sc: "scanTeams dd pressed bz w 0 n tr = (win, n1, tr1)"
    by (cases "scanTeams dd pressed bz w 0 n tr") auto
  show ?thesis
  proof (cases win)
    case None
    with assms sc show ?thesis
      by (simp add: loop_pot_upto_def loop_pot_def)
  next
    case (Some x)
    obtain team player where x: "x = (team, player)"
      by (cases x) auto
    let ?on = "[DigitalWrite g LOW, DigitalWrite (pinLED (bz ! team ! player)) HIGH]"
    let ?off = "[DigitalWrite g HIGH, DigitalWrite (pinLED (bz ! team ! player)) LOW]"
    from assms sc Some x obtain ex tr3 where
      "resetWait dd pressed wb w (millisT w n1) (potDelayReset (analogRead w n1)) n1
         (tr1 @ ?on) = Some (ex, n', tr3)" and out: "tr' = tr3 @ ?off"
      by (auto simp: loop_pot_def Let_def split: option.splits)
    from resetWait_upto_complete [OF this(1)] obtain K0 where
      "\<forall>K\<ge>K0. resetWait_upto K dd pressed wb w (millisT w n1)
          (potDelayReset (analogRead w n1)) n1 (tr1 @ ?on) = Done (ex, n') tr3"
      by blast
    with out sc Some x have "\<forall>K\<ge>K0. loop_pot_upto K dd pressed bz wb g w n tr = Done n' tr'"
      by (simp add: loop_pot_upto_def Let_def)
    then show ?thesis
      by blast
  qed
qed

lemma loop_pot_upto_led:
  assumes leds: "\<forall>team<numTeams. \<forall>player<numPlayers. pinLED (bz ! team ! player) \<noteq> g"
  shows "\<exists>new. events (loop_pot_upto K dd pressed bz wb g w n tr) = tr @ new \<and>
     ledOK g HIGH new \<and>
     ledLevel g HIGH new = ledWanted (loop_pot_upto K dd pressed bz wb g w n tr) \<and>
     writesOK (loop_pot_upto K dd pressed bz wb g w n tr) (greenWrites g new)"
proof -
  obtain win n1 tr1 where sc: "scanTeams dd pressed bz w 0 n tr = (win, n1, tr1)"
    by (cases "scanTeams dd pressed bz w 0 n tr") auto
  then have "firstHit dd pressed bz w scanOrder n tr = (win, n1, tr1)"
    by (simp only: scanTeams_firstHit scanOrder_def)
  from firstHit_events [OF this] obtain sev where
    sev: "tr1 = tr @ sev" "\<forall>e\<in>set sev. isReadBuzzer e" "\<forall>x. win = Some x \<longrightarrow> x \<in> set scanOrder"
    by blast
  note sl = buzzer_reads_led [OF sev(2)]
  let ?X = "loop_pot_upto K dd pressed bz wb g w n tr"
  show ?thesis
  proof (cases win)
    case None
    with sc have X: "?X = Done n1 tr1"
      by (simp add: loop_pot_upto_def)
    with sev sl have "events ?X = tr @ sev \<and> ledOK g HIGH sev \<and>
        ledLevel g HIGH sev = ledWanted ?X \<and> writesOK ?X (greenWrites g sev)"
      by simp
    then show ?thesis
      by blast
  next
    case (Some x)
    obtain team player where x: "x = (team, player)"
      by (cases x) auto
    with Some sev(3) have "team < numTeams" "player < numPlayers"
      by (simp_all add: set_scanOrder)
    with leds have led: "pinLED (bz ! team ! player) \<noteq> g"
      by simp
    let ?on = "[DigitalWrite g LOW, DigitalWrite (pinLED (bz ! team ! player)) HIGH]"
    let ?off = "[DigitalWrite g HIGH, DigitalWrite (pinLED (bz ! team ! player)) LOW]"
    let ?W = "resetWait_upto K dd pressed wb w (millisT w n1) (potDelayReset (analogRead w n1))
        n1 (tr1 @ ?on)"
    from resetWait_upto_events [of K dd pressed wb w "millisT w n1"
        "potDelayReset (analogRead w n1)" n1 "tr1 @ ?on"] obtain wev where
      wev: "events ?W = (tr1 @ ?on) @ wev" "\<forall>e\<in>set wev. \<exists>r. e = ReadWhite r"
      by blast
    note wl = white_reads_led [OF wev(2)]
    show ?thesis
    proof (cases ?W)
      case (Running ph tr3)
      with resetWait_upto_phase [of K dd pressed wb w "millisT w n1"
          "potDelayReset (analogRead w n1)" n1 "tr1 @ ?on" tr3] have ph: "ph = InWait"
        by (cases ph) simp_all
      from Running sc Some x ph have X: "?X = Running InWait tr3"
        by (simp add: loop_pot_upto_def Let_def)
      from Running wev(1) sev(1) have "tr3 = tr @ (sev @ ?on @ wev)"
        by simp
      moreover have "ledOK g HIGH (sev @ ?on @ wev)"
        using led sl wl by (simp add: ledOK_append ledLevel_append)
      moreover have "ledLevel g HIGH (sev @ ?on @ wev) = LOW"
        using led sl wl by (simp add: ledLevel_append)
      moreover have "greenWrites g (sev @ ?on @ wev) = [LOW]"
        using led sl wl by (simp add: greenWrites_append)
      ultimately have "events ?X = tr @ (sev @ ?on @ wev) \<and> ledOK g HIGH (sev @ ?on @ wev) \<and>
          ledLevel g HIGH (sev @ ?on @ wev) = ledWanted ?X \<and>
          writesOK ?X (greenWrites g (sev @ ?on @ wev))"
        by (simp add: X)
      then show ?thesis
        by blast
    next
      case (Done r tr3)
      obtain ex n2 where r: "r = (ex, n2)"
        by (cases r) auto
      from Done r sc Some x have X: "?X = Done n2 (tr3 @ ?off)"
        by (simp add: loop_pot_upto_def Let_def)
      from Done wev(1) sev(1) have "tr3 @ ?off = tr @ (sev @ ?on @ wev @ ?off)"
        by simp
      moreover have "ledOK g HIGH (sev @ ?on @ wev @ ?off)"
        using led sl wl by (simp add: ledOK_append ledLevel_append)
      moreover have "ledLevel g HIGH (sev @ ?on @ wev @ ?off) = HIGH"
        using led sl wl by (simp add: ledLevel_append)
      moreover have "greenWrites g (sev @ ?on @ wev @ ?off) = [LOW, HIGH]"
        using led sl wl by (simp add: greenWrites_append)
      ultimately have "events ?X = tr @ (sev @ ?on @ wev @ ?off) \<and>
          ledOK g HIGH (sev @ ?on @ wev @ ?off) \<and>
          ledLevel g HIGH (sev @ ?on @ wev @ ?off) = ledWanted ?X \<and>
          writesOK ?X (greenWrites g (sev @ ?on @ wev @ ?off))"
        by (simp add: X)
      then show ?thesis
        by blast
    qed
  qed
qed

lemma passes_pot_upto_led:
  assumes leds: "\<forall>team<numTeams. \<forall>player<numPlayers. pinLED (bz ! team ! player) \<noteq> g"
  shows "\<exists>new. events (passes_pot_upto k K dd pressed bz wb g w n tr) = tr @ new \<and>
     ledOK g HIGH new \<and>
     ledLevel g HIGH new = ledWanted (passes_pot_upto k K dd pressed bz wb g w n tr)"
proof (induction k arbitrary: n tr)
  case 0
  then show ?case by simp
next
  case (Suc k)
  let ?X = "loop_pot_upto K dd pressed bz wb g w n tr"
  from loop_pot_upto_led [OF leds, where K = K and dd = dd and pressed = pressed
      and wb = wb and w = w and n = n and tr = tr] obtain a where
    a: "events ?X = tr @ a" "ledOK g HIGH a" "ledLevel g HIGH a = ledWanted ?X"
    by blast
  show ?case
  proof (cases ?X)
    case (Running ph tr3)
    with a have "events (passes_pot_upto (Suc k) K dd pressed bz wb g w n tr) = tr @ a \<and>
        ledOK g HIGH a \<and>
        ledLevel g HIGH a = ledWanted (passes_pot_upto (Suc k) K dd pressed bz wb g w n tr)"
      by (cases ph) simp_all
    then show ?thesis
      by blast
  next
    case (Done n1 tr1)
    let ?Y = "passes_pot_upto k K dd pressed bz wb g w n1 tr1"
    from Suc.IH [of n1 tr1] obtain b where
      b: "events ?Y = tr1 @ b" "ledOK g HIGH b" "ledLevel g HIGH b = ledWanted ?Y"
      by blast
    from Done a have "tr1 = tr @ a" "ledLevel g HIGH a = HIGH"
      by simp_all
    with a b Done have "events (passes_pot_upto (Suc k) K dd pressed bz wb g w n tr) = tr @ (a @ b) \<and>
        ledOK g HIGH (a @ b) \<and>
        ledLevel g HIGH (a @ b) = ledWanted (passes_pot_upto (Suc k) K dd pressed bz wb g w n tr)"
      by (simp add: ledOK_append ledLevel_append)
    then show ?thesis
      by blast
  qed
qed

lemma sketch_pot_upto_led:
  assumes leds: "\<forall>team<numTeams. \<forall>player<numPlayers. pinLED (bz ! team ! player) \<noteq> pinLED wb"
  shows "ledOK (pinLED wb) lv0 (events (sketch_pot_upto k K dd pressed bz wb w)) \<and>
     ledLevel (pinLED wb) lv0 (events (sketch_pot_upto k K dd pressed bz wb w)) =
       ledWanted (sketch_pot_upto k K dd pressed bz wb w)"
proof -
  obtain g tr0 where st: "setup_sketch bz wb = (g, tr0)"
    by (cases "setup_sketch bz wb") auto
  with setup_sketch_events(1) [OF leds] setup_sketch_events(3) [OF leds, of lv0]
    setup_sketch_events(4) [OF leds, of lv0] have
    g: "g = pinLED wb" and ok0: "ledOK (pinLED wb) lv0 tr0"
    and l0: "ledLevel (pinLED wb) lv0 tr0 = HIGH"
    by simp_all
  from st g have X: "sketch_pot_upto k K dd pressed bz wb w =
      passes_pot_upto k K dd pressed bz wb (pinLED wb) w 0 tr0"
    by (simp add: sketch_pot_upto_def)
  from passes_pot_upto_led [OF leds, where k = k and K = K and dd = dd and pressed = pressed
      and w = w and n = 0 and tr = tr0] obtain new where
    "events (passes_pot_upto k K dd pressed bz wb (pinLED wb) w 0 tr0) = tr0 @ new"
    "ledOK (pinLED wb) HIGH new"
    "ledLevel (pinLED wb) HIGH new =
       ledWanted (passes_pot_upto k K dd pressed bz wb (pinLED wb) w 0 tr0)"
    by blast
  with ok0 l0 show ?thesis
    by (simp add: X ledOK_append ledLevel_append)
qed

subsection \<open>The menu revision stopped after a number of calls\<close>

lemma ledOK_menu_append:
  "ledOK_menu g lv (xs @ ys) \<longleftrightarrow> ledOK_menu g lv xs \<and> ledOK_menu g (ledLevel g lv xs) ys"
  by (induction g lv xs rule: ledOK_menu.induct) auto

lemma ledOK_imp_menu: "ledOK g lv es \<Longrightarrow> ledOK_menu g lv es"
  by (induction g lv es rule: ledOK.induct) auto

lemma reads_led:
  assumes "\<forall>e\<in>set es. \<forall>pin x. e \<noteq> DigitalWrite pin x"
  shows "ledOK_menu g HIGH es" "ledLevel g lv es = lv" "greenWrites g es = []"
  using assms
proof (induction es)
  case Nil
  {
    case 1 show ?case by simp
  next
    case 2 show ?case by simp
  next
    case 3 show ?case by simp
  }
next
  case (Cons e es)
  {
    case 1 with Cons show ?case by (cases e) simp_all
  next
    case 2 with Cons show ?case by (cases e) simp_all
  next
    case 3 with Cons show ?case by (cases e) simp_all
  }
qed

lemma menuLoop_upto_events:
  "\<exists>new. events (menuLoop_upto K dd w wb d n tr) = tr @ new \<and>
     (\<forall>e\<in>set new. \<exists>r. e = ReadWhite r)"
proof (induction K dd w wb d n tr rule: menuLoop_upto.induct)
  case (1 K dd w wb d n tr)
  let ?wb1 = "wb\<lparr>buttonState := HIGH, lastButtonState := HIGH\<rparr>"
  let ?r = "poll dd w n ?wb1"
  show ?case
  proof (cases "\<not> K \<le> n \<and> ?r \<noteq> LOW")
    case True
    then have eq: "menuLoop_upto K dd w wb d n tr =
        menuLoop_upto K dd w ?wb1 (menuStep d) (Suc n) (tr @ [ReadWhite ?r])"
      by (subst menuLoop_upto.simps) (simp add: Let_def)
    from True have c: "\<not> K \<le> n" "?r \<noteq> LOW"
      by simp_all
    have "\<exists>new. events (menuLoop_upto K dd w ?wb1 (menuStep d) (Suc n)
          (tr @ [ReadWhite ?r])) = (tr @ [ReadWhite ?r]) @ new \<and>
        (\<forall>e\<in>set new. \<exists>r. e = ReadWhite r)"
      by (rule 1 [OF c(1) refl refl refl c(2)])
    then obtain new where
      "events (menuLoop_upto K dd w ?wb1 (menuStep d) (Suc n) (tr @ [ReadWhite ?r])) =
         (tr @ [ReadWhite ?r]) @ new" "\<forall>e\<in>set new. \<exists>r. e = ReadWhite r"
      by blast
    then have "events (menuLoop_upto K dd w wb d n tr) = tr @ (ReadWhite ?r # new) \<and>
        (\<forall>e\<in>set (ReadWhite ?r # new). \<exists>r. e = ReadWhite r)"
      by (simp add: eq)
    then show ?thesis
      by blast
  next
    case False
    then have "menuLoop_upto K dd w wb d n tr = Running InMenu tr \<or>
        menuLoop_upto K dd w wb d n tr = Done (?wb1, d, Suc n) (tr @ [ReadWhite ?r])"
      by (subst (1 2) menuLoop_upto.simps) (auto simp: Let_def)
    then show ?thesis
      by (elim disjE) simp_all
  qed
qed

lemma menuLoop_upto_phase:
  "menuLoop_upto K dd w wb d n tr \<noteq> Running InWait t"
proof (induction K dd w wb d n tr rule: menuLoop_upto.induct)
  case (1 K dd w wb d n tr)
  then show ?case
    by (subst menuLoop_upto.simps) (simp add: Let_def)
qed

lemma menuLoop_upto_sound:
  "menuLoop_upto K dd w wb d n tr = Done (wb', d', n') tr' \<Longrightarrow>
   menuLoop dd w wb d n tr = Some (wb', d', n', tr')"
proof (induction K dd w wb d n tr rule: menuLoop_upto.induct)
  case (1 K dd w wb d n tr)
  let ?wb1 = "wb\<lparr>buttonState := HIGH, lastButtonState := HIGH\<rparr>"
  let ?r = "poll dd w n ?wb1"
  show ?case
  proof (cases "\<not> K \<le> n \<and> ?r \<noteq> LOW")
    case True
    then have "menuLoop_upto K dd w wb d n tr =
        menuLoop_upto K dd w ?wb1 (menuStep d) (Suc n) (tr @ [ReadWhite ?r])"
      by (subst menuLoop_upto.simps) (simp add: Let_def)
    with "1.prems" have u: "menuLoop_upto K dd w ?wb1 (menuStep d) (Suc n) (tr @ [ReadWhite ?r]) =
        Done (wb', d', n') tr'"
      by simp
    from True have c: "\<not> K \<le> n" "?r \<noteq> LOW"
      by simp_all
    have "menuLoop dd w ?wb1 (menuStep d) (Suc n) (tr @ [ReadWhite ?r]) = Some (wb', d', n', tr')"
      by (rule "1.IH" [OF c(1) refl refl refl c(2) u])
    with True show ?thesis
      by (subst menuLoop.simps) (simp add: Let_def)
  next
    case False
    with "1.prems" show ?thesis
      by (subst menuLoop.simps, subst (asm) menuLoop_upto.simps)
        (auto simp: Let_def split: if_splits)
  qed
qed

lemma menuLoop_upto_complete_aux:
  assumes "menuLoop dd w wb d n tr = Some y"
  shows "\<exists>K0. \<forall>K\<ge>K0. menuLoop_upto K dd w wb d n tr =
     Done (fst y, fst (snd y), fst (snd (snd y))) (snd (snd (snd y)))"
proof (rule menuLoop.raw_induct
    [where P = "\<lambda>dd w wb d n tr y.
         \<exists>K0. \<forall>K\<ge>K0. menuLoop_upto K dd w wb d n tr =
           Done (fst y, fst (snd y), fst (snd (snd y))) (snd (snd (snd y)))",
      OF _ assms])
  fix loop :: "c_ulong \<Rightarrow> world \<Rightarrow> ButtonLED \<Rightarrow> c_int \<Rightarrow> nat \<Rightarrow> event list \<Rightarrow>
      (ButtonLED \<times> c_int \<times> nat \<times> event list) option"
  fix dd w wb d n tr y
  assume IH: "\<And>dd w wb d n tr y. loop dd w wb d n tr = Some y \<Longrightarrow>
         \<exists>K0. \<forall>K\<ge>K0. menuLoop_upto K dd w wb d n tr =
           Done (fst y, fst (snd y), fst (snd (snd y))) (snd (snd (snd y)))"
  assume body: "(let wb1 = wb\<lparr>buttonState := HIGH, lastButtonState := HIGH\<rparr>;
          r = poll dd w n wb1; tr1 = tr @ [ReadWhite r]
      in if r = LOW then Some (wb1, d, Suc n, tr1)
         else loop dd w wb1 (menuStep d) (Suc n) tr1) = Some y"
  let ?wb1 = "wb\<lparr>buttonState := HIGH, lastButtonState := HIGH\<rparr>"
  let ?r = "poll dd w n ?wb1"
  show "\<exists>K0. \<forall>K\<ge>K0. menuLoop_upto K dd w wb d n tr =
           Done (fst y, fst (snd y), fst (snd (snd y))) (snd (snd (snd y)))"
  proof (cases "?r = LOW")
    case True
    with body have y: "y = (?wb1, d, Suc n, tr @ [ReadWhite ?r])"
      by (auto simp: Let_def)
    from True have "\<forall>K\<ge>Suc n. menuLoop_upto K dd w wb d n tr =
           Done (fst y, fst (snd y), fst (snd (snd y))) (snd (snd (snd y)))"
      by (subst menuLoop_upto.simps) (simp add: y Let_def)
    then show ?thesis
      by blast
  next
    case False
    with body have "loop dd w ?wb1 (menuStep d) (Suc n) (tr @ [ReadWhite ?r]) = Some y"
      by (simp add: Let_def)
    from IH [OF this] obtain K0 where
      K0: "\<forall>K\<ge>K0. menuLoop_upto K dd w ?wb1 (menuStep d) (Suc n) (tr @ [ReadWhite ?r]) =
           Done (fst y, fst (snd y), fst (snd (snd y))) (snd (snd (snd y)))"
      by blast
    have "\<forall>K\<ge>max K0 (Suc n). menuLoop_upto K dd w wb d n tr =
           Done (fst y, fst (snd y), fst (snd (snd y))) (snd (snd (snd y)))"
    proof (intro allI impI)
      fix K
      assume "max K0 (Suc n) \<le> K"
      then have "K0 \<le> K" "\<not> K \<le> n"
        by simp_all
      with False K0 show "menuLoop_upto K dd w wb d n tr =
           Done (fst y, fst (snd y), fst (snd (snd y))) (snd (snd (snd y)))"
        by (subst menuLoop_upto.simps) (simp add: Let_def)
    qed
    then show ?thesis
      by blast
  qed
qed

lemma menuLoop_upto_complete:
  "menuLoop dd w wb d n tr = Some (wb', d', n', tr') \<Longrightarrow>
   \<exists>K0. \<forall>K\<ge>K0. menuLoop_upto K dd w wb d n tr = Done (wb', d', n') tr'"
  using menuLoop_upto_complete_aux [of dd w wb d n tr "(wb', d', n', tr')"] by simp

lemma releaseWait_upto_events:
  "\<exists>new. events (releaseWait_upto K dd w wb n tr) = tr @ new \<and>
     (\<forall>e\<in>set new. \<exists>r. e = ReadWhite r)"
proof (induction K dd w wb n tr rule: releaseWait_upto.induct)
  case (1 K dd w wb n tr)
  let ?r = "poll dd w n wb"
  show ?case
  proof (cases "\<not> K \<le> n \<and> ?r = LOW")
    case True
    then have eq: "releaseWait_upto K dd w wb n tr =
        releaseWait_upto K dd w wb (Suc n) (tr @ [ReadWhite ?r])"
      by (subst releaseWait_upto.simps) (simp add: Let_def)
    from True have c: "\<not> K \<le> n" "?r = LOW"
      by simp_all
    have "\<exists>new. events (releaseWait_upto K dd w wb (Suc n)
          (tr @ [ReadWhite ?r])) = (tr @ [ReadWhite ?r]) @ new \<and>
        (\<forall>e\<in>set new. \<exists>r. e = ReadWhite r)"
      by (rule 1 [OF c(1) refl refl c(2)])
    then obtain new where
      "events (releaseWait_upto K dd w wb (Suc n) (tr @ [ReadWhite ?r])) =
         (tr @ [ReadWhite ?r]) @ new" "\<forall>e\<in>set new. \<exists>r. e = ReadWhite r"
      by blast
    then have "events (releaseWait_upto K dd w wb n tr) = tr @ (ReadWhite ?r # new) \<and>
        (\<forall>e\<in>set (ReadWhite ?r # new). \<exists>r. e = ReadWhite r)"
      by (simp add: eq)
    then show ?thesis
      by blast
  next
    case False
    then have "releaseWait_upto K dd w wb n tr = Running InWait tr \<or>
        releaseWait_upto K dd w wb n tr = Done (Suc n) (tr @ [ReadWhite ?r])"
      by (subst (1 2) releaseWait_upto.simps) (auto simp: Let_def)
    then show ?thesis
      by (elim disjE) simp_all
  qed
qed

lemma releaseWait_upto_phase:
  "releaseWait_upto K dd w wb n tr \<noteq> Running InMenu t"
proof (induction K dd w wb n tr rule: releaseWait_upto.induct)
  case (1 K dd w wb n tr)
  then show ?case
    by (subst releaseWait_upto.simps) (simp add: Let_def)
qed

lemma releaseWait_upto_sound:
  "releaseWait_upto K dd w wb n tr = Done n' tr' \<Longrightarrow>
   releaseWait dd w wb n tr = Some (n', tr')"
proof (induction K dd w wb n tr rule: releaseWait_upto.induct)
  case (1 K dd w wb n tr)
  let ?r = "poll dd w n wb"
  show ?case
  proof (cases "\<not> K \<le> n \<and> ?r = LOW")
    case True
    then have "releaseWait_upto K dd w wb n tr =
        releaseWait_upto K dd w wb (Suc n) (tr @ [ReadWhite ?r])"
      by (subst releaseWait_upto.simps) (simp add: Let_def)
    with "1.prems" have u: "releaseWait_upto K dd w wb (Suc n) (tr @ [ReadWhite ?r]) =
        Done n' tr'"
      by simp
    from True have c: "\<not> K \<le> n" "?r = LOW"
      by simp_all
    have "releaseWait dd w wb (Suc n) (tr @ [ReadWhite ?r]) = Some (n', tr')"
      by (rule "1.IH" [OF c(1) refl refl c(2) u])
    with True show ?thesis
      by (subst releaseWait.simps) (simp add: Let_def)
  next
    case False
    with "1.prems" show ?thesis
      by (subst releaseWait.simps, subst (asm) releaseWait_upto.simps)
        (auto simp: Let_def split: if_splits)
  qed
qed

lemma releaseWait_upto_complete_aux:
  assumes "releaseWait dd w wb n tr = Some y"
  shows "\<exists>K0. \<forall>K\<ge>K0. releaseWait_upto K dd w wb n tr = Done (fst y) (snd y)"
proof (rule releaseWait.raw_induct
    [where P = "\<lambda>dd w wb n tr y.
         \<exists>K0. \<forall>K\<ge>K0. releaseWait_upto K dd w wb n tr = Done (fst y) (snd y)",
      OF _ assms])
  fix loop :: "c_ulong \<Rightarrow> world \<Rightarrow> 'a Button_scheme \<Rightarrow> nat \<Rightarrow> event list \<Rightarrow>
      (nat \<times> event list) option"
  fix dd w wb n tr y
  assume IH: "\<And>dd w wb n tr y. loop dd w wb n tr = Some y \<Longrightarrow>
         \<exists>K0. \<forall>K\<ge>K0. releaseWait_upto K dd w wb n tr = Done (fst y) (snd y)"
  assume body: "(let r = poll dd w n wb; tr1 = tr @ [ReadWhite r]
      in if r = LOW then loop dd w wb (Suc n) tr1 else Some (Suc n, tr1)) = Some y"
  let ?r = "poll dd w n wb"
  show "\<exists>K0. \<forall>K\<ge>K0. releaseWait_upto K dd w wb n tr = Done (fst y) (snd y)"
  proof (cases "?r = LOW")
    case False
    with body have y: "y = (Suc n, tr @ [ReadWhite ?r])"
      by (auto simp: Let_def)
    from False have "\<forall>K\<ge>Suc n. releaseWait_upto K dd w wb n tr = Done (fst y) (snd y)"
      by (subst releaseWait_upto.simps) (simp add: y Let_def)
    then show ?thesis
      by blast
  next
    case True
    with body have "loop dd w wb (Suc n) (tr @ [ReadWhite ?r]) = Some y"
      by (simp add: Let_def)
    from IH [OF this] obtain K0 where
      K0: "\<forall>K\<ge>K0. releaseWait_upto K dd w wb (Suc n) (tr @ [ReadWhite ?r]) =
           Done (fst y) (snd y)"
      by blast
    have "\<forall>K\<ge>max K0 (Suc n). releaseWait_upto K dd w wb n tr = Done (fst y) (snd y)"
    proof (intro allI impI)
      fix K
      assume "max K0 (Suc n) \<le> K"
      then have "K0 \<le> K" "\<not> K \<le> n"
        by simp_all
      with True K0 show "releaseWait_upto K dd w wb n tr = Done (fst y) (snd y)"
        by (subst releaseWait_upto.simps) (simp add: Let_def)
    qed
    then show ?thesis
      by blast
  qed
qed

lemma releaseWait_upto_complete:
  "releaseWait dd w wb n tr = Some (n', tr') \<Longrightarrow>
   \<exists>K0. \<forall>K\<ge>K0. releaseWait_upto K dd w wb n tr = Done n' tr'"
  using releaseWait_upto_complete_aux [of dd w wb n tr "(n', tr')"] by simp

lemma resetWait_menu_upto_events:
  "\<exists>new. events (resetWait_menu_upto K dd wb w ts d n tr) = tr @ new \<and>
     (\<forall>e\<in>set new. \<exists>r. e = ReadWhite r)"
proof (induction K dd wb w ts d n tr rule: resetWait_menu_upto.induct)
  case (1 K dd wb w ts d n tr)
  let ?r = "poll dd w n wb"
  let ?R = "releaseWait_upto K dd w wb (Suc n) (tr @ [ReadWhite ?r])"
  show ?case
  proof (cases "waitCond w ts d n \<and> \<not> K \<le> n")
    case False
    then have "resetWait_menu_upto K dd wb w ts d n tr = Running InWait tr \<or>
        resetWait_menu_upto K dd wb w ts d n tr = Done (Timeout, n) tr"
      by (subst (1 2) resetWait_menu_upto.simps) (auto simp: Let_def)
    then show ?thesis
      by (elim disjE) simp_all
  next
    case True
    then have c: "waitCond w ts d n" "\<not> K \<le> n"
      by simp_all
    show ?thesis
    proof (cases "?r = LOW")
      case False
      with c have eq: "resetWait_menu_upto K dd wb w ts d n tr =
          resetWait_menu_upto K dd wb w ts d (Suc n) (tr @ [ReadWhite ?r])"
        by (subst resetWait_menu_upto.simps) (simp add: Let_def)
      have "\<exists>new. events (resetWait_menu_upto K dd wb w ts d (Suc n)
            (tr @ [ReadWhite ?r])) = (tr @ [ReadWhite ?r]) @ new \<and>
          (\<forall>e\<in>set new. \<exists>r. e = ReadWhite r)"
        by (rule 1 [OF c(1,2) refl refl False])
      then obtain new where
        "events (resetWait_menu_upto K dd wb w ts d (Suc n) (tr @ [ReadWhite ?r])) =
           (tr @ [ReadWhite ?r]) @ new" "\<forall>e\<in>set new. \<exists>r. e = ReadWhite r"
        by blast
      then have "events (resetWait_menu_upto K dd wb w ts d n tr) = tr @ (ReadWhite ?r # new) \<and>
          (\<forall>e\<in>set (ReadWhite ?r # new). \<exists>r. e = ReadWhite r)"
        by (simp add: eq)
      then show ?thesis
        by blast
    next
      case low: True
      from releaseWait_upto_events [of K dd w wb "Suc n" "tr @ [ReadWhite ?r]"] obtain new where
        new: "events ?R = (tr @ [ReadWhite ?r]) @ new" "\<forall>e\<in>set new. \<exists>r. e = ReadWhite r"
        by blast
      from c low have "events (resetWait_menu_upto K dd wb w ts d n tr) = events ?R"
        by (subst resetWait_menu_upto.simps) (simp add: Let_def split: progress.split)
      with new have "events (resetWait_menu_upto K dd wb w ts d n tr) = tr @ (ReadWhite ?r # new) \<and>
          (\<forall>e\<in>set (ReadWhite ?r # new). \<exists>r. e = ReadWhite r)"
        by simp
      then show ?thesis
        by blast
    qed
  qed
qed

lemma resetWait_menu_upto_phase:
  "resetWait_menu_upto K dd wb w ts d n tr \<noteq> Running InMenu t"
proof (induction K dd wb w ts d n tr rule: resetWait_menu_upto.induct)
  case (1 K dd wb w ts d n tr)
  then show ?case
    by (subst resetWait_menu_upto.simps)
      (simp add: Let_def releaseWait_upto_phase split: progress.split)
qed

lemma resetWait_menu_upto_sound:
  "resetWait_menu_upto K dd wb w ts d n tr = Done (ex, n') tr' \<Longrightarrow>
   resetWait_menu dd wb w ts d n tr = Some (ex, n', tr')"
proof (induction K dd wb w ts d n tr rule: resetWait_menu_upto.induct)
  case (1 K dd wb w ts d n tr)
  let ?r = "poll dd w n wb"
  show ?case
  proof (cases "waitCond w ts d n \<and> \<not> K \<le> n \<and> ?r \<noteq> LOW")
    case True
    then have "resetWait_menu_upto K dd wb w ts d n tr =
        resetWait_menu_upto K dd wb w ts d (Suc n) (tr @ [ReadWhite ?r])"
      by (subst resetWait_menu_upto.simps) (simp add: Let_def)
    with "1.prems" have u: "resetWait_menu_upto K dd wb w ts d (Suc n) (tr @ [ReadWhite ?r]) =
        Done (ex, n') tr'"
      by simp
    from True have c: "waitCond w ts d n" "\<not> K \<le> n" "?r \<noteq> LOW"
      by simp_all
    have "resetWait_menu dd wb w ts d (Suc n) (tr @ [ReadWhite ?r]) = Some (ex, n', tr')"
      by (rule "1.IH" [OF c(1,2) refl refl c(3) u])
    with True show ?thesis
      by (subst resetWait_menu.simps) (simp add: Let_def)
  next
    case False
    with "1.prems" show ?thesis
      by (subst resetWait_menu.simps, subst (asm) resetWait_menu_upto.simps)
        (auto simp: Let_def split: if_splits progress.splits dest: releaseWait_upto_sound)
  qed
qed

lemma resetWait_menu_upto_complete_aux:
  assumes "resetWait_menu dd wb w ts d n tr = Some y"
  shows "\<exists>K0. \<forall>K\<ge>K0. resetWait_menu_upto K dd wb w ts d n tr =
     Done (fst y, fst (snd y)) (snd (snd y))"
proof (rule resetWait_menu.raw_induct
    [where P = "\<lambda>dd wb w ts d n tr y.
         \<exists>K0. \<forall>K\<ge>K0. resetWait_menu_upto K dd wb w ts d n tr =
           Done (fst y, fst (snd y)) (snd (snd y))",
      OF _ assms])
  fix loop :: "c_ulong \<Rightarrow> 'a Button_scheme \<Rightarrow> world \<Rightarrow> c_ulong \<Rightarrow> c_int \<Rightarrow>
      nat \<Rightarrow> event list \<Rightarrow> (exit \<times> nat \<times> event list) option"
  fix dd wb w ts d n tr y
  assume IH: "\<And>dd wb w ts d n tr y. loop dd wb w ts d n tr = Some y \<Longrightarrow>
         \<exists>K0. \<forall>K\<ge>K0. resetWait_menu_upto K dd wb w ts d n tr =
           Done (fst y, fst (snd y)) (snd (snd y))"
  assume body: "(if waitCond w ts d n
      then let r = poll dd w n wb; tr1 = tr @ [ReadWhite r]
           in if r = LOW
              then case releaseWait dd w wb (Suc n) tr1 of None \<Rightarrow> None
                   | Some (n', tr') \<Rightarrow> Some (ManualReset, n', tr')
              else loop dd wb w ts d (Suc n) tr1
      else Some (Timeout, n, tr)) = Some y"
  let ?r = "poll dd w n wb"
  show "\<exists>K0. \<forall>K\<ge>K0. resetWait_menu_upto K dd wb w ts d n tr =
           Done (fst y, fst (snd y)) (snd (snd y))"
  proof (cases "waitCond w ts d n")
    case False
    with body have y: "y = (Timeout, n, tr)"
      by auto
    from False have "\<forall>K\<ge>0. resetWait_menu_upto K dd wb w ts d n tr =
           Done (fst y, fst (snd y)) (snd (snd y))"
      by (subst resetWait_menu_upto.simps) (simp add: y)
    then show ?thesis
      by blast
  next
    case c: True
    show ?thesis
    proof (cases "?r = LOW")
      case True
      with c body obtain n' tr' where
        rel: "releaseWait dd w wb (Suc n) (tr @ [ReadWhite ?r]) = Some (n', tr')"
        and y: "y = (ManualReset, n', tr')"
        by (auto simp: Let_def split: option.splits)
      from releaseWait_upto_complete [OF rel] obtain K0 where
        K0: "\<forall>K\<ge>K0. releaseWait_upto K dd w wb (Suc n) (tr @ [ReadWhite ?r]) = Done n' tr'"
        by blast
      have "\<forall>K\<ge>max K0 (Suc n). resetWait_menu_upto K dd wb w ts d n tr =
           Done (fst y, fst (snd y)) (snd (snd y))"
      proof (intro allI impI)
        fix K
        assume "max K0 (Suc n) \<le> K"
        then have "K0 \<le> K" "\<not> K \<le> n"
          by simp_all
        with c True K0 show "resetWait_menu_upto K dd wb w ts d n tr =
           Done (fst y, fst (snd y)) (snd (snd y))"
          by (subst resetWait_menu_upto.simps) (simp add: Let_def y)
      qed
      then show ?thesis
        by blast
    next
      case False
      with c body have "loop dd wb w ts d (Suc n) (tr @ [ReadWhite ?r]) = Some y"
        by (simp add: Let_def)
      from IH [OF this] obtain K0 where
        K0: "\<forall>K\<ge>K0. resetWait_menu_upto K dd wb w ts d (Suc n) (tr @ [ReadWhite ?r]) =
           Done (fst y, fst (snd y)) (snd (snd y))"
        by blast
      have "\<forall>K\<ge>max K0 (Suc n). resetWait_menu_upto K dd wb w ts d n tr =
           Done (fst y, fst (snd y)) (snd (snd y))"
      proof (intro allI impI)
        fix K
        assume "max K0 (Suc n) \<le> K"
        then have "K0 \<le> K" "\<not> K \<le> n"
          by simp_all
        with c False K0 show "resetWait_menu_upto K dd wb w ts d n tr =
           Done (fst y, fst (snd y)) (snd (snd y))"
          by (subst resetWait_menu_upto.simps) (simp add: Let_def)
      qed
      then show ?thesis
        by blast
    qed
  qed
qed

lemma resetWait_menu_upto_complete:
  "resetWait_menu dd wb w ts d n tr = Some (ex, n', tr') \<Longrightarrow>
   \<exists>K0. \<forall>K\<ge>K0. resetWait_menu_upto K dd wb w ts d n tr = Done (ex, n') tr'"
  using resetWait_menu_upto_complete_aux [of dd wb w ts d n tr "(ex, n', tr')"] by simp

lemma scanPlayers_menu_upto_events:
  "(\<exists>new. events (scanPlayers_menu_upto K up dd bz w team player wb d n tr) = tr @ new \<and>
      (\<forall>e\<in>set new. \<forall>pin x. e \<noteq> DigitalWrite pin x)) \<and>
   (\<forall>t. scanPlayers_menu_upto K up dd bz w team player wb d n tr \<noteq> Running InWait t) \<and>
   (\<forall>t' p' st tr'. scanPlayers_menu_upto K up dd bz w team player wb d n tr =
        Done (Some (t', p'), st) tr' \<longrightarrow> t' = team \<and> p' < numPlayers)"
proof (induction K up dd bz w team player wb d n tr rule: scanPlayers_menu_upto.induct)
  case (1 K up dd bz w team player wb d n tr)
  let ?X = "scanPlayers_menu_upto K up dd bz w team player wb d n tr"
  let ?r = "poll dd w n (bz ! team ! player)"
  let ?tr1 = "tr @ [ReadBuzzer team player ?r]"
  let ?r2 = "poll dd w (Suc n) wb"
  let ?tr2 = "?tr1 @ [ReadWhite ?r2]"
  have lift: "\<And>Y trm mid. ?X = Y \<Longrightarrow> trm = tr @ mid \<Longrightarrow>
      \<forall>e\<in>set mid. \<forall>pin x. e \<noteq> DigitalWrite pin x \<Longrightarrow>
      (\<exists>new. events Y = trm @ new \<and> (\<forall>e\<in>set new. \<forall>pin x. e \<noteq> DigitalWrite pin x)) \<and>
      (\<forall>t. Y \<noteq> Running InWait t) \<and>
      (\<forall>t' p' st tr'. Y = Done (Some (t', p'), st) tr' \<longrightarrow> t' = team \<and> p' < numPlayers) \<Longrightarrow>
      (\<exists>new. events ?X = tr @ new \<and> (\<forall>e\<in>set new. \<forall>pin x. e \<noteq> DigitalWrite pin x)) \<and>
      (\<forall>t. ?X \<noteq> Running InWait t) \<and>
      (\<forall>t' p' st tr'. ?X = Done (Some (t', p'), st) tr' \<longrightarrow> t' = team \<and> p' < numPlayers)"
  proof -
    fix Y :: "((nat \<times> nat) option \<times> ButtonLED \<times> c_int \<times> nat) progress" and trm mid
    assume eq: "?X = Y" and trm: "trm = tr @ mid"
      and mid: "\<forall>e\<in>set mid. \<forall>pin x. e \<noteq> DigitalWrite pin x"
      and Y: "(\<exists>new. events Y = trm @ new \<and>
          (\<forall>e\<in>set new. \<forall>pin x. e \<noteq> DigitalWrite pin x)) \<and>
        (\<forall>t. Y \<noteq> Running InWait t) \<and>
        (\<forall>t' p' st tr'. Y = Done (Some (t', p'), st) tr' \<longrightarrow> t' = team \<and> p' < numPlayers)"
    then obtain new where new: "events Y = trm @ new"
      "\<forall>e\<in>set new. \<forall>pin x. e \<noteq> DigitalWrite pin x"
      by blast
    with mid trm have "events Y = tr @ (mid @ new) \<and>
        (\<forall>e\<in>set (mid @ new). \<forall>pin x. e \<noteq> DigitalWrite pin x)"
      by auto
    then have "\<exists>new. events Y = tr @ new \<and> (\<forall>e\<in>set new. \<forall>pin x. e \<noteq> DigitalWrite pin x)"
      by blast
    with Y show "(\<exists>new. events ?X = tr @ new \<and>
          (\<forall>e\<in>set new. \<forall>pin x. e \<noteq> DigitalWrite pin x)) \<and>
        (\<forall>t. ?X \<noteq> Running InWait t) \<and>
        (\<forall>t' p' st tr'. ?X = Done (Some (t', p'), st) tr' \<longrightarrow> t' = team \<and> p' < numPlayers)"
      unfolding eq by blast
  qed
  show ?case
  proof (cases "player < numPlayers")
    case False
    then have "?X = Done (None, wb, d, n) tr"
      by (subst scanPlayers_menu_upto.simps) simp
    then show ?thesis
      by simp
  next
    case pl: True
    show ?thesis
    proof (cases "?r = LOW")
      case True
      with pl have "?X = Done (Some (team, player), wb, d, Suc n) ?tr1"
        by (subst scanPlayers_menu_upto.simps) (simp add: Let_def)
      with pl show ?thesis
        by simp
    next
      case rne: False
      show ?thesis
      proof (cases up)
        case True
        with pl rne have eq: "?X =
            scanPlayers_menu_upto K up dd bz w team (Suc player) wb d (Suc n) ?tr1"
          by (subst scanPlayers_menu_upto.simps) (simp add: Let_def)
        have mid: "\<forall>e\<in>set [ReadBuzzer team player ?r]. \<forall>pin x. e \<noteq> DigitalWrite pin x"
          by simp
        show ?thesis
          by (rule lift [OF eq refl mid "1.IH"(1) [OF pl refl refl rne True]])
      next
        case nup: False
        show ?thesis
        proof (cases "?r2 = LOW")
          case False
          with pl rne nup have eq: "?X =
              scanPlayers_menu_upto K up dd bz w team (Suc player) wb d (Suc (Suc n)) ?tr2"
            by (subst scanPlayers_menu_upto.simps) (simp add: Let_def)
          have trm: "?tr2 = tr @ [ReadBuzzer team player ?r, ReadWhite ?r2]"
            by simp
          have mid: "\<forall>e\<in>set [ReadBuzzer team player ?r, ReadWhite ?r2].
              \<forall>pin x. e \<noteq> DigitalWrite pin x"
            by simp
          show ?thesis
            by (rule lift [OF eq trm mid "1.IH"(3) [OF pl refl refl rne nup refl refl False]])
        next
          case low: True
          let ?M = "menuLoop_upto K dd w wb d (Suc (Suc n)) ?tr2"
          from menuLoop_upto_events [of K dd w wb d "Suc (Suc n)" ?tr2] obtain mev where
            mev: "events ?M = ?tr2 @ mev" "\<forall>e\<in>set mev. \<exists>r. e = ReadWhite r"
            by blast
          show ?thesis
          proof (cases ?M)
            case (Running ph t)
            with pl rne nup low have X: "?X = Running ph t"
              by (subst scanPlayers_menu_upto.simps) (simp add: Let_def)
            from Running menuLoop_upto_phase [of K dd w wb d "Suc (Suc n)" ?tr2 t]
            have ph: "ph = InMenu"
              by (cases ph) simp_all
            from Running mev have
              "t = tr @ ([ReadBuzzer team player ?r, ReadWhite ?r2] @ mev) \<and>
               (\<forall>e\<in>set ([ReadBuzzer team player ?r, ReadWhite ?r2] @ mev).
                  \<forall>pin x. e \<noteq> DigitalWrite pin x)"
              by auto
            then have "\<exists>new. t = tr @ new \<and> (\<forall>e\<in>set new. \<forall>pin x. e \<noteq> DigitalWrite pin x)"
              by blast
            with X ph show ?thesis
              by simp
          next
            case (Done r t)
            obtain wb1 d1 n1 where r: "r = (wb1, d1, n1)"
              by (cases r) auto
            with Done pl rne nup low have eq: "?X =
                scanPlayers_menu_upto K up dd bz w team (Suc player) wb1 d1 n1 t"
              by (subst scanPlayers_menu_upto.simps) (simp add: Let_def)
            from Done r have M: "?M = Done (wb1, d1, n1) t"
              by simp
            from Done mev have t: "t = tr @ ([ReadBuzzer team player ?r, ReadWhite ?r2] @ mev)"
              by simp
            have mid: "\<forall>e\<in>set ([ReadBuzzer team player ?r, ReadWhite ?r2] @ mev).
                \<forall>pin x. e \<noteq> DigitalWrite pin x"
              using mev(2) by auto
            show ?thesis
              by (rule lift [OF eq t mid
                    "1.IH"(2) [OF pl refl refl rne nup refl refl low M refl refl]])
          qed
        qed
      qed
    qed
  qed
qed

lemma scanPlayers_menu_upto_sound:
  "scanPlayers_menu_upto K up dd bz w team player wb d n tr = Done (win, wb', d', n') tr' \<Longrightarrow>
   scanPlayers_menu up dd bz w team player wb d n tr = Some (win, wb', d', n', tr')"
proof (induction K up dd bz w team player wb d n tr rule: scanPlayers_menu_upto.induct)
  case (1 K up dd bz w team player wb d n tr)
  let ?X = "scanPlayers_menu_upto K up dd bz w team player wb d n tr"
  let ?r = "poll dd w n (bz ! team ! player)"
  let ?tr1 = "tr @ [ReadBuzzer team player ?r]"
  let ?r2 = "poll dd w (Suc n) wb"
  let ?tr2 = "?tr1 @ [ReadWhite ?r2]"
  show ?case
  proof (cases "player < numPlayers")
    case False
    with "1.prems" show ?thesis
      by (subst scanPlayers_menu.simps, subst (asm) scanPlayers_menu_upto.simps) simp
  next
    case pl: True
    show ?thesis
    proof (cases "?r = LOW")
      case True
      with pl "1.prems" show ?thesis
        by (subst scanPlayers_menu.simps, subst (asm) scanPlayers_menu_upto.simps)
          (simp add: Let_def)
    next
      case rne: False
      show ?thesis
      proof (cases up)
        case True
        with pl rne "1.prems" have
          "scanPlayers_menu_upto K up dd bz w team (Suc player) wb d (Suc n) ?tr1 =
             Done (win, wb', d', n') tr'"
          by (subst (asm) scanPlayers_menu_upto.simps) (simp add: Let_def)
        from "1.IH"(1) [OF pl refl refl rne True this] pl rne True show ?thesis
          by (subst scanPlayers_menu.simps) (simp add: Let_def)
      next
        case nup: False
        show ?thesis
        proof (cases "?r2 = LOW")
          case False
          with pl rne nup "1.prems" have
            "scanPlayers_menu_upto K up dd bz w team (Suc player) wb d (Suc (Suc n)) ?tr2 =
               Done (win, wb', d', n') tr'"
            by (subst (asm) scanPlayers_menu_upto.simps) (simp add: Let_def)
          from "1.IH"(3) [OF pl refl refl rne nup refl refl False this] pl rne nup False
          show ?thesis
            by (subst scanPlayers_menu.simps) (simp add: Let_def)
        next
          case low: True
          let ?M = "menuLoop_upto K dd w wb d (Suc (Suc n)) ?tr2"
          show ?thesis
          proof (cases ?M)
            case (Running ph t)
            with pl rne nup low "1.prems" show ?thesis
              by (subst (asm) scanPlayers_menu_upto.simps) (simp add: Let_def)
          next
            case (Done r t)
            obtain wb1 d1 n1 where r: "r = (wb1, d1, n1)"
              by (cases r) auto
            from Done r have M: "?M = Done (wb1, d1, n1) t"
              by simp
            with pl rne nup low "1.prems" have
              "scanPlayers_menu_upto K up dd bz w team (Suc player) wb1 d1 n1 t =
                 Done (win, wb', d', n') tr'"
              by (subst (asm) scanPlayers_menu_upto.simps) (simp add: Let_def)
            from "1.IH"(2) [OF pl refl refl rne nup refl refl low M refl refl this]
              menuLoop_upto_sound [OF M] pl rne nup low
            show ?thesis
              by (subst scanPlayers_menu.simps) (simp add: Let_def)
          qed
        qed
      qed
    qed
  qed
qed

lemma scanPlayers_menu_upto_complete:
  "scanPlayers_menu up dd bz w team player wb d n tr = Some (win, wb', d', n', tr') \<Longrightarrow>
   \<exists>K0. \<forall>K\<ge>K0. scanPlayers_menu_upto K up dd bz w team player wb d n tr =
     Done (win, wb', d', n') tr'"
proof (induction up dd bz w team player wb d n tr rule: scanPlayers_menu.induct)
  case (1 up dd bz w team player wb d n tr)
  let ?r = "poll dd w n (bz ! team ! player)"
  let ?tr1 = "tr @ [ReadBuzzer team player ?r]"
  let ?r2 = "poll dd w (Suc n) wb"
  let ?tr2 = "?tr1 @ [ReadWhite ?r2]"
  show ?case
  proof (cases "player < numPlayers")
    case False
    with "1.prems" have "\<forall>K\<ge>0. scanPlayers_menu_upto K up dd bz w team player wb d n tr =
        Done (win, wb', d', n') tr'"
      by (subst scanPlayers_menu_upto.simps, subst (asm) scanPlayers_menu.simps) simp
    then show ?thesis
      by blast
  next
    case pl: True
    show ?thesis
    proof (cases "?r = LOW")
      case True
      with pl "1.prems" have "\<forall>K\<ge>0. scanPlayers_menu_upto K up dd bz w team player wb d n tr =
          Done (win, wb', d', n') tr'"
        by (subst scanPlayers_menu_upto.simps, subst (asm) scanPlayers_menu.simps)
          (simp add: Let_def)
      then show ?thesis
        by blast
    next
      case rne: False
      show ?thesis
      proof (cases up)
        case True
        with pl rne "1.prems" have
          "scanPlayers_menu up dd bz w team (Suc player) wb d (Suc n) ?tr1 =
             Some (win, wb', d', n', tr')"
          by (subst (asm) scanPlayers_menu.simps) (simp add: Let_def)
        from "1.IH"(1) [OF pl refl refl rne True this] obtain K0 where
          K0: "\<forall>K\<ge>K0. scanPlayers_menu_upto K up dd bz w team (Suc player) wb d (Suc n) ?tr1 =
             Done (win, wb', d', n') tr'"
          by blast
        from pl rne True have "\<And>K. scanPlayers_menu_upto K up dd bz w team player wb d n tr =
            scanPlayers_menu_upto K up dd bz w team (Suc player) wb d (Suc n) ?tr1"
          by (subst scanPlayers_menu_upto.simps) (simp add: Let_def)
        with K0 show ?thesis
          by auto
      next
        case nup: False
        show ?thesis
        proof (cases "?r2 = LOW")
          case False
          with pl rne nup "1.prems" have
            "scanPlayers_menu up dd bz w team (Suc player) wb d (Suc (Suc n)) ?tr2 =
               Some (win, wb', d', n', tr')"
            by (subst (asm) scanPlayers_menu.simps) (simp add: Let_def)
          from "1.IH"(3) [OF pl refl refl rne nup refl refl False this] obtain K0 where
            K0: "\<forall>K\<ge>K0. scanPlayers_menu_upto K up dd bz w team (Suc player) wb d
                (Suc (Suc n)) ?tr2 = Done (win, wb', d', n') tr'"
            by blast
          from pl rne nup False have
            "\<And>K. scanPlayers_menu_upto K up dd bz w team player wb d n tr =
              scanPlayers_menu_upto K up dd bz w team (Suc player) wb d (Suc (Suc n)) ?tr2"
            by (subst scanPlayers_menu_upto.simps) (simp add: Let_def)
          with K0 show ?thesis
            by auto
        next
          case low: True
          show ?thesis
          proof (cases "menuLoop dd w wb d (Suc (Suc n)) ?tr2")
            case None
            with pl rne nup low "1.prems" show ?thesis
              by (subst (asm) scanPlayers_menu.simps) (simp add: Let_def)
          next
            case (Some r)
            obtain wb1 d1 n1 t1 where r: "r = (wb1, d1, n1, t1)"
              by (cases r) auto
            from Some r have M: "menuLoop dd w wb d (Suc (Suc n)) ?tr2 = Some (wb1, d1, n1, t1)"
              by simp
            with pl rne nup low "1.prems" have
              "scanPlayers_menu up dd bz w team (Suc player) wb1 d1 n1 t1 =
                 Some (win, wb', d', n', tr')"
              by (subst (asm) scanPlayers_menu.simps) (simp add: Let_def)
            from "1.IH"(2) [OF pl refl refl rne nup refl refl low M refl refl refl this]
            obtain K2 where
              K2: "\<forall>K\<ge>K2. scanPlayers_menu_upto K up dd bz w team (Suc player) wb1 d1 n1 t1 =
                 Done (win, wb', d', n') tr'"
              by blast
            from menuLoop_upto_complete [OF M] obtain K1 where
              K1: "\<forall>K\<ge>K1. menuLoop_upto K dd w wb d (Suc (Suc n)) ?tr2 = Done (wb1, d1, n1) t1"
              by blast
            have "\<forall>K\<ge>max K1 K2. scanPlayers_menu_upto K up dd bz w team player wb d n tr =
                Done (win, wb', d', n') tr'"
            proof (intro allI impI)
              fix K
              assume "max K1 K2 \<le> K"
              then have "K1 \<le> K" "K2 \<le> K"
                by simp_all
              with K1 K2 have
                "menuLoop_upto K dd w wb d (Suc (Suc n)) ?tr2 = Done (wb1, d1, n1) t1"
                "scanPlayers_menu_upto K up dd bz w team (Suc player) wb1 d1 n1 t1 =
                   Done (win, wb', d', n') tr'"
                by simp_all
              with pl rne nup low show
                "scanPlayers_menu_upto K up dd bz w team player wb d n tr =
                   Done (win, wb', d', n') tr'"
                by (subst scanPlayers_menu_upto.simps) (simp add: Let_def)
            qed
            then show ?thesis
              by blast
          qed
        qed
      qed
    qed
  qed
qed

lemma scanTeams_menu_upto_events:
  "(\<exists>new. events (scanTeams_menu_upto K up dd bz w team wb d n tr) = tr @ new \<and>
      (\<forall>e\<in>set new. \<forall>pin x. e \<noteq> DigitalWrite pin x)) \<and>
   (\<forall>t. scanTeams_menu_upto K up dd bz w team wb d n tr \<noteq> Running InWait t) \<and>
   (\<forall>t' p' st tr'. scanTeams_menu_upto K up dd bz w team wb d n tr =
        Done (Some (t', p'), st) tr' \<longrightarrow> t' < numTeams \<and> p' < numPlayers)"
proof (induction K up dd bz w team wb d n tr rule: scanTeams_menu_upto.induct)
  case (1 K up dd bz w team wb d n tr)
  let ?X = "scanTeams_menu_upto K up dd bz w team wb d n tr"
  let ?P = "scanPlayers_menu_upto K up dd bz w team 0 wb d n tr"
  note pe = scanPlayers_menu_upto_events [of K up dd bz w team 0 wb d n tr]
  from pe obtain pev where pev: "events ?P = tr @ pev"
    "\<forall>e\<in>set pev. \<forall>pin x. e \<noteq> DigitalWrite pin x"
    by blast
  show ?case
  proof (cases "team < numTeams")
    case False
    then have "?X = Done (None, wb, d, n) tr"
      by (subst scanTeams_menu_upto.simps) simp
    then show ?thesis
      by simp
  next
    case tm: True
    show ?thesis
    proof (cases ?P)
      case (Running ph t)
      with tm have X: "?X = Running ph t"
        by (subst scanTeams_menu_upto.simps) simp
      from Running pe have "ph \<noteq> InWait"
        by auto
      with X Running pev show ?thesis
        by auto
    next
      case (Done r t)
      obtain win wb1 d1 n1 where r: "r = (win, wb1, d1, n1)"
        by (cases r) auto
      show ?thesis
      proof (cases win)
        case (Some x)
        obtain t' p' where x: "x = (t', p')"
          by (cases x) auto
        from Done r Some tm have X: "?X = Done (Some x, wb1, d1, n1) t"
          by (subst scanTeams_menu_upto.simps) simp
        from Done r Some x pe have "t' = team" "p' < numPlayers"
          by auto
        with X x tm Done pev show ?thesis
          by auto
      next
        case None
        with Done r have P: "?P = Done (None, wb1, d1, n1) t"
          by simp
        with tm have eq: "?X = scanTeams_menu_upto K up dd bz w (Suc team) wb1 d1 n1 t"
          by (subst scanTeams_menu_upto.simps) simp
        note IH = "1.IH" [OF tm P refl refl refl refl]
        from IH obtain new where new:
          "events (scanTeams_menu_upto K up dd bz w (Suc team) wb1 d1 n1 t) = t @ new"
          "\<forall>e\<in>set new. \<forall>pin x. e \<noteq> DigitalWrite pin x"
          by blast
        from P pev have t: "t = tr @ pev"
          by simp
        with new pev have "events ?X = tr @ (pev @ new) \<and>
            (\<forall>e\<in>set (pev @ new). \<forall>pin x. e \<noteq> DigitalWrite pin x)"
          by (auto simp: eq)
        then have "\<exists>new. events ?X = tr @ new \<and>
            (\<forall>e\<in>set new. \<forall>pin x. e \<noteq> DigitalWrite pin x)"
          by blast
        with IH show ?thesis
          unfolding eq by blast
      qed
    qed
  qed
qed

lemma scanTeams_menu_upto_sound:
  "scanTeams_menu_upto K up dd bz w team wb d n tr = Done (win, wb', d', n') tr' \<Longrightarrow>
   scanTeams_menu up dd bz w team wb d n tr = Some (win, wb', d', n', tr')"
proof (induction K up dd bz w team wb d n tr rule: scanTeams_menu_upto.induct)
  case (1 K up dd bz w team wb d n tr)
  let ?P = "scanPlayers_menu_upto K up dd bz w team 0 wb d n tr"
  show ?case
  proof (cases "team < numTeams")
    case False
    with "1.prems" show ?thesis
      by (subst scanTeams_menu.simps, subst (asm) scanTeams_menu_upto.simps) simp
  next
    case tm: True
    show ?thesis
    proof (cases ?P)
      case (Running ph t)
      with tm "1.prems" show ?thesis
        by (subst (asm) scanTeams_menu_upto.simps) simp
    next
      case (Done r t)
      obtain winp wb1 d1 n1 where r: "r = (winp, wb1, d1, n1)"
        by (cases r) auto
      from Done r have P: "?P = Done (winp, wb1, d1, n1) t"
        by simp
      note ps = scanPlayers_menu_upto_sound [OF P]
      show ?thesis
      proof (cases winp)
        case (Some x)
        with P tm "1.prems" ps show ?thesis
          by (subst scanTeams_menu.simps, subst (asm) scanTeams_menu_upto.simps) auto
      next
        case None
        with P tm "1.prems" have
          "scanTeams_menu_upto K up dd bz w (Suc team) wb1 d1 n1 t = Done (win, wb', d', n') tr'"
          by (subst (asm) scanTeams_menu_upto.simps) simp
        from "1.IH" [OF tm P [unfolded None] refl refl refl refl this] ps None tm show ?thesis
          by (subst scanTeams_menu.simps) simp
      qed
    qed
  qed
qed

lemma scanTeams_menu_upto_complete:
  "scanTeams_menu up dd bz w team wb d n tr = Some (win, wb', d', n', tr') \<Longrightarrow>
   \<exists>K0. \<forall>K\<ge>K0. scanTeams_menu_upto K up dd bz w team wb d n tr = Done (win, wb', d', n') tr'"
proof (induction up dd bz w team wb d n tr rule: scanTeams_menu.induct)
  case (1 up dd bz w team wb d n tr)
  show ?case
  proof (cases "team < numTeams")
    case False
    with "1.prems" have "\<forall>K\<ge>0. scanTeams_menu_upto K up dd bz w team wb d n tr =
        Done (win, wb', d', n') tr'"
      by (subst scanTeams_menu_upto.simps, subst (asm) scanTeams_menu.simps) simp
    then show ?thesis
      by blast
  next
    case tm: True
    show ?thesis
    proof (cases "scanPlayers_menu up dd bz w team 0 wb d n tr")
      case None
      with tm "1.prems" show ?thesis
        by (subst (asm) scanTeams_menu.simps) simp
    next
      case (Some r)
      obtain winp wb1 d1 n1 t1 where r: "r = (winp, wb1, d1, n1, t1)"
        by (cases r) auto
      from Some r have P: "scanPlayers_menu up dd bz w team 0 wb d n tr =
          Some (winp, wb1, d1, n1, t1)"
        by simp
      from scanPlayers_menu_upto_complete [OF P] obtain K1 where
        K1: "\<forall>K\<ge>K1. scanPlayers_menu_upto K up dd bz w team 0 wb d n tr =
          Done (winp, wb1, d1, n1) t1"
        by blast
      show ?thesis
      proof (cases winp)
        case (Some x)
        with P tm "1.prems" have e: "win = Some x" "wb' = wb1" "d' = d1" "n' = n1" "tr' = t1"
          by (subst (asm) scanTeams_menu.simps, auto)+
        have "\<forall>K\<ge>K1. scanTeams_menu_upto K up dd bz w team wb d n tr =
            Done (win, wb', d', n') tr'"
        proof (intro allI impI)
          fix K
          assume "K1 \<le> K"
          with K1 have "scanPlayers_menu_upto K up dd bz w team 0 wb d n tr =
              Done (winp, wb1, d1, n1) t1"
            by simp
          with tm Some e show "scanTeams_menu_upto K up dd bz w team wb d n tr =
              Done (win, wb', d', n') tr'"
            by (subst scanTeams_menu_upto.simps) simp
        qed
        then show ?thesis
          by blast
      next
        case None
        with P tm "1.prems" have
          "scanTeams_menu up dd bz w (Suc team) wb1 d1 n1 t1 = Some (win, wb', d', n', tr')"
          by (subst (asm) scanTeams_menu.simps) simp
        from "1.IH" [OF tm P [unfolded None] refl refl refl refl refl this] obtain K2 where
          K2: "\<forall>K\<ge>K2. scanTeams_menu_upto K up dd bz w (Suc team) wb1 d1 n1 t1 =
            Done (win, wb', d', n') tr'"
          by blast
        have "\<forall>K\<ge>max K1 K2. scanTeams_menu_upto K up dd bz w team wb d n tr =
            Done (win, wb', d', n') tr'"
        proof (intro allI impI)
          fix K
          assume "max K1 K2 \<le> K"
          then have "K1 \<le> K" "K2 \<le> K"
            by simp_all
          with K1 K2 have "scanPlayers_menu_upto K up dd bz w team 0 wb d n tr =
              Done (winp, wb1, d1, n1) t1"
            "scanTeams_menu_upto K up dd bz w (Suc team) wb1 d1 n1 t1 =
              Done (win, wb', d', n') tr'"
            by simp_all
          with tm None show "scanTeams_menu_upto K up dd bz w team wb d n tr =
              Done (win, wb', d', n') tr'"
            by (subst scanTeams_menu_upto.simps) simp
        qed
        then show ?thesis
          by blast
      qed
    qed
  qed
qed

lemma loop_menu_upto_sound:
  assumes "loop_menu_upto K up dd bz g w wb d n tr = Done (wb', d', n') tr'"
  shows "loop_menu up dd bz g w wb d n tr = Some (wb', d', n', tr')"
proof (cases "scanTeams_menu_upto K up dd bz w 0 wb d n tr")
  case (Running ph t)
  with assms show ?thesis
    by (simp add: loop_menu_upto_def)
next
  case (Done r t)
  obtain win wb1 d1 n1 where r: "r = (win, wb1, d1, n1)"
    by (cases r) auto
  from Done r have S: "scanTeams_menu_upto K up dd bz w 0 wb d n tr = Done (win, wb1, d1, n1) t"
    by simp
  note ss = scanTeams_menu_upto_sound [OF S]
  show ?thesis
  proof (cases win)
    case None
    with assms S ss show ?thesis
      by (simp add: loop_menu_upto_def loop_menu_def)
  next
    case (Some x)
    obtain team player where x: "x = (team, player)"
      by (cases x) auto
    let ?on = "[DigitalWrite g LOW, DigitalWrite (pinLED (bz ! team ! player)) HIGH]"
    let ?off = "[DigitalWrite g HIGH, DigitalWrite (pinLED (bz ! team ! player)) LOW]"
    let ?d2 = "if up then potDelayReset (analogRead w n1) else d1"
    from assms S Some x obtain ex tr3 where
      W: "resetWait_menu_upto K dd wb1 w (millisT w n1) ?d2 n1 (t @ ?on) = Done (ex, n') tr3"
      and out: "tr' = tr3 @ ?off" "wb' = wb1" "d' = ?d2"
      by (auto simp: loop_menu_upto_def Let_def split: progress.splits if_splits)
    from resetWait_menu_upto_sound [OF W] out ss Some x show ?thesis
      by (simp add: loop_menu_def Let_def)
  qed
qed

lemma loop_menu_upto_complete:
  assumes "loop_menu up dd bz g w wb d n tr = Some (wb', d', n', tr')"
  shows "\<exists>K0. \<forall>K\<ge>K0. loop_menu_upto K up dd bz g w wb d n tr = Done (wb', d', n') tr'"
proof (cases "scanTeams_menu up dd bz w 0 wb d n tr")
  case None
  with assms show ?thesis
    by (simp add: loop_menu_def)
next
  case (Some r)
  obtain win wb1 d1 n1 t where r: "r = (win, wb1, d1, n1, t)"
    by (cases r) auto
  from Some r have S: "scanTeams_menu up dd bz w 0 wb d n tr = Some (win, wb1, d1, n1, t)"
    by simp
  from scanTeams_menu_upto_complete [OF S] obtain K1 where
    K1: "\<forall>K\<ge>K1. scanTeams_menu_upto K up dd bz w 0 wb d n tr = Done (win, wb1, d1, n1) t"
    by blast
  show ?thesis
  proof (cases win)
    case None
    with assms S have e: "wb' = wb1" "d' = d1" "n' = n1" "tr' = t"
      by (simp_all add: loop_menu_def)
    from K1 None e have "\<forall>K\<ge>K1. loop_menu_upto K up dd bz g w wb d n tr =
        Done (wb', d', n') tr'"
      by (simp add: loop_menu_upto_def)
    then show ?thesis
      by blast
  next
    case win: (Some x)
    obtain team player where x: "x = (team, player)"
      by (cases x) auto
    let ?on = "[DigitalWrite g LOW, DigitalWrite (pinLED (bz ! team ! player)) HIGH]"
    let ?off = "[DigitalWrite g HIGH, DigitalWrite (pinLED (bz ! team ! player)) LOW]"
    let ?d2 = "if up then potDelayReset (analogRead w n1) else d1"
    from assms S win x obtain ex tr3 where
      W: "resetWait_menu dd wb1 w (millisT w n1) ?d2 n1 (t @ ?on) = Some (ex, n', tr3)"
      and out: "tr' = tr3 @ ?off" "wb' = wb1" "d' = ?d2"
      by (auto simp: loop_menu_def Let_def split: option.splits if_splits)
    from resetWait_menu_upto_complete [OF W] obtain K2 where
      K2: "\<forall>K\<ge>K2. resetWait_menu_upto K dd wb1 w (millisT w n1) ?d2 n1 (t @ ?on) =
        Done (ex, n') tr3"
      by blast
    have "\<forall>K\<ge>max K1 K2. loop_menu_upto K up dd bz g w wb d n tr = Done (wb', d', n') tr'"
    proof (intro allI impI)
      fix K
      assume "max K1 K2 \<le> K"
      then have "K1 \<le> K" "K2 \<le> K"
        by simp_all
      with K1 K2 have "scanTeams_menu_upto K up dd bz w 0 wb d n tr = Done (win, wb1, d1, n1) t"
        "resetWait_menu_upto K dd wb1 w (millisT w n1) ?d2 n1 (t @ ?on) = Done (ex, n') tr3"
        by simp_all
      with win x out show "loop_menu_upto K up dd bz g w wb d n tr = Done (wb', d', n') tr'"
        by (simp add: loop_menu_upto_def Let_def)
    qed
    then show ?thesis
      by blast
  qed
qed

lemma loop_menu_upto_led:
  assumes leds: "\<forall>team<numTeams. \<forall>player<numPlayers. pinLED (bz ! team ! player) \<noteq> g"
  shows "\<exists>new. events (loop_menu_upto K up dd bz g w wb d n tr) = tr @ new \<and>
     ledOK_menu g HIGH new \<and>
     ledLevel g HIGH new = ledWanted (loop_menu_upto K up dd bz g w wb d n tr) \<and>
     writesOK (loop_menu_upto K up dd bz g w wb d n tr) (greenWrites g new)"
proof -
  let ?X = "loop_menu_upto K up dd bz g w wb d n tr"
  let ?S = "scanTeams_menu_upto K up dd bz w 0 wb d n tr"
  note se = scanTeams_menu_upto_events [of K up dd bz w 0 wb d n tr]
  from se obtain sev where sev: "events ?S = tr @ sev"
    "\<forall>e\<in>set sev. \<forall>pin x. e \<noteq> DigitalWrite pin x"
    by blast
  note sl = reads_led [OF sev(2)]
  show ?thesis
  proof (cases ?S)
    case (Running ph t)
    with se have ph: "ph = InMenu"
      by (cases ph) auto
    from Running ph have X: "?X = Running InMenu t"
      by (simp add: loop_menu_upto_def)
    from Running sev sl have "events ?X = tr @ sev \<and> ledOK_menu g HIGH sev \<and>
        ledLevel g HIGH sev = ledWanted ?X \<and> writesOK ?X (greenWrites g sev)"
      by (simp add: X)
    then show ?thesis
      by blast
  next
    case (Done r t)
    obtain win wb1 d1 n1 where r: "r = (win, wb1, d1, n1)"
      by (cases r) auto
    from Done r have S: "?S = Done (win, wb1, d1, n1) t"
      by simp
    show ?thesis
    proof (cases win)
      case None
      with S have X: "?X = Done (wb1, d1, n1) t"
        by (simp add: loop_menu_upto_def)
      from S sev sl have "events ?X = tr @ sev \<and> ledOK_menu g HIGH sev \<and>
          ledLevel g HIGH sev = ledWanted ?X \<and> writesOK ?X (greenWrites g sev)"
        by (simp add: X)
      then show ?thesis
        by blast
    next
      case (Some x)
      obtain team player where x: "x = (team, player)"
        by (cases x) auto
      from S Some x se have "team < numTeams" "player < numPlayers"
        by auto
      with leds have led: "pinLED (bz ! team ! player) \<noteq> g"
        by simp
      let ?on = "[DigitalWrite g LOW, DigitalWrite (pinLED (bz ! team ! player)) HIGH]"
      let ?off = "[DigitalWrite g HIGH, DigitalWrite (pinLED (bz ! team ! player)) LOW]"
      let ?d2 = "if up then potDelayReset (analogRead w n1) else d1"
      let ?W = "resetWait_menu_upto K dd wb1 w (millisT w n1) ?d2 n1 (t @ ?on)"
      from resetWait_menu_upto_events [of K dd wb1 w "millisT w n1" ?d2 n1 "t @ ?on"]
      obtain wev where
        wev: "events ?W = (t @ ?on) @ wev" "\<forall>e\<in>set wev. \<exists>r. e = ReadWhite r"
        by blast
      note wl = white_reads_led [OF wev(2)]
      have wm: "ledOK_menu g LOW wev"
        by (rule ledOK_imp_menu [OF wl(1)])
      from S sev have t: "t = tr @ sev"
        by simp
      show ?thesis
      proof (cases ?W)
        case (Running ph tr3)
        with resetWait_menu_upto_phase [of K dd wb1 w "millisT w n1" ?d2 n1 "t @ ?on" tr3]
        have ph: "ph = InWait"
          by (cases ph) simp_all
        from Running S Some x ph have X: "?X = Running InWait tr3"
          by (simp add: loop_menu_upto_def Let_def)
        from Running wev(1) t have "tr3 = tr @ (sev @ ?on @ wev)"
          by simp
        moreover have "ledOK_menu g HIGH (sev @ ?on @ wev)"
          using led sl wl wm by (simp add: ledOK_menu_append ledLevel_append)
        moreover have "ledLevel g HIGH (sev @ ?on @ wev) = LOW"
          using led sl wl by (simp add: ledLevel_append)
        moreover have "greenWrites g (sev @ ?on @ wev) = [LOW]"
          using led sl wl by (simp add: greenWrites_append)
        ultimately have "events ?X = tr @ (sev @ ?on @ wev) \<and>
            ledOK_menu g HIGH (sev @ ?on @ wev) \<and>
            ledLevel g HIGH (sev @ ?on @ wev) = ledWanted ?X \<and>
            writesOK ?X (greenWrites g (sev @ ?on @ wev))"
          by (simp add: X)
        then show ?thesis
          by blast
      next
        case (Done r2 tr3)
        obtain ex n2 where r2: "r2 = (ex, n2)"
          by (cases r2) auto
        from Done r2 S Some x have X: "?X = Done (wb1, ?d2, n2) (tr3 @ ?off)"
          by (simp add: loop_menu_upto_def Let_def)
        from Done wev(1) t have "tr3 @ ?off = tr @ (sev @ ?on @ wev @ ?off)"
          by simp
        moreover have "ledOK_menu g HIGH (sev @ ?on @ wev @ ?off)"
          using led sl wl wm by (simp add: ledOK_menu_append ledLevel_append)
        moreover have "ledLevel g HIGH (sev @ ?on @ wev @ ?off) = HIGH"
          using led sl wl by (simp add: ledLevel_append)
        moreover have "greenWrites g (sev @ ?on @ wev @ ?off) = [LOW, HIGH]"
          using led sl wl by (simp add: greenWrites_append)
        ultimately have "events ?X = tr @ (sev @ ?on @ wev @ ?off) \<and>
            ledOK_menu g HIGH (sev @ ?on @ wev @ ?off) \<and>
            ledLevel g HIGH (sev @ ?on @ wev @ ?off) = ledWanted ?X \<and>
            writesOK ?X (greenWrites g (sev @ ?on @ wev @ ?off))"
          by (simp add: X)
        then show ?thesis
          by blast
      qed
    qed
  qed
qed

lemma passes_menu_upto_led:
  assumes leds: "\<forall>team<numTeams. \<forall>player<numPlayers. pinLED (bz ! team ! player) \<noteq> g"
  shows "\<exists>new. events (passes_menu_upto k K up dd bz g w wb d n tr) = tr @ new \<and>
     ledOK_menu g HIGH new \<and>
     ledLevel g HIGH new = ledWanted (passes_menu_upto k K up dd bz g w wb d n tr)"
proof (induction k arbitrary: wb d n tr)
  case 0
  then show ?case by simp
next
  case (Suc k)
  let ?X = "loop_menu_upto K up dd bz g w wb d n tr"
  from loop_menu_upto_led [OF leds, where K = K and up = up and dd = dd and w = w
      and wb = wb and d = d and n = n and tr = tr] obtain a where
    a: "events ?X = tr @ a" "ledOK_menu g HIGH a" "ledLevel g HIGH a = ledWanted ?X"
    by blast
  show ?case
  proof (cases ?X)
    case (Running ph tr3)
    with a have "events (passes_menu_upto (Suc k) K up dd bz g w wb d n tr) = tr @ a \<and>
        ledOK_menu g HIGH a \<and>
        ledLevel g HIGH a = ledWanted (passes_menu_upto (Suc k) K up dd bz g w wb d n tr)"
      by (cases ph) simp_all
    then show ?thesis
      by blast
  next
    case (Done r tr1)
    obtain wb1 d1 n1 where r: "r = (wb1, d1, n1)"
      by (cases r) auto
    let ?Y = "passes_menu_upto k K up dd bz g w wb1 d1 n1 tr1"
    from Suc.IH [of wb1 d1 n1 tr1] obtain b where
      b: "events ?Y = tr1 @ b" "ledOK_menu g HIGH b" "ledLevel g HIGH b = ledWanted ?Y"
      by blast
    from Done a have "tr1 = tr @ a" "ledLevel g HIGH a = HIGH"
      by simp_all
    with a b Done r have
      "events (passes_menu_upto (Suc k) K up dd bz g w wb d n tr) = tr @ (a @ b) \<and>
        ledOK_menu g HIGH (a @ b) \<and>
        ledLevel g HIGH (a @ b) =
          ledWanted (passes_menu_upto (Suc k) K up dd bz g w wb d n tr)"
      by (simp add: ledOK_menu_append ledLevel_append)
    then show ?thesis
      by blast
  qed
qed

lemma sketch_menu_upto_led:
  assumes leds: "\<forall>team<numTeams. \<forall>player<numPlayers. pinLED (bz ! team ! player) \<noteq> pinLED wb"
  shows "ledOK_menu (pinLED wb) lv0 (events (sketch_menu_upto k K up dd bz wb d w)) \<and>
     ledLevel (pinLED wb) lv0 (events (sketch_menu_upto k K up dd bz wb d w)) =
       ledWanted (sketch_menu_upto k K up dd bz wb d w)"
proof -
  obtain g tr0 where st: "setup_sketch bz wb = (g, tr0)"
    by (cases "setup_sketch bz wb") auto
  with setup_sketch_events(1) [OF leds] setup_sketch_events(3) [OF leds, of lv0]
    setup_sketch_events(4) [OF leds, of lv0] have
    g: "g = pinLED wb" and ok0: "ledOK (pinLED wb) lv0 tr0"
    and l0: "ledLevel (pinLED wb) lv0 tr0 = HIGH"
    by simp_all
  from st g have X: "sketch_menu_upto k K up dd bz wb d w =
      passes_menu_upto k K up dd bz (pinLED wb) w wb d 0 tr0"
    by (simp add: sketch_menu_upto_def)
  from passes_menu_upto_led [OF leds, where k = k and K = K and up = up and dd = dd
      and w = w and wb = wb and d = d and n = 0 and tr = tr0] obtain new where
    "events (passes_menu_upto k K up dd bz (pinLED wb) w wb d 0 tr0) = tr0 @ new"
    "ledOK_menu (pinLED wb) HIGH new"
    "ledLevel (pinLED wb) HIGH new =
       ledWanted (passes_menu_upto k K up dd bz (pinLED wb) w wb d 0 tr0)"
    by blast
  with ledOK_imp_menu [OF ok0] l0 show ?thesis
    by (simp add: X ledOK_menu_append ledLevel_append)
qed

lemma loop_menu_events:
  assumes leds: "\<forall>team<numTeams. \<forall>player<numPlayers. pinLED (bz ! team ! player) \<noteq> g"
    and run: "loop_menu up dd bz g w wb d n tr = Some (wb', d', n', tr')"
  shows "\<exists>new. tr' = tr @ new \<and> ledOK_menu g HIGH new \<and> ledLevel g HIGH new = HIGH \<and>
     (greenWrites g new = [] \<or> greenWrites g new = [LOW, HIGH])"
proof -
  from loop_menu_upto_complete [OF run] obtain K where
    X: "loop_menu_upto K up dd bz g w wb d n tr = Done (wb', d', n') tr'"
    by blast
  from loop_menu_upto_led [OF leds, where K = K and up = up and dd = dd and w = w
      and wb = wb and d = d and n = n and tr = tr] show ?thesis
    by (simp add: X)
qed

lemma passes_pot_upto_sound:
  "passes_pot_upto k K dd pressed bz wb g w n tr = Done n' tr' \<Longrightarrow>
   passes_pot k dd pressed bz wb g w n tr = Some (n', tr')"
proof (induction k arbitrary: n tr)
  case 0
  then show ?case by simp
next
  case (Suc k)
  show ?case
  proof (cases "loop_pot_upto K dd pressed bz wb g w n tr")
    case (Running ph t)
    with Suc.prems show ?thesis
      by simp
  next
    case (Done n1 t1)
    with Suc.prems have "passes_pot_upto k K dd pressed bz wb g w n1 t1 = Done n' tr'"
      by simp
    from Suc.IH [OF this] loop_pot_upto_sound [OF Done] show ?thesis
      by simp
  qed
qed

lemma passes_pot_upto_complete:
  "passes_pot k dd pressed bz wb g w n tr = Some (n', tr') \<Longrightarrow>
   \<exists>K0. \<forall>K\<ge>K0. passes_pot_upto k K dd pressed bz wb g w n tr = Done n' tr'"
proof (induction k arbitrary: n tr)
  case 0
  then show ?case by simp
next
  case (Suc k)
  from Suc.prems obtain n1 t1 where
    L: "loop_pot dd pressed bz wb g w n tr = Some (n1, t1)"
    and P: "passes_pot k dd pressed bz wb g w n1 t1 = Some (n', tr')"
    by (auto split: option.splits)
  from loop_pot_upto_complete [OF L] obtain K1 where
    K1: "\<forall>K\<ge>K1. loop_pot_upto K dd pressed bz wb g w n tr = Done n1 t1"
    by blast
  from Suc.IH [OF P] obtain K2 where
    K2: "\<forall>K\<ge>K2. passes_pot_upto k K dd pressed bz wb g w n1 t1 = Done n' tr'"
    by blast
  have "\<forall>K\<ge>max K1 K2. passes_pot_upto (Suc k) K dd pressed bz wb g w n tr = Done n' tr'"
  proof (intro allI impI)
    fix K
    assume "max K1 K2 \<le> K"
    then have "K1 \<le> K" "K2 \<le> K"
      by simp_all
    with K1 K2 show "passes_pot_upto (Suc k) K dd pressed bz wb g w n tr = Done n' tr'"
      by simp
  qed
  then show ?case
    by blast
qed

lemma passes_menu_upto_sound:
  "passes_menu_upto k K up dd bz g w wb d n tr = Done (wb', d', n') tr' \<Longrightarrow>
   passes_menu k up dd bz g w wb d n tr = Some (wb', d', n', tr')"
proof (induction k arbitrary: wb d n tr)
  case 0
  then show ?case by simp
next
  case (Suc k)
  show ?case
  proof (cases "loop_menu_upto K up dd bz g w wb d n tr")
    case (Running ph t)
    with Suc.prems show ?thesis
      by simp
  next
    case (Done r t1)
    obtain wb1 d1 n1 where r: "r = (wb1, d1, n1)"
      by (cases r) auto
    from Done r have D: "loop_menu_upto K up dd bz g w wb d n tr = Done (wb1, d1, n1) t1"
      by simp
    with Suc.prems have
      "passes_menu_upto k K up dd bz g w wb1 d1 n1 t1 = Done (wb', d', n') tr'"
      by simp
    from Suc.IH [OF this] loop_menu_upto_sound [OF D] show ?thesis
      by simp
  qed
qed

lemma passes_menu_upto_complete:
  "passes_menu k up dd bz g w wb d n tr = Some (wb', d', n', tr') \<Longrightarrow>
   \<exists>K0. \<forall>K\<ge>K0. passes_menu_upto k K up dd bz g w wb d n tr = Done (wb', d', n') tr'"
proof (induction k arbitrary: wb d n tr)
  case 0
  then show ?case by simp
next
  case (Suc k)
  from Suc.prems obtain wb1 d1 n1 t1 where
    L: "loop_menu up dd bz g w wb d n tr = Some (wb1, d1, n1, t1)"
    and P: "passes_menu k up dd bz g w wb1 d1 n1 t1 = Some (wb', d', n', tr')"
    by (auto split: option.splits)
  from loop_menu_upto_complete [OF L] obtain K1 where
    K1: "\<forall>K\<ge>K1. loop_menu_upto K up dd bz g w wb d n tr = Done (wb1, d1, n1) t1"
    by blast
  from Suc.IH [OF P] obtain K2 where
    K2: "\<forall>K\<ge>K2. passes_menu_upto k K up dd bz g w wb1 d1 n1 t1 = Done (wb', d', n') tr'"
    by blast
  have "\<forall>K\<ge>max K1 K2. passes_menu_upto (Suc k) K up dd bz g w wb d n tr =
      Done (wb', d', n') tr'"
  proof (intro allI impI)
    fix K
    assume "max K1 K2 \<le> K"
    then have "K1 \<le> K" "K2 \<le> K"
      by simp_all
    with K1 K2 show "passes_menu_upto (Suc k) K up dd bz g w wb d n tr =
        Done (wb', d', n') tr'"
      by simp
  qed
  then show ?case
    by blast
qed

lemma sketch_upto_agree:
  "sketch_pot_upto k K dd pressed bz wb w = Done n' tr' \<Longrightarrow>
     sketch_pot k dd pressed bz wb w = Some (n', tr')"
  "sketch_pot k dd pressed bz wb w = Some (n', tr') \<Longrightarrow>
     \<exists>K0. \<forall>K\<ge>K0. sketch_pot_upto k K dd pressed bz wb w = Done n' tr'"
  "sketch_menu_upto k K up dd bz wb d w = Done (wb', d', n') tr' \<Longrightarrow>
     sketch_menu k up dd bz wb d w = Some (wb', d', n', tr')"
  "sketch_menu k up dd bz wb d w = Some (wb', d', n', tr') \<Longrightarrow>
     \<exists>K0. \<forall>K\<ge>K0. sketch_menu_upto k K up dd bz wb d w = Done (wb', d', n') tr'"
  by (auto simp: sketch_pot_upto_def sketch_pot_def sketch_menu_upto_def sketch_menu_def
      split: prod.splits
      intro: passes_pot_upto_sound passes_pot_upto_complete passes_menu_upto_sound
        passes_menu_upto_complete)

lemma leds_menu:
  "\<forall>team<numTeams. \<forall>player<numPlayers.
     pinLED (buzzers_menu ! team ! player) \<noteq> pinLED whiteButton_menu"
  by (simp add: numTeams_def numPlayers_def all_less_2 all_less_4 buzzers_menu_def
      whiteButton_menu_def mkButton_def)

subsection \<open>The level of the green LED\<close>

text \<open>
  C10 as it is worded has the green LED HIGH exactly when the controller accepts buzzes.
  In the menu revision the configuration menu is entered from the scan, with the green LED
  HIGH, and no statement of the menu writes the LED or reads a buzzer.  Here the white
  button reads LOW at call 1 and at call 4, and buzzer (0, 0) reads LOW, that is pressed,
  at calls 2, 3 and 4: after four calls the controller is in the menu, calls 2 to 4 read
  the white button only, the press is never seen, and the pass ends without one write to
  the green LED, which has been HIGH all along.
\<close>

theorem green_led_high_in_the_menu_counterexample:
  "loop_menu False debounceDelay_menu buzzers_menu 5
     (world_demo (\<lambda>n pin. if pin = 31 \<and> 2 \<le> n \<and> n \<le> 4 \<or> pin = 7 \<and> (n = 1 \<or> n = 4)
                           then LOW else HIGH)) whiteButton_menu 5000 0 [] =
     Some (whiteButton_menu\<lparr>buttonState := HIGH, lastButtonState := HIGH\<rparr>, - 1, 19,
       [ReadBuzzer 0 0 HIGH, ReadWhite LOW, ReadWhite HIGH, ReadWhite HIGH, ReadWhite LOW,
        ReadBuzzer 0 1 HIGH, ReadWhite HIGH, ReadBuzzer 0 2 HIGH, ReadWhite HIGH,
        ReadBuzzer 0 3 HIGH, ReadWhite HIGH, ReadBuzzer 1 0 HIGH, ReadWhite HIGH,
        ReadBuzzer 1 1 HIGH, ReadWhite HIGH, ReadBuzzer 1 2 HIGH, ReadWhite HIGH,
        ReadBuzzer 1 3 HIGH, ReadWhite HIGH]) \<and>
   loop_menu_upto 4 False debounceDelay_menu buzzers_menu 5
     (world_demo (\<lambda>n pin. if pin = 31 \<and> 2 \<le> n \<and> n \<le> 4 \<or> pin = 7 \<and> (n = 1 \<or> n = 4)
                           then LOW else HIGH)) whiteButton_menu 5000 0 [] =
     Running InMenu [ReadBuzzer 0 0 HIGH, ReadWhite LOW, ReadWhite HIGH, ReadWhite HIGH] \<and>
   map (\<lambda>n. poll debounceDelay_menu
     (world_demo (\<lambda>n pin. if pin = 31 \<and> 2 \<le> n \<and> n \<le> 4 \<or> pin = 7 \<and> (n = 1 \<or> n = 4)
                           then LOW else HIGH)) n (buzzers_menu ! 0 ! 0)) [2, 3, 4] =
     [LOW, LOW, LOW] \<and>
   greenWrites 5
       [ReadBuzzer 0 0 HIGH, ReadWhite LOW, ReadWhite HIGH, ReadWhite HIGH, ReadWhite LOW,
        ReadBuzzer 0 1 HIGH, ReadWhite HIGH, ReadBuzzer 0 2 HIGH, ReadWhite HIGH,
        ReadBuzzer 0 3 HIGH, ReadWhite HIGH, ReadBuzzer 1 0 HIGH, ReadWhite HIGH,
        ReadBuzzer 1 1 HIGH, ReadWhite HIGH, ReadBuzzer 1 2 HIGH, ReadWhite HIGH,
        ReadBuzzer 1 3 HIGH, ReadWhite HIGH] = [] \<and>
   ledLevel 5 HIGH [ReadBuzzer 0 0 HIGH, ReadWhite LOW, ReadWhite HIGH, ReadWhite HIGH] = HIGH"
proof -
  let ?w = "world_demo (\<lambda>n pin. if pin = 31 \<and> 2 \<le> n \<and> n \<le> 4 \<or> pin = 7 \<and> (n = 1 \<or> n = 4)
                           then LOW else HIGH)"
  let ?TR = "[ReadBuzzer 0 0 HIGH, ReadWhite LOW, ReadWhite HIGH, ReadWhite HIGH, ReadWhite LOW,
        ReadBuzzer 0 1 HIGH, ReadWhite HIGH, ReadBuzzer 0 2 HIGH, ReadWhite HIGH,
        ReadBuzzer 0 3 HIGH, ReadWhite HIGH, ReadBuzzer 1 0 HIGH, ReadWhite HIGH,
        ReadBuzzer 1 1 HIGH, ReadWhite HIGH, ReadBuzzer 1 2 HIGH, ReadWhite HIGH,
        ReadBuzzer 1 3 HIGH, ReadWhite HIGH]"
  have "loop_menu_upto 19 False debounceDelay_menu buzzers_menu 5 ?w whiteButton_menu 5000 0 [] =
      Done (whiteButton_menu\<lparr>buttonState := HIGH, lastButtonState := HIGH\<rparr>, - 1, 19) ?TR"
    by code_simp
  then have A: "loop_menu False debounceDelay_menu buzzers_menu 5 ?w whiteButton_menu 5000 0 [] =
      Some (whiteButton_menu\<lparr>buttonState := HIGH, lastButtonState := HIGH\<rparr>, - 1, 19, ?TR)"
    by (rule loop_menu_upto_sound)
  have B: "loop_menu_upto 4 False debounceDelay_menu buzzers_menu 5 ?w whiteButton_menu 5000 0 [] =
      Running InMenu [ReadBuzzer 0 0 HIGH, ReadWhite LOW, ReadWhite HIGH, ReadWhite HIGH]"
    by code_simp
  have C: "map (\<lambda>n. poll debounceDelay_menu ?w n (buzzers_menu ! 0 ! 0)) [2, 3, 4] =
      [LOW, LOW, LOW]"
    by code_simp
  have D: "greenWrites 5 ?TR = []"
    by simp
  have E: "ledLevel 5 HIGH [ReadBuzzer 0 0 HIGH, ReadWhite LOW, ReadWhite HIGH, ReadWhite HIGH]
      = HIGH"
    by simp
  from A B C D E show ?thesis
    by (intro conjI)
qed

text \<open>
  C10, amended.  In the LED-based revisions (initial, LCD and menu), whose buzzer LEDs are
  on other pins than the green LED: \<^verbatim>\<open>setup()\<close> sets \<^verbatim>\<open>pinGreenLED\<close> to the white
  button's LED pin and its last write drives the green LED HIGH, no earlier write touches
  it.  Stop the controller after any number \<open>K\<close> of calls of the reader, whether or not
  the pass it is in ever returns: the green LED is LOW when the controller is in the reset
  wait (in the menu revision the wait for the release belongs to it) and HIGH when it is
  not, that is between two passes and, in the menu revision, in the configuration menu;
  every buzzer has been read while the LED was HIGH; in the initial and the LCD revision
  every read of the white button happened while it was LOW; and the pass has written the
  green LED not at all (no buzz so far, or in the menu), LOW (in the wait), or LOW and then
  HIGH (the wait left).  So it is for the sketch from its start through any number of
  passes.  The run stopped after \<open>K\<close> calls agrees with the run of the loops themselves:
  what it gives as finished is what they return, and what they return it gives for every
  \<open>K\<close> large enough.
\<close>

theorem green_led_low_in_the_wait:
  assumes "\<forall>team<numTeams. \<forall>player<numPlayers. pinLED (bz ! team ! player) \<noteq> pinLED wb"
  shows "fst (setup_sketch bz wb) = pinLED wb \<and>
    (\<exists>pre. snd (setup_sketch bz wb) = pre @ [DigitalWrite (pinLED wb) HIGH] \<and>
           greenWrites (pinLED wb) pre = []) \<and>
    (loop_pot dd pressed bz wb (pinLED wb) w n tr = Some (n', tr') \<longrightarrow>
       (\<exists>new. tr' = tr @ new \<and> ledOK (pinLED wb) HIGH new \<and>
          ledLevel (pinLED wb) HIGH new = HIGH \<and>
          (greenWrites (pinLED wb) new = [] \<or> greenWrites (pinLED wb) new = [LOW, HIGH]))) \<and>
    (sketch_pot k dd pressed bz wb w = Some (n', tr') \<longrightarrow>
       ledOK (pinLED wb) lv0 tr' \<and> ledLevel (pinLED wb) lv0 tr' = HIGH) \<and>
    (\<exists>new. events (loop_pot_upto K dd pressed bz wb (pinLED wb) w n tr) = tr @ new \<and>
       ledOK (pinLED wb) HIGH new \<and>
       ledLevel (pinLED wb) HIGH new =
         ledWanted (loop_pot_upto K dd pressed bz wb (pinLED wb) w n tr) \<and>
       writesOK (loop_pot_upto K dd pressed bz wb (pinLED wb) w n tr)
         (greenWrites (pinLED wb) new)) \<and>
    (ledOK (pinLED wb) lv0 (events (sketch_pot_upto k K dd pressed bz wb w)) \<and>
     ledLevel (pinLED wb) lv0 (events (sketch_pot_upto k K dd pressed bz wb w)) =
       ledWanted (sketch_pot_upto k K dd pressed bz wb w)) \<and>
    (loop_pot_upto K dd pressed bz wb (pinLED wb) w n tr = Done n' tr' \<longrightarrow>
       loop_pot dd pressed bz wb (pinLED wb) w n tr = Some (n', tr')) \<and>
    (loop_pot dd pressed bz wb (pinLED wb) w n tr = Some (n', tr') \<longrightarrow>
       (\<exists>K0. \<forall>K1\<ge>K0. loop_pot_upto K1 dd pressed bz wb (pinLED wb) w n tr = Done n' tr')) \<and>
    (sketch_pot_upto k K dd pressed bz wb w = Done n' tr' \<longrightarrow>
       sketch_pot k dd pressed bz wb w = Some (n', tr')) \<and>
    (sketch_pot k dd pressed bz wb w = Some (n', tr') \<longrightarrow>
       (\<exists>K0. \<forall>K1\<ge>K0. sketch_pot_upto k K1 dd pressed bz wb w = Done n' tr')) \<and>
    (\<exists>new. events (loop_menu_upto K up dd bz (pinLED wb) w wbm d n tr) = tr @ new \<and>
       ledOK_menu (pinLED wb) HIGH new \<and>
       ledLevel (pinLED wb) HIGH new =
         ledWanted (loop_menu_upto K up dd bz (pinLED wb) w wbm d n tr) \<and>
       writesOK (loop_menu_upto K up dd bz (pinLED wb) w wbm d n tr)
         (greenWrites (pinLED wb) new)) \<and>
    (ledOK_menu (pinLED wb) lv0 (events (sketch_menu_upto k K up dd bz wb d w)) \<and>
     ledLevel (pinLED wb) lv0 (events (sketch_menu_upto k K up dd bz wb d w)) =
       ledWanted (sketch_menu_upto k K up dd bz wb d w)) \<and>
    (loop_menu up dd bz (pinLED wb) w wbm d n tr = Some (wb', d', n', tr') \<longrightarrow>
       (\<exists>new. tr' = tr @ new \<and> ledOK_menu (pinLED wb) HIGH new \<and>
          ledLevel (pinLED wb) HIGH new = HIGH \<and>
          (greenWrites (pinLED wb) new = [] \<or> greenWrites (pinLED wb) new = [LOW, HIGH]))) \<and>
    (loop_menu_upto K up dd bz (pinLED wb) w wbm d n tr = Done (wb', d', n') tr' \<longrightarrow>
       loop_menu up dd bz (pinLED wb) w wbm d n tr = Some (wb', d', n', tr')) \<and>
    (loop_menu up dd bz (pinLED wb) w wbm d n tr = Some (wb', d', n', tr') \<longrightarrow>
       (\<exists>K0. \<forall>K1\<ge>K0. loop_menu_upto K1 up dd bz (pinLED wb) w wbm d n tr =
          Done (wb', d', n') tr')) \<and>
    (sketch_menu_upto k K up dd bz wb d w = Done (wb', d', n') tr' \<longrightarrow>
       sketch_menu k up dd bz wb d w = Some (wb', d', n', tr')) \<and>
    (sketch_menu k up dd bz wb d w = Some (wb', d', n', tr') \<longrightarrow>
       (\<exists>K0. \<forall>K1\<ge>K0. sketch_menu_upto k K1 up dd bz wb d w = Done (wb', d', n') tr'))"
proof -
  have c1: "fst (setup_sketch bz wb) = pinLED wb"
    by (rule setup_sketch_events(1) [OF assms])
  have c2: "\<exists>pre. snd (setup_sketch bz wb) = pre @ [DigitalWrite (pinLED wb) HIGH] \<and>
           greenWrites (pinLED wb) pre = []"
    by (rule setup_sketch_events(2) [OF assms])
  have c3: "loop_pot dd pressed bz wb (pinLED wb) w n tr = Some (n', tr') \<longrightarrow>
       (\<exists>new. tr' = tr @ new \<and> ledOK (pinLED wb) HIGH new \<and>
          ledLevel (pinLED wb) HIGH new = HIGH \<and>
          (greenWrites (pinLED wb) new = [] \<or> greenWrites (pinLED wb) new = [LOW, HIGH]))"
    using loop_pot_events [OF assms] by blast
  have c4: "sketch_pot k dd pressed bz wb w = Some (n', tr') \<longrightarrow>
       ledOK (pinLED wb) lv0 tr' \<and> ledLevel (pinLED wb) lv0 tr' = HIGH"
  proof
    assume run: "sketch_pot k dd pressed bz wb w = Some (n', tr')"
    obtain g tr0 where st: "setup_sketch bz wb = (g, tr0)"
      by (cases "setup_sketch bz wb") auto
    with setup_sketch_events(1) [OF assms] setup_sketch_events(3) [OF assms, of lv0]
      setup_sketch_events(4) [OF assms, of lv0] have
      g: "g = pinLED wb" and ok0: "ledOK (pinLED wb) lv0 tr0"
      and l0: "ledLevel (pinLED wb) lv0 tr0 = HIGH"
      by simp_all
    from run st g have "passes_pot k dd pressed bz wb (pinLED wb) w 0 tr0 = Some (n', tr')"
      by (simp add: sketch_pot_def)
    from passes_pot_events [OF assms this] obtain new where
      new: "tr' = tr0 @ new" "ledOK (pinLED wb) HIGH new"
        "ledLevel (pinLED wb) HIGH new = HIGH"
      by blast
    with ok0 l0 show "ledOK (pinLED wb) lv0 tr' \<and> ledLevel (pinLED wb) lv0 tr' = HIGH"
      by (simp add: ledOK_append ledLevel_append)
  qed
  note c5 = loop_pot_upto_led [OF assms, where K = K and dd = dd and pressed = pressed
      and wb = wb and w = w and n = n and tr = tr]
  note c6 = sketch_pot_upto_led [OF assms, where ?lv0.0 = lv0 and k = k and K = K and dd = dd
      and pressed = pressed and w = w]
  have c7: "loop_pot_upto K dd pressed bz wb (pinLED wb) w n tr = Done n' tr' \<longrightarrow>
       loop_pot dd pressed bz wb (pinLED wb) w n tr = Some (n', tr')"
    using loop_pot_upto_sound by blast
  have c8: "loop_pot dd pressed bz wb (pinLED wb) w n tr = Some (n', tr') \<longrightarrow>
       (\<exists>K0. \<forall>K1\<ge>K0. loop_pot_upto K1 dd pressed bz wb (pinLED wb) w n tr = Done n' tr')"
    using loop_pot_upto_complete by blast
  have c9: "sketch_pot_upto k K dd pressed bz wb w = Done n' tr' \<longrightarrow>
       sketch_pot k dd pressed bz wb w = Some (n', tr')"
    using sketch_upto_agree(1) by blast
  have c10: "sketch_pot k dd pressed bz wb w = Some (n', tr') \<longrightarrow>
       (\<exists>K0. \<forall>K1\<ge>K0. sketch_pot_upto k K1 dd pressed bz wb w = Done n' tr')"
    using sketch_upto_agree(2) by blast
  note c11 = loop_menu_upto_led [OF assms, where K = K and up = up and dd = dd and w = w
      and wb = wbm and d = d and n = n and tr = tr]
  note c12 = sketch_menu_upto_led [OF assms, where ?lv0.0 = lv0 and k = k and K = K and up = up
      and dd = dd and d = d and w = w]
  have c13: "loop_menu up dd bz (pinLED wb) w wbm d n tr = Some (wb', d', n', tr') \<longrightarrow>
       (\<exists>new. tr' = tr @ new \<and> ledOK_menu (pinLED wb) HIGH new \<and>
          ledLevel (pinLED wb) HIGH new = HIGH \<and>
          (greenWrites (pinLED wb) new = [] \<or> greenWrites (pinLED wb) new = [LOW, HIGH]))"
    using loop_menu_events [OF assms] by blast
  have c14: "loop_menu_upto K up dd bz (pinLED wb) w wbm d n tr = Done (wb', d', n') tr' \<longrightarrow>
       loop_menu up dd bz (pinLED wb) w wbm d n tr = Some (wb', d', n', tr')"
    using loop_menu_upto_sound by blast
  have c15: "loop_menu up dd bz (pinLED wb) w wbm d n tr = Some (wb', d', n', tr') \<longrightarrow>
       (\<exists>K0. \<forall>K1\<ge>K0. loop_menu_upto K1 up dd bz (pinLED wb) w wbm d n tr =
          Done (wb', d', n') tr')"
    using loop_menu_upto_complete by blast
  have c16: "sketch_menu_upto k K up dd bz wb d w = Done (wb', d', n') tr' \<longrightarrow>
       sketch_menu k up dd bz wb d w = Some (wb', d', n', tr')"
    using sketch_upto_agree(3) by blast
  have c17: "sketch_menu k up dd bz wb d w = Some (wb', d', n', tr') \<longrightarrow>
       (\<exists>K0. \<forall>K1\<ge>K0. sketch_menu_upto k K1 up dd bz wb d w = Done (wb', d', n') tr')"
    using sketch_upto_agree(4) by blast
  show ?thesis
    by (rule c1 c2 c3 c4 c5 c6 c7 c8 c9 c10 c11 c12 c13 c14 c15 c16 c17 conjI)+
qed

theorem green_led_low_in_the_wait_witness:
  "fst (setup_sketch buzzers_v1 whiteButton_v1) = 5 \<and>
   loop_pot debounceDelay_v1 HIGH buzzers_v1 whiteButton_v1 5
     (world_demo (\<lambda>n pin. if pin = 23 \<or> pin = 7 \<and> 2 \<le> n then HIGH else LOW)) 0 [] =
     Some (3, [ReadBuzzer 0 0 HIGH, DigitalWrite 5 LOW, DigitalWrite 53 HIGH,
               ReadWhite LOW, ReadWhite HIGH, DigitalWrite 5 HIGH, DigitalWrite 53 LOW]) \<and>
   ledOK 5 HIGH [ReadBuzzer 0 0 HIGH, DigitalWrite 5 LOW, DigitalWrite 53 HIGH,
               ReadWhite LOW, ReadWhite HIGH, DigitalWrite 5 HIGH, DigitalWrite 53 LOW] \<and>
   greenWrites 5 [ReadBuzzer 0 0 HIGH, DigitalWrite 5 LOW, DigitalWrite 53 HIGH,
               ReadWhite LOW, ReadWhite HIGH, DigitalWrite 5 HIGH, DigitalWrite 53 LOW]
     = [LOW, HIGH] \<and>
   loop_pot_upto 2 debounceDelay_v1 HIGH buzzers_v1 whiteButton_v1 5
     (world_demo (\<lambda>n pin. if pin = 23 \<or> pin = 7 \<and> 2 \<le> n then HIGH else LOW)) 0 [] =
     Running InWait [ReadBuzzer 0 0 HIGH, DigitalWrite 5 LOW, DigitalWrite 53 HIGH,
       ReadWhite LOW] \<and>
   ledOK 5 HIGH [ReadBuzzer 0 0 HIGH, DigitalWrite 5 LOW, DigitalWrite 53 HIGH,
       ReadWhite LOW] \<and>
   ledLevel 5 HIGH [ReadBuzzer 0 0 HIGH, DigitalWrite 5 LOW, DigitalWrite 53 HIGH,
       ReadWhite LOW] = LOW \<and>
   loop_menu_upto 4 False debounceDelay_menu buzzers_menu 5
     (world_demo (\<lambda>n pin. if pin = 7 \<and> n = 1 then LOW else HIGH)) whiteButton_menu 5000 0 [] =
     Running InMenu [ReadBuzzer 0 0 HIGH, ReadWhite LOW, ReadWhite HIGH, ReadWhite HIGH] \<and>
   ledOK_menu 5 HIGH [ReadBuzzer 0 0 HIGH, ReadWhite LOW, ReadWhite HIGH, ReadWhite HIGH] \<and>
   ledLevel 5 HIGH [ReadBuzzer 0 0 HIGH, ReadWhite LOW, ReadWhite HIGH, ReadWhite HIGH]
     = HIGH \<and>
   loop_menu False debounceDelay_menu buzzers_menu 5
     (world_demo (\<lambda>n pin. if pin = 31 \<or> pin = 7 \<and> n = 2 then LOW else HIGH))
     whiteButton_menu 5000 0 [] =
     Some (whiteButton_menu, 5000, 4,
       [ReadBuzzer 0 0 LOW, DigitalWrite 5 LOW, DigitalWrite 53 HIGH, ReadWhite HIGH,
        ReadWhite LOW, ReadWhite HIGH, DigitalWrite 5 HIGH, DigitalWrite 53 LOW]) \<and>
   ledOK_menu 5 HIGH
       [ReadBuzzer 0 0 LOW, DigitalWrite 5 LOW, DigitalWrite 53 HIGH, ReadWhite HIGH,
        ReadWhite LOW, ReadWhite HIGH, DigitalWrite 5 HIGH, DigitalWrite 53 LOW] \<and>
   greenWrites 5
       [ReadBuzzer 0 0 LOW, DigitalWrite 5 LOW, DigitalWrite 53 HIGH, ReadWhite HIGH,
        ReadWhite LOW, ReadWhite HIGH, DigitalWrite 5 HIGH, DigitalWrite 53 LOW]
     = [LOW, HIGH]"
proof -
  let ?w = "world_demo (\<lambda>n pin. if pin = 23 \<or> pin = 7 \<and> 2 \<le> n then HIGH else LOW)"
  let ?wm = "world_demo (\<lambda>n pin. if pin = 7 \<and> n = 1 then LOW else HIGH)"
  let ?wb = "world_demo (\<lambda>n pin. if pin = 31 \<or> pin = 7 \<and> n = 2 then LOW else HIGH)"
  let ?TR = "[ReadBuzzer 0 0 HIGH, DigitalWrite 5 LOW, DigitalWrite 53 HIGH,
               ReadWhite LOW, ReadWhite HIGH, DigitalWrite 5 HIGH, DigitalWrite 53 LOW]"
  let ?P1 = "[ReadBuzzer 0 0 HIGH, DigitalWrite 5 LOW, DigitalWrite 53 HIGH, ReadWhite LOW]"
  let ?P2 = "[ReadBuzzer 0 0 HIGH, ReadWhite LOW, ReadWhite HIGH, ReadWhite HIGH]"
  let ?TM = "[ReadBuzzer 0 0 LOW, DigitalWrite 5 LOW, DigitalWrite 53 HIGH, ReadWhite HIGH,
        ReadWhite LOW, ReadWhite HIGH, DigitalWrite 5 HIGH, DigitalWrite 53 LOW]"
  note T = green_led_low_in_the_wait [OF leds_v1]
  note M = green_led_low_in_the_wait [OF leds_menu]
  have g: "pinLED whiteButton_v1 = 5" "pinLED whiteButton_menu = 5"
    by (simp_all add: whiteButton_v1_def whiteButton_menu_def mkButton_def)
  have E: "fst (setup_sketch buzzers_v1 whiteButton_v1) = 5"
    using T [THEN conjunct1] by (simp add: g)
  have u1: "loop_pot_upto 3 debounceDelay_v1 HIGH buzzers_v1 whiteButton_v1
      (pinLED whiteButton_v1) ?w 0 [] = Done 3 ?TR"
    by code_simp
  have A': "loop_pot debounceDelay_v1 HIGH buzzers_v1 whiteButton_v1
      (pinLED whiteButton_v1) ?w 0 [] = Some (3, ?TR)"
    by (rule T [THEN conjunct2, THEN conjunct2, THEN conjunct2, THEN conjunct2,
          THEN conjunct2, THEN conjunct2, THEN conjunct1, THEN mp, OF u1])
  then have A: "loop_pot debounceDelay_v1 HIGH buzzers_v1 whiteButton_v1 5 ?w 0 [] =
      Some (3, ?TR)"
    by (simp add: g)
  have B: "\<exists>new. ?TR = [] @ new \<and> ledOK (pinLED whiteButton_v1) HIGH new \<and>
          ledLevel (pinLED whiteButton_v1) HIGH new = HIGH \<and>
          (greenWrites (pinLED whiteButton_v1) new = [] \<or>
           greenWrites (pinLED whiteButton_v1) new = [LOW, HIGH])"
    by (rule T [THEN conjunct2, THEN conjunct2, THEN conjunct1, THEN mp, OF A'])
  then have C: "ledOK 5 HIGH ?TR"
    by (simp add: g)
  have D: "greenWrites 5 ?TR = [LOW, HIGH]"
    by simp
  have u2: "loop_pot_upto 2 debounceDelay_v1 HIGH buzzers_v1 whiteButton_v1
      (pinLED whiteButton_v1) ?w 0 [] = Running InWait ?P1"
    by code_simp
  then have F: "loop_pot_upto 2 debounceDelay_v1 HIGH buzzers_v1 whiteButton_v1 5 ?w 0 [] =
      Running InWait ?P1"
    by (simp add: g)
  have "\<exists>new. events (loop_pot_upto 2 debounceDelay_v1 HIGH buzzers_v1 whiteButton_v1
          (pinLED whiteButton_v1) ?w 0 []) = [] @ new \<and>
       ledOK (pinLED whiteButton_v1) HIGH new \<and>
       ledLevel (pinLED whiteButton_v1) HIGH new =
         ledWanted (loop_pot_upto 2 debounceDelay_v1 HIGH buzzers_v1 whiteButton_v1
          (pinLED whiteButton_v1) ?w 0 []) \<and>
       writesOK (loop_pot_upto 2 debounceDelay_v1 HIGH buzzers_v1 whiteButton_v1
          (pinLED whiteButton_v1) ?w 0 []) (greenWrites (pinLED whiteButton_v1) new)"
    by (rule T [THEN conjunct2, THEN conjunct2, THEN conjunct2, THEN conjunct2,
          THEN conjunct1])
  then have G: "ledOK 5 HIGH ?P1 \<and> ledLevel 5 HIGH ?P1 = LOW"
    unfolding u2 by (simp add: g)
  have u3: "loop_menu_upto 4 False debounceDelay_menu buzzers_menu
      (pinLED whiteButton_menu) ?wm whiteButton_menu 5000 0 [] = Running InMenu ?P2"
    by code_simp
  then have H: "loop_menu_upto 4 False debounceDelay_menu buzzers_menu 5 ?wm
      whiteButton_menu 5000 0 [] = Running InMenu ?P2"
    by (simp add: g)
  have "\<exists>new. events (loop_menu_upto 4 False debounceDelay_menu buzzers_menu
          (pinLED whiteButton_menu) ?wm whiteButton_menu 5000 0 []) = [] @ new \<and>
       ledOK_menu (pinLED whiteButton_menu) HIGH new \<and>
       ledLevel (pinLED whiteButton_menu) HIGH new =
         ledWanted (loop_menu_upto 4 False debounceDelay_menu buzzers_menu
          (pinLED whiteButton_menu) ?wm whiteButton_menu 5000 0 []) \<and>
       writesOK (loop_menu_upto 4 False debounceDelay_menu buzzers_menu
          (pinLED whiteButton_menu) ?wm whiteButton_menu 5000 0 [])
         (greenWrites (pinLED whiteButton_menu) new)"
    by (rule M [THEN conjunct2, THEN conjunct2, THEN conjunct2, THEN conjunct2,
          THEN conjunct2, THEN conjunct2, THEN conjunct2, THEN conjunct2, THEN conjunct2,
          THEN conjunct2, THEN conjunct1])
  then have I: "ledOK_menu 5 HIGH ?P2 \<and> ledLevel 5 HIGH ?P2 = HIGH"
    unfolding u3 by (simp add: g)
  have u4: "loop_menu_upto 4 False debounceDelay_menu buzzers_menu
      (pinLED whiteButton_menu) ?wb whiteButton_menu 5000 0 [] =
      Done (whiteButton_menu, 5000, 4) ?TM"
    by code_simp
  have J': "loop_menu False debounceDelay_menu buzzers_menu
      (pinLED whiteButton_menu) ?wb whiteButton_menu 5000 0 [] =
      Some (whiteButton_menu, 5000, 4, ?TM)"
    by (rule M [THEN conjunct2, THEN conjunct2, THEN conjunct2, THEN conjunct2,
          THEN conjunct2, THEN conjunct2, THEN conjunct2, THEN conjunct2, THEN conjunct2,
          THEN conjunct2, THEN conjunct2, THEN conjunct2, THEN conjunct2, THEN conjunct1,
          THEN mp, OF u4])
  then have J: "loop_menu False debounceDelay_menu buzzers_menu 5 ?wb whiteButton_menu
      5000 0 [] = Some (whiteButton_menu, 5000, 4, ?TM)"
    by (simp add: g)
  have "\<exists>new. ?TM = [] @ new \<and> ledOK_menu (pinLED whiteButton_menu) HIGH new \<and>
          ledLevel (pinLED whiteButton_menu) HIGH new = HIGH \<and>
          (greenWrites (pinLED whiteButton_menu) new = [] \<or>
           greenWrites (pinLED whiteButton_menu) new = [LOW, HIGH])"
    by (rule M [THEN conjunct2, THEN conjunct2, THEN conjunct2, THEN conjunct2,
          THEN conjunct2, THEN conjunct2, THEN conjunct2, THEN conjunct2, THEN conjunct2,
          THEN conjunct2, THEN conjunct2, THEN conjunct2, THEN conjunct1, THEN mp, OF J'])
  then have K: "ledOK_menu 5 HIGH ?TM"
    by (simp add: g)
  have L: "greenWrites 5 ?TM = [LOW, HIGH]"
    by simp
  from E A C D F G H I J K L show ?thesis
    by (intro conjI) simp_all
qed

section \<open>The manual reset\<close>

text \<open>
  C5 as it is worded says that after a manual reset the controller waits for the white
  button to read released.  The initial revision does not: with buzzer (0, 0) pressed and
  the white button held down, one pass of \<^verbatim>\<open>loop()\<close> reads the white button once, as
  pressed, and goes back to the scan with the green LED on; the button still reads
  pressed at the next call.
\<close>

theorem no_wait_for_release_counterexample:
  "loop_pot debounceDelay_v1 HIGH buzzers_v1 whiteButton_v1 5
     (world_demo (\<lambda>n pin. if pin = 23 \<or> pin = 7 then HIGH else LOW)) 0 [] =
     Some (2, [ReadBuzzer 0 0 HIGH, DigitalWrite 5 LOW, DigitalWrite 53 HIGH,
               ReadWhite HIGH, DigitalWrite 5 HIGH, DigitalWrite 53 LOW]) \<and>
   poll debounceDelay_v1 (world_demo (\<lambda>n pin. if pin = 23 \<or> pin = 7 then HIGH else LOW)) 2
     whiteButton_v1 = HIGH"
proof -
  let ?w = "world_demo (\<lambda>n pin. if pin = 23 \<or> pin = 7 then HIGH else LOW)"
  have g: "pinLED whiteButton_v1 = 5" "pinLED (buzzers_v1 ! 0 ! 0) = 53"
    by (simp_all add: whiteButton_v1_def buzzers_v1_def mkButton_def)
  have p: "poll debounceDelay_v1 ?w 0 (buzzers_v1 ! 0 ! 0) = HIGH"
    "poll debounceDelay_v1 ?w (Suc 0) whiteButton_v1 = HIGH"
    "poll debounceDelay_v1 ?w 2 whiteButton_v1 = HIGH"
    by (simp_all add: poll_demo cfg_defs rd_defs)
  have sc: "scanTeams debounceDelay_v1 HIGH buzzers_v1 ?w 0 0 [] =
      (Some (0, 0), Suc 0, [ReadBuzzer 0 0 HIGH])"
    using scan_v1_first [OF p(1), of "[]"] by simp
  have h: "\<forall>i<0. waitCond ?w 41000 3000 (Suc 0 + i) \<and>
      poll debounceDelay_v1 ?w (Suc 0 + i) whiteButton_v1 \<noteq> HIGH"
    by simp
  have rw: "resetWait debounceDelay_v1 HIGH whiteButton_v1 ?w (millisT ?w (Suc 0))
      (potDelayReset (analogRead ?w (Suc 0))) (Suc 0)
      ([ReadBuzzer 0 0 HIGH] @ [DigitalWrite 5 LOW, DigitalWrite (pinLED (buzzers_v1 ! 0 ! 0)) HIGH])
      = Some (ManualReset, 2, [ReadBuzzer 0 0 HIGH, DigitalWrite 5 LOW, DigitalWrite 53 HIGH,
               ReadWhite HIGH])"
    using resetWait_manual [OF h, where tr = "[ReadBuzzer 0 0 HIGH, DigitalWrite 5 LOW,
        DigitalWrite 53 HIGH]"]
    by (simp add: p g waitCond_iff millisW_demo demo_reads potDelayReset_600)
  have "loop_pot debounceDelay_v1 HIGH buzzers_v1 whiteButton_v1 5 ?w 0 [] =
     Some (2, [ReadBuzzer 0 0 HIGH, DigitalWrite 5 LOW, DigitalWrite 53 HIGH,
               ReadWhite HIGH, DigitalWrite 5 HIGH, DigitalWrite 53 LOW])"
    using loop_pot_buzz [OF sc rw] by (simp add: g)
  with p(3) show ?thesis
    by simp
qed

text \<open>
  C5, amended.  In the reset wait a read of the white button that gives "pressed" ends
  the wait whatever the timer says.  In the potentiometer revisions the wait is left at
  that very read and nothing more is read before the next scan (when the timer has run
  out just before that read, the wait is left through the timeout and the read is not
  made): there is no wait for the release.  In the menu and Nano revisions the
  controller then goes on reading the white button, without looking at the timer, and
  leaves the wait at the first read that does not give LOW; whenever that wait ends with
  a manual reset, a read gave LOW, every read after it but the last gave LOW, and the
  last read did not.
\<close>

theorem manual_reset_ends_the_wait:
  "((\<forall>i<N. waitCond w ts d (n + i) \<and> poll dd w (n + i) wb \<noteq> pressed) \<and>
    poll dd w (n + N) wb = pressed \<longrightarrow>
      resetWait dd pressed wb w ts d n tr =
        (if waitCond w ts d (n + N)
         then Some (ManualReset, Suc (n + N),
                tr @ map (\<lambda>i. ReadWhite (poll dd w (n + i) wb)) [0..<Suc N])
         else Some (Timeout, n + N,
                tr @ map (\<lambda>i. ReadWhite (poll dd w (n + i) wb)) [0..<N]))) \<and>
   ((\<forall>i<N. waitCond w ts d (n + i) \<and> poll dd w (n + i) wbm \<noteq> LOW) \<and>
    poll dd w (n + N) wbm = LOW \<and>
    (\<forall>i<M. poll dd w (Suc (n + N) + i) wbm = LOW) \<and>
    poll dd w (Suc (n + N) + M) wbm \<noteq> LOW \<longrightarrow>
      resetWait_menu dd wbm w ts d n tr =
        (if waitCond w ts d (n + N)
         then Some (ManualReset, Suc (Suc (n + N) + M),
                tr @ map (\<lambda>i. ReadWhite (poll dd w (n + i) wbm)) [0..<Suc N]
                   @ map (\<lambda>i. ReadWhite (poll dd w (Suc (n + N) + i) wbm)) [0..<Suc M])
         else Some (Timeout, n + N,
                tr @ map (\<lambda>i. ReadWhite (poll dd w (n + i) wbm)) [0..<N]))) \<and>
   (resetWait_menu dd wbm w ts d n tr = Some (ManualReset, n', tr') \<longrightarrow>
      n + 2 \<le> n' \<and> poll dd w (n' - 1) wbm \<noteq> LOW \<and>
      (\<exists>m\<ge>n. Suc m < n' \<and> poll dd w m wbm = LOW \<and>
         (\<forall>k. m < k \<and> k < n' - 1 \<longrightarrow> poll dd w k wbm = LOW)))"
proof (intro conjI impI)
  assume h: "(\<forall>i<N. waitCond w ts d (n + i) \<and> poll dd w (n + i) wb \<noteq> pressed) \<and>
    poll dd w (n + N) wb = pressed"
  show "resetWait dd pressed wb w ts d n tr =
        (if waitCond w ts d (n + N)
         then Some (ManualReset, Suc (n + N),
                tr @ map (\<lambda>i. ReadWhite (poll dd w (n + i) wb)) [0..<Suc N])
         else Some (Timeout, n + N,
                tr @ map (\<lambda>i. ReadWhite (poll dd w (n + i) wb)) [0..<N]))"
  proof (cases "waitCond w ts d (n + N)")
    case True
    have "resetWait dd pressed wb w ts d n tr =
        Some (ManualReset, Suc (n + N),
                tr @ map (\<lambda>i. ReadWhite (poll dd w (n + i) wb)) [0..<Suc N])"
      using h True by (intro resetWait_manual) simp_all
    with True show ?thesis
      by (simp only: if_True)
  next
    case False
    have "resetWait dd pressed wb w ts d n tr =
        Some (Timeout, n + N, tr @ map (\<lambda>i. ReadWhite (poll dd w (n + i) wb)) [0..<N])"
      using h False by (intro resetWait_timeout) simp_all
    with False show ?thesis
      by (simp only: if_False)
  qed
next
  assume h: "(\<forall>i<N. waitCond w ts d (n + i) \<and> poll dd w (n + i) wbm \<noteq> LOW) \<and>
    poll dd w (n + N) wbm = LOW \<and>
    (\<forall>i<M. poll dd w (Suc (n + N) + i) wbm = LOW) \<and>
    poll dd w (Suc (n + N) + M) wbm \<noteq> LOW"
  show "resetWait_menu dd wbm w ts d n tr =
        (if waitCond w ts d (n + N)
         then Some (ManualReset, Suc (Suc (n + N) + M),
                tr @ map (\<lambda>i. ReadWhite (poll dd w (n + i) wbm)) [0..<Suc N]
                   @ map (\<lambda>i. ReadWhite (poll dd w (Suc (n + N) + i) wbm)) [0..<Suc M])
         else Some (Timeout, n + N,
                tr @ map (\<lambda>i. ReadWhite (poll dd w (n + i) wbm)) [0..<N]))"
  proof (cases "waitCond w ts d (n + N)")
    case True
    have "resetWait_menu dd wbm w ts d n tr =
        Some (ManualReset, Suc (Suc (n + N) + M),
                tr @ map (\<lambda>i. ReadWhite (poll dd w (n + i) wbm)) [0..<Suc N]
                   @ map (\<lambda>i. ReadWhite (poll dd w (Suc (n + N) + i) wbm)) [0..<Suc M])"
      using h True by (intro resetWait_menu_manual) simp_all
    with True show ?thesis
      by (simp only: if_True)
  next
    case False
    have "resetWait_menu dd wbm w ts d n tr =
        Some (Timeout, n + N, tr @ map (\<lambda>i. ReadWhite (poll dd w (n + i) wbm)) [0..<N])"
      using h False by (intro resetWait_menu_timeout) simp_all
    with False show ?thesis
      by (simp only: if_False)
  qed
next
  assume e: "resetWait_menu dd wbm w ts d n tr = Some (ManualReset, n', tr')"
  from resetWait_menu_exit_aux [OF e] obtain m where
    m: "n \<le> m" "Suc m < n'" "poll dd w m wbm = LOW"
      "\<forall>k. m < k \<and> k < n' - 1 \<longrightarrow> poll dd w k wbm = LOW"
    and rel: "poll dd w (n' - 1) wbm \<noteq> LOW"
    by auto
  from m show "n + 2 \<le> n'"
    by simp
  from rel show "poll dd w (n' - 1) wbm \<noteq> LOW" .
  from m have "n \<le> m \<and> Suc m < n' \<and> poll dd w m wbm = LOW \<and>
         (\<forall>k. m < k \<and> k < n' - 1 \<longrightarrow> poll dd w k wbm = LOW)"
    by simp
  then show "\<exists>m\<ge>n. Suc m < n' \<and> poll dd w m wbm = LOW \<and>
         (\<forall>k. m < k \<and> k < n' - 1 \<longrightarrow> poll dd w k wbm = LOW)"
    by blast
qed

theorem manual_reset_ends_the_wait_witness:
  "resetWait debounceDelay_v1 HIGH whiteButton_v1
     (world_demo (\<lambda>n pin. if n < 2 then LOW else HIGH)) 40000 3000 0 [] =
     Some (ManualReset, 3, [ReadWhite LOW, ReadWhite LOW, ReadWhite HIGH]) \<and>
   resetWait debounceDelay_v1 HIGH whiteButton_v1
     (world_demo (\<lambda>n pin. if n < 2 then LOW else HIGH)) 40000 1500 0 [] =
     Some (Timeout, 2, [ReadWhite LOW, ReadWhite LOW]) \<and>
   resetWait_menu debounceDelay_menu whiteButton_menu
     (world_demo (\<lambda>n pin. if 2 \<le> n \<and> n < 5 then LOW else HIGH)) 40000 2500 0 [] =
     Some (ManualReset, 6, [ReadWhite HIGH, ReadWhite HIGH, ReadWhite LOW,
                            ReadWhite LOW, ReadWhite LOW, ReadWhite HIGH]) \<and>
   poll debounceDelay_menu (world_demo (\<lambda>n pin. if 2 \<le> n \<and> n < 5 then LOW else HIGH)) (6 - 1)
     whiteButton_menu \<noteq> LOW \<and>
   poll debounceDelay_menu (world_demo (\<lambda>n pin. if 2 \<le> n \<and> n < 5 then LOW else HIGH)) 2
     whiteButton_menu = LOW \<and>
   poll debounceDelay_v1 (world_demo (\<lambda>n pin. if n < 2 then LOW else HIGH)) 2
     whiteButton_v1 = HIGH"
proof -
  let ?wP = "world_demo (\<lambda>n pin. if n < 2 then LOW else HIGH)"
  let ?wM = "world_demo (\<lambda>n pin. if 2 \<le> n \<and> n < 5 then LOW else HIGH)"
  note T = manual_reset_ends_the_wait
  have pM2: "poll debounceDelay_menu ?wM 2 whiteButton_menu = LOW"
    by (simp add: poll_demo cfg_defs rd_defs)
  have pP2: "poll debounceDelay_v1 ?wP 2 whiteButton_v1 = HIGH"
    by (simp add: poll_demo cfg_defs rd_defs)
  have pP: "poll debounceDelay_v1 ?wP 0 whiteButton_v1 = LOW"
    "poll debounceDelay_v1 ?wP (Suc 0) whiteButton_v1 = LOW"
    by (simp_all add: poll_demo cfg_defs rd_defs)
  have pM: "poll debounceDelay_menu ?wM 0 whiteButton_menu = HIGH"
    "poll debounceDelay_menu ?wM (Suc 0) whiteButton_menu = HIGH"
    "poll debounceDelay_menu ?wM 3 whiteButton_menu = LOW"
    "poll debounceDelay_menu ?wM 4 whiteButton_menu = LOW"
    "poll debounceDelay_menu ?wM 5 whiteButton_menu = HIGH"
    by (simp_all add: poll_demo cfg_defs rd_defs)
  have u: "[0..<3] = [0, Suc 0, 2]" "[0..<2] = [0, Suc 0]"
    by (simp_all add: upt_conv_Cons)
  have hP: "(\<forall>i<2. waitCond ?wP 40000 3000 (0 + i) \<and>
          poll debounceDelay_v1 ?wP (0 + i) whiteButton_v1 \<noteq> HIGH) \<and>
      poll debounceDelay_v1 ?wP (0 + 2) whiteButton_v1 = HIGH"
    by (simp add: all_less_2 pP pP2 waitCond_iff millisW_demo del: add_2_eq_Suc add_2_eq_Suc')
  have A: "resetWait debounceDelay_v1 HIGH whiteButton_v1 ?wP 40000 3000 0 [] =
     Some (ManualReset, 3, [ReadWhite LOW, ReadWhite LOW, ReadWhite HIGH])"
    using T [where dd = debounceDelay_v1 and pressed = HIGH and wb = whiteButton_v1
        and w = ?wP and ts = 40000 and d = 3000 and n = 0 and tr = "[]" and N = 2,
        THEN conjunct1, THEN mp, OF hP]
    by (simp add: pP pP2 u waitCond_iff millisW_demo del: upt_Suc add_2_eq_Suc add_2_eq_Suc')
  have hP': "(\<forall>i<2. waitCond ?wP 40000 1500 (0 + i) \<and>
          poll debounceDelay_v1 ?wP (0 + i) whiteButton_v1 \<noteq> HIGH) \<and>
      poll debounceDelay_v1 ?wP (0 + 2) whiteButton_v1 = HIGH"
    by (simp add: all_less_2 pP pP2 waitCond_iff millisW_demo del: add_2_eq_Suc add_2_eq_Suc')
  have B: "resetWait debounceDelay_v1 HIGH whiteButton_v1 ?wP 40000 1500 0 [] =
     Some (Timeout, 2, [ReadWhite LOW, ReadWhite LOW])"
    using T [where dd = debounceDelay_v1 and pressed = HIGH and wb = whiteButton_v1
        and w = ?wP and ts = 40000 and d = 1500 and n = 0 and tr = "[]" and N = 2,
        THEN conjunct1, THEN mp, OF hP']
    by (simp add: pP pP2 u waitCond_iff millisW_demo del: upt_Suc add_2_eq_Suc add_2_eq_Suc')
  have hM: "(\<forall>i<2. waitCond ?wM 40000 2500 (0 + i) \<and>
          poll debounceDelay_menu ?wM (0 + i) whiteButton_menu \<noteq> LOW) \<and>
      poll debounceDelay_menu ?wM (0 + 2) whiteButton_menu = LOW \<and>
      (\<forall>i<2. poll debounceDelay_menu ?wM (Suc (0 + 2) + i) whiteButton_menu = LOW) \<and>
      poll debounceDelay_menu ?wM (Suc (0 + 2) + 2) whiteButton_menu \<noteq> LOW"
    by (simp add: all_less_2 pM pM2 waitCond_iff millisW_demo del: add_2_eq_Suc add_2_eq_Suc')
  have C: "resetWait_menu debounceDelay_menu whiteButton_menu ?wM 40000 2500 0 [] =
     Some (ManualReset, 6, [ReadWhite HIGH, ReadWhite HIGH, ReadWhite LOW,
                            ReadWhite LOW, ReadWhite LOW, ReadWhite HIGH])"
    using T [where dd = debounceDelay_menu and wbm = whiteButton_menu
        and w = ?wM and ts = 40000 and d = 2500 and n = 0 and tr = "[]" and N = 2 and M = 2,
        THEN conjunct2, THEN conjunct1, THEN mp, OF hM]
    by (simp add: pM pM2 u waitCond_iff millisW_demo del: upt_Suc add_2_eq_Suc add_2_eq_Suc')
  have D: "poll debounceDelay_menu ?wM (6 - 1) whiteButton_menu \<noteq> LOW"
    using T [where dd = debounceDelay_menu and wbm = whiteButton_menu
        and w = ?wM and ts = 40000 and d = 2500 and n = 0 and tr = "[]" and n' = 6
        and tr' = "[ReadWhite HIGH, ReadWhite HIGH, ReadWhite LOW,
                            ReadWhite LOW, ReadWhite LOW, ReadWhite HIGH]",
        THEN conjunct2, THEN conjunct2, THEN mp, OF C]
    by blast
  from A B C D pM2 pP2 show ?thesis
    by blast
qed

section \<open>The potentiometer and the wait\<close>

lemma resetWait_sentinel:
  assumes "sint d < 0" and "resetWait dd pressed wb w ts d n tr = Some (ex, n', tr')"
  shows "ex = ManualReset \<and> n < n' \<and> poll dd w (n' - 1) wb = pressed"
proof -
  have c: "\<And>k. waitCond w ts d k"
    using assms(1) by (simp add: waitCond_iff)
  from resetWait_exit_aux [OF assms(2)] c have m: "ex = ManualReset"
    by (cases ex) simp_all
  with resetWait_exit_aux [OF assms(2)] show ?thesis
    by simp
qed

lemma resetWait_menu_sentinel:
  assumes "sint d < 0" and "resetWait_menu dd wb w ts d n tr = Some (ex, n', tr')"
  shows "ex = ManualReset \<and> (\<exists>m\<ge>n. m < n' \<and> poll dd w m wb = LOW)"
proof -
  have c: "\<And>k. waitCond w ts d k"
    using assms(1) by (simp add: waitCond_iff)
  from resetWait_menu_exit_aux [OF assms(2)] c have m: "ex = ManualReset"
    by (cases ex) simp_all
  with resetWait_menu_exit_aux [OF assms(2)] obtain k where
    "n \<le> k" "Suc k < n'" "poll dd w k wb = LOW"
    by auto
  then have "n \<le> k \<and> k < n' \<and> poll dd w k wb = LOW"
    by simp
  with m show ?thesis
    by blast
qed

lemma loop_pot_sentinel:
  assumes "scanTeams dd pressed bz w 0 n tr = (Some win, n1, tr1)"
    and "1000 <s analogRead w n1"
    and "loop_pot dd pressed bz wb g w n tr = Some (n', tr')"
  shows "\<exists>m\<ge>n1. m < n' \<and> poll dd w m wb = pressed"
proof -
  obtain team player where win: "win = (team, player)"
    by (cases win) auto
  from assms(1,3) win obtain ex tr3 where
    rw: "resetWait dd pressed wb w (millisT w n1) (potDelayReset (analogRead w n1)) n1
           (tr1 @ [DigitalWrite g LOW, DigitalWrite (pinLED (bz ! team ! player)) HIGH])
         = Some (ex, n', tr3)"
    by (auto simp: loop_pot_def Let_def split: option.splits)
  have "sint (potDelayReset (analogRead w n1)) < 0"
    using assms(2) by (simp add: potDelayReset_sentinel)
  from resetWait_sentinel [OF this rw] have "n1 \<le> n' - 1 \<and> n' - 1 < n' \<and>
      poll dd w (n' - 1) wb = pressed"
    by auto
  then show ?thesis
    by blast
qed

lemma loop_menu_sentinel:
  assumes "scanTeams_menu True dd bz w 0 wb d n tr = Some (Some win, wb1, d1, n1, tr1)"
    and "1000 <s analogRead w n1"
    and "loop_menu True dd bz g w wb d n tr = Some (wb', d', n', tr')"
  shows "d' = potDelayReset (analogRead w n1) \<and> (\<exists>m\<ge>n1. m < n' \<and> poll dd w m wb1 = LOW)"
proof -
  obtain team player where win: "win = (team, player)"
    by (cases win) auto
  from assms(1,3) win obtain ex tr3 where
    rw: "resetWait_menu dd wb1 w (millisT w n1) (potDelayReset (analogRead w n1)) n1
           (tr1 @ [DigitalWrite g LOW, DigitalWrite (pinLED (bz ! team ! player)) HIGH])
         = Some (ex, n', tr3)"
    and d': "d' = potDelayReset (analogRead w n1)"
    by (auto simp: loop_menu_def Let_def split: option.splits)
  have "sint (potDelayReset (analogRead w n1)) < 0"
    using assms(2) by (simp add: potDelayReset_sentinel)
  from resetWait_menu_sentinel [OF this rw] d' show ?thesis
    by simp
qed

lemma poll_pot: "poll dd (w\<lparr>analogRead := f\<rparr>) n b = poll dd w n b"
  by (simp add: poll_def)

lemma scan_menu_first:
  assumes "poll dd w n (bz ! 0 ! 0) = LOW"
  shows "scanTeams_menu True dd bz w 0 wb d n tr =
     Some (Some (0, 0), wb, d, Suc n, tr @ [ReadBuzzer 0 0 LOW])"
  unfolding scanTeams_menu_firstHit scanOrder_def [symmetric]
  using assms by (simp add: scanOrder_eq Let_def)

lemma loop_menu_buzz:
  assumes "scanTeams_menu True dd bz w 0 wb d n tr = Some (Some (team, player), wb1, d1, n1, tr1)"
    and "resetWait_menu dd wb1 w (millisT w n1) (potDelayReset (analogRead w n1)) n1
           (tr1 @ [DigitalWrite g LOW, DigitalWrite (pinLED (bz ! team ! player)) HIGH])
         = Some (ex, n2, tr3)"
  shows "loop_menu True dd bz g w wb d n tr =
     Some (wb1, potDelayReset (analogRead w n1), n2,
       tr3 @ [DigitalWrite g HIGH, DigitalWrite (pinLED (bz ! team ! player)) LOW])"
  by (simp add: loop_menu_def assms Let_def)

text \<open>
  C6.  In the potentiometer revisions the value read from the potentiometer, between 0
  and 1023, is scaled linearly against \<open>delayResetMax\<close>: up to 1000 the delay is
  \<open>valPot * delayResetMax / 1000\<close> milliseconds.  Every value above 1000 gives a negative
  \<^verbatim>\<open>delayReset\<close>, and a negative \<^verbatim>\<open>delayReset\<close> is a delay without end: the reset wait,
  when it is left at all, is left by the white button and never by the timer.  The value
  is computed once for each buzz, from the sample taken when the scan has found its
  winner: a pass of \<^verbatim>\<open>loop()\<close> in which somebody buzzed while the potentiometer read above
  1000 returns only after a read of the white button that gave "pressed", in the initial
  and LCD revisions and in the menu revision with \<^verbatim>\<open>usePotentiometer\<close>, where the delay
  kept is the one computed from that sample.
\<close>

theorem potentiometer_delay:
  assumes "0 \<le>s sampled" and "sampled \<le>s 1023"
  shows "(sampled \<le>s 1000 \<longrightarrow>
            sint (potDelayReset sampled) = sint sampled * uint delayResetMax div 1000) \<and>
         (1000 <s sampled \<longrightarrow> potDelayReset sampled <s 0) \<and>
         (1000 <s sampled \<and>
          resetWait dd pressed wb w ts (potDelayReset sampled) n tr = Some (ex, n', tr') \<longrightarrow>
            ex = ManualReset) \<and>
         (1000 <s sampled \<and>
          resetWait_menu dd wbm w ts (potDelayReset sampled) n tr = Some (ex, n', tr') \<longrightarrow>
            ex = ManualReset) \<and>
         (analogRead w n1 = sampled \<and> 1000 <s sampled \<and>
          scanTeams dd pressed bz w 0 n tr = (Some win, n1, tr1) \<and>
          loop_pot dd pressed bz wb g w n tr = Some (n', tr') \<longrightarrow>
            (\<exists>m\<ge>n1. m < n' \<and> poll dd w m wb = pressed)) \<and>
         (analogRead w n1 = sampled \<and> 1000 <s sampled \<and>
          scanTeams_menu True dd bz w 0 wbm d n tr = Some (Some win, wb1, d1, n1, tr1) \<and>
          loop_menu True dd bz g w wbm d n tr = Some (wb', d', n', tr') \<longrightarrow>
            d' = potDelayReset sampled \<and> (\<exists>m\<ge>n1. m < n' \<and> poll dd w m wb1 = LOW))"
proof (intro conjI impI)
  assume "sampled \<le>s 1000"
  with assms show "sint (potDelayReset sampled) = sint sampled * uint delayResetMax div 1000"
    by (simp add: potDelayReset_scaled delayResetMax_def)
next
  assume "1000 <s sampled"
  then show "potDelayReset sampled <s 0"
    by (simp add: potDelayReset_sentinel word_sless_alt)
next
  assume h: "1000 <s sampled \<and>
          resetWait dd pressed wb w ts (potDelayReset sampled) n tr = Some (ex, n', tr')"
  then have "sint (potDelayReset sampled) < 0"
    by (simp add: potDelayReset_sentinel)
  with h show "ex = ManualReset"
    using resetWait_sentinel by blast
next
  assume h: "1000 <s sampled \<and>
          resetWait_menu dd wbm w ts (potDelayReset sampled) n tr = Some (ex, n', tr')"
  then have "sint (potDelayReset sampled) < 0"
    by (simp add: potDelayReset_sentinel)
  with h show "ex = ManualReset"
    using resetWait_menu_sentinel by blast
next
  assume "analogRead w n1 = sampled \<and> 1000 <s sampled \<and>
          scanTeams dd pressed bz w 0 n tr = (Some win, n1, tr1) \<and>
          loop_pot dd pressed bz wb g w n tr = Some (n', tr')"
  then show "\<exists>m\<ge>n1. m < n' \<and> poll dd w m wb = pressed"
    using loop_pot_sentinel [of dd pressed bz w n tr win n1 tr1 wb g n' tr'] by simp
next
  assume h: "analogRead w n1 = sampled \<and> 1000 <s sampled \<and>
          scanTeams_menu True dd bz w 0 wbm d n tr = Some (Some win, wb1, d1, n1, tr1) \<and>
          loop_menu True dd bz g w wbm d n tr = Some (wb', d', n', tr')"
  then show "d' = potDelayReset sampled" "\<exists>m\<ge>n1. m < n' \<and> poll dd w m wb1 = LOW"
    using loop_menu_sentinel [of dd bz w wbm d n tr win wb1 d1 n1 tr1 g wb' d' n' tr']
    by simp_all
qed

theorem potentiometer_delay_witness:
  "(0::c_int) \<le>s 512 \<and> (512::c_int) \<le>s 1023 \<and> (512::c_int) \<le>s 1000 \<and>
   sint (potDelayReset 512) = 2560 \<and>
   (0::c_int) \<le>s 1010 \<and> (1010::c_int) \<le>s 1023 \<and> (1000::c_int) <s 1010 \<and>
   potDelayReset 1010 <s 0 \<and>
   resetWait debounceDelay_v1 HIGH whiteButton_v1
     (world_demo (\<lambda>n pin. if n < 2 then LOW else HIGH)) 40000 (potDelayReset 1010) 0 [] =
     Some (ManualReset, 3, [ReadWhite LOW, ReadWhite LOW, ReadWhite HIGH]) \<and>
   resetWait_menu debounceDelay_menu whiteButton_menu
     (world_demo (\<lambda>n pin. if 2 \<le> n \<and> n < 5 then LOW else HIGH)) 40000 (potDelayReset 1010) 0 [] =
     Some (ManualReset, 6, [ReadWhite HIGH, ReadWhite HIGH, ReadWhite LOW,
                            ReadWhite LOW, ReadWhite LOW, ReadWhite HIGH]) \<and>
   loop_pot debounceDelay_v1 HIGH buzzers_v1 whiteButton_v1 5
     ((world_demo (\<lambda>n pin. if pin = 23 \<or> pin = 7 then HIGH else LOW))
        \<lparr>analogRead := \<lambda>n. 1010\<rparr>) 0 [] =
     Some (2, [ReadBuzzer 0 0 HIGH, DigitalWrite 5 LOW, DigitalWrite 53 HIGH,
               ReadWhite HIGH, DigitalWrite 5 HIGH, DigitalWrite 53 LOW]) \<and>
   poll debounceDelay_v1
     ((world_demo (\<lambda>n pin. if pin = 23 \<or> pin = 7 then HIGH else LOW))
        \<lparr>analogRead := \<lambda>n. 1010\<rparr>) 1 whiteButton_v1 = HIGH \<and>
   loop_menu True debounceDelay_menu buzzers_menu 5
     ((world_demo (\<lambda>n pin. if n < 3 then LOW else HIGH))\<lparr>analogRead := \<lambda>n. 1010\<rparr>)
     whiteButton_menu 5000 0 [] =
     Some (whiteButton_menu, potDelayReset 1010, 4,
           [ReadBuzzer 0 0 LOW, DigitalWrite 5 LOW, DigitalWrite 53 HIGH,
            ReadWhite LOW, ReadWhite LOW, ReadWhite HIGH,
            DigitalWrite 5 HIGH, DigitalWrite 53 LOW]) \<and>
   (\<exists>m. 1 \<le> m \<and> m < 4 \<and>
      poll debounceDelay_menu
        ((world_demo (\<lambda>n pin. if n < 3 then LOW else HIGH))\<lparr>analogRead := \<lambda>n. 1010\<rparr>)
        m whiteButton_menu = LOW)"
proof -
  let ?wP = "world_demo (\<lambda>n pin. if n < 2 then LOW else HIGH)"
  let ?wM = "world_demo (\<lambda>n pin. if 2 \<le> n \<and> n < 5 then LOW else HIGH)"
  let ?w5 = "(world_demo (\<lambda>n pin. if pin = 23 \<or> pin = 7 then HIGH else LOW))
        \<lparr>analogRead := \<lambda>n. 1010\<rparr>"
  let ?w6 = "(world_demo (\<lambda>n pin. if n < 3 then LOW else HIGH))\<lparr>analogRead := \<lambda>n. 1010\<rparr>"
  note T = potentiometer_delay
  have a: "(0::c_int) \<le>s 512" "(512::c_int) \<le>s 1023" "(512::c_int) \<le>s 1000"
    by (simp_all add: word_sle_eq)
  have b: "(0::c_int) \<le>s 1010" "(1010::c_int) \<le>s 1023" "(1000::c_int) <s 1010"
    by (simp_all add: word_sle_eq word_sless_alt)
  have A: "sint (potDelayReset 512) = 2560"
    using T [where sampled = 512, OF a(1,2), THEN conjunct1, THEN mp, OF a(3)]
    by (simp add: delayResetMax_def)
  have B: "potDelayReset 1010 <s 0"
    using T [where sampled = 1010, OF b(1,2), THEN conjunct2, THEN conjunct1, THEN mp, OF b(3)] .
  have s: "sint (potDelayReset 1010) < 0"
    using b(3) by (simp add: potDelayReset_sentinel)
  have u: "[0..<3] = [0, Suc 0, 2]" "[0..<2] = [0, Suc 0]"
    by (simp_all add: upt_conv_Cons)
  have g: "pinLED whiteButton_v1 = 5" "pinLED (buzzers_v1 ! 0 ! 0) = 53"
    "pinLED (buzzers_menu ! 0 ! 0) = 53"
    by (simp_all add: whiteButton_v1_def buzzers_v1_def buzzers_menu_def mkButton_def)
  have pP: "poll debounceDelay_v1 ?wP 0 whiteButton_v1 = LOW"
    "poll debounceDelay_v1 ?wP (Suc 0) whiteButton_v1 = LOW"
    "poll debounceDelay_v1 ?wP 2 whiteButton_v1 = HIGH"
    by (simp_all add: poll_demo cfg_defs rd_defs)
  have pM: "poll debounceDelay_menu ?wM 0 whiteButton_menu = HIGH"
    "poll debounceDelay_menu ?wM (Suc 0) whiteButton_menu = HIGH"
    "poll debounceDelay_menu ?wM 2 whiteButton_menu = LOW"
    "poll debounceDelay_menu ?wM 3 whiteButton_menu = LOW"
    "poll debounceDelay_menu ?wM 4 whiteButton_menu = LOW"
    "poll debounceDelay_menu ?wM 5 whiteButton_menu = HIGH"
    by (simp_all add: poll_demo cfg_defs rd_defs)
  have p5: "poll debounceDelay_v1 ?w5 0 (buzzers_v1 ! 0 ! 0) = HIGH"
    "poll debounceDelay_v1 ?w5 (Suc 0) whiteButton_v1 = HIGH"
    by (simp_all add: poll_pot poll_demo cfg_defs rd_defs)
  have p6: "poll debounceDelay_menu ?w6 0 (buzzers_menu ! 0 ! 0) = LOW"
    "poll debounceDelay_menu ?w6 (Suc 0) whiteButton_menu = LOW"
    "poll debounceDelay_menu ?w6 2 whiteButton_menu = LOW"
    "poll debounceDelay_menu ?w6 (Suc (Suc 0)) whiteButton_menu = LOW"
    "poll debounceDelay_menu ?w6 3 whiteButton_menu = HIGH"
    "poll debounceDelay_menu ?w6 (Suc (Suc (Suc 0))) whiteButton_menu = HIGH"
    by (simp_all add: poll_pot poll_demo cfg_defs rd_defs)
  have hP: "\<forall>i<2. waitCond ?wP 40000 (potDelayReset 1010) (0 + i) \<and>
          poll debounceDelay_v1 ?wP (0 + i) whiteButton_v1 \<noteq> HIGH"
    by (simp add: all_less_2 pP waitCond_iff s)
  have C: "resetWait debounceDelay_v1 HIGH whiteButton_v1 ?wP 40000 (potDelayReset 1010) 0 [] =
     Some (ManualReset, 3, [ReadWhite LOW, ReadWhite LOW, ReadWhite HIGH])"
    using resetWait_manual [OF hP, where tr = "[]"]
    by (simp add: pP u waitCond_iff s del: upt_Suc add_2_eq_Suc add_2_eq_Suc')
  have C': "ManualReset = ManualReset"
    using T [where sampled = 1010 and dd = debounceDelay_v1 and pressed = HIGH
        and wb = whiteButton_v1 and w = ?wP and ts = 40000 and n = 0 and tr = "[]"
        and ex = ManualReset and n' = 3
        and tr' = "[ReadWhite LOW, ReadWhite LOW, ReadWhite HIGH]", OF b(1,2),
        THEN conjunct2, THEN conjunct2, THEN conjunct1, THEN mp, OF conjI, OF b(3) C] .
  have hM: "\<forall>i<2. waitCond ?wM 40000 (potDelayReset 1010) (0 + i) \<and>
          poll debounceDelay_menu ?wM (0 + i) whiteButton_menu \<noteq> LOW"
    "\<forall>i<2. poll debounceDelay_menu ?wM (Suc (0 + 2) + i) whiteButton_menu = LOW"
    by (simp_all add: all_less_2 pM waitCond_iff s del: add_2_eq_Suc add_2_eq_Suc')
  have D: "resetWait_menu debounceDelay_menu whiteButton_menu ?wM 40000 (potDelayReset 1010) 0 [] =
     Some (ManualReset, 6, [ReadWhite HIGH, ReadWhite HIGH, ReadWhite LOW,
                            ReadWhite LOW, ReadWhite LOW, ReadWhite HIGH])"
    using resetWait_menu_manual [OF hM(1) _ _ hM(2), where tr = "[]"]
    by (simp add: pM u waitCond_iff s del: upt_Suc add_2_eq_Suc add_2_eq_Suc')
  have D': "ManualReset = ManualReset"
    using T [where sampled = 1010 and dd = debounceDelay_menu
        and wbm = whiteButton_menu and w = ?wM and ts = 40000 and n = 0 and tr = "[]"
        and ex = ManualReset and n' = 6
        and tr' = "[ReadWhite HIGH, ReadWhite HIGH, ReadWhite LOW,
                            ReadWhite LOW, ReadWhite LOW, ReadWhite HIGH]", OF b(1,2),
        THEN conjunct2, THEN conjunct2, THEN conjunct2, THEN conjunct1, THEN mp,
        OF conjI, OF b(3) D] .
  have sc5: "scanTeams debounceDelay_v1 HIGH buzzers_v1 ?w5 0 0 [] =
      (Some (0, 0), Suc 0, [ReadBuzzer 0 0 HIGH])"
    using scan_v1_first [OF p5(1), of "[]"] by simp
  have h5: "\<forall>i<0. waitCond ?w5 (millisT ?w5 (Suc 0)) (potDelayReset (analogRead ?w5 (Suc 0)))
        (Suc 0 + i) \<and>
      poll debounceDelay_v1 ?w5 (Suc 0 + i) whiteButton_v1 \<noteq> HIGH"
    by simp
  have rw5: "resetWait debounceDelay_v1 HIGH whiteButton_v1 ?w5 (millisT ?w5 (Suc 0))
      (potDelayReset (analogRead ?w5 (Suc 0))) (Suc 0)
      ([ReadBuzzer 0 0 HIGH] @ [DigitalWrite 5 LOW, DigitalWrite (pinLED (buzzers_v1 ! 0 ! 0)) HIGH])
      = Some (ManualReset, 2, [ReadBuzzer 0 0 HIGH, DigitalWrite 5 LOW, DigitalWrite 53 HIGH,
               ReadWhite HIGH])"
    using resetWait_manual [OF h5, where tr = "[ReadBuzzer 0 0 HIGH, DigitalWrite 5 LOW,
        DigitalWrite 53 HIGH]"]
    by (simp add: p5 g waitCond_iff s)
  have E: "loop_pot debounceDelay_v1 HIGH buzzers_v1 whiteButton_v1 5 ?w5 0 [] =
     Some (2, [ReadBuzzer 0 0 HIGH, DigitalWrite 5 LOW, DigitalWrite 53 HIGH,
               ReadWhite HIGH, DigitalWrite 5 HIGH, DigitalWrite 53 LOW])"
    using loop_pot_buzz [OF sc5 rw5] by (simp add: g)
  have H5: "analogRead ?w5 (Suc 0) = 1010 \<and> (1000::c_int) <s 1010 \<and>
      scanTeams debounceDelay_v1 HIGH buzzers_v1 ?w5 0 0 [] =
        (Some (0, 0), Suc 0, [ReadBuzzer 0 0 HIGH]) \<and>
      loop_pot debounceDelay_v1 HIGH buzzers_v1 whiteButton_v1 5 ?w5 0 [] =
        Some (2, [ReadBuzzer 0 0 HIGH, DigitalWrite 5 LOW, DigitalWrite 53 HIGH,
               ReadWhite HIGH, DigitalWrite 5 HIGH, DigitalWrite 53 LOW])"
    using sc5 E b(3) by simp
  have "\<exists>m\<ge>Suc 0. m < 2 \<and> poll debounceDelay_v1 ?w5 m whiteButton_v1 = HIGH"
    using T [where sampled = 1010 and dd = debounceDelay_v1 and pressed = HIGH
        and wb = whiteButton_v1 and w = ?w5 and n = 0 and tr = "[]" and ?n1.0 = "Suc 0"
        and bz = buzzers_v1 and g = 5 and win = "(0, 0)" and ?tr1.0 = "[ReadBuzzer 0 0 HIGH]"
        and n' = 2
        and tr' = "[ReadBuzzer 0 0 HIGH, DigitalWrite 5 LOW, DigitalWrite 53 HIGH,
               ReadWhite HIGH, DigitalWrite 5 HIGH, DigitalWrite 53 LOW]", OF b(1,2),
        THEN conjunct2, THEN conjunct2, THEN conjunct2, THEN conjunct2, THEN conjunct1,
        THEN mp, OF H5] .
  then obtain m where m: "Suc 0 \<le> m" "m < 2"
    "poll debounceDelay_v1 ?w5 m whiteButton_v1 = HIGH"
    by blast
  from m(1,2) have "m = 1"
    by simp
  with m(3) have E': "poll debounceDelay_v1 ?w5 1 whiteButton_v1 = HIGH"
    by simp
  have sc6: "scanTeams_menu True debounceDelay_menu buzzers_menu ?w6 0 whiteButton_menu 5000 0 [] =
      Some (Some (0, 0), whiteButton_menu, 5000, Suc 0, [ReadBuzzer 0 0 LOW])"
    using scan_menu_first [OF p6(1), where tr = "[]" and wb = whiteButton_menu and d = 5000] by simp
  have h6: "\<forall>i<0. waitCond ?w6 (millisT ?w6 (Suc 0)) (potDelayReset (analogRead ?w6 (Suc 0)))
        (Suc 0 + i) \<and>
      poll debounceDelay_menu ?w6 (Suc 0 + i) whiteButton_menu \<noteq> LOW"
    "\<forall>i<1. poll debounceDelay_menu ?w6 (Suc (Suc 0 + 0) + i) whiteButton_menu = LOW"
    by (simp_all add: p6)
  have rw6: "resetWait_menu debounceDelay_menu whiteButton_menu ?w6 (millisT ?w6 (Suc 0))
      (potDelayReset (analogRead ?w6 (Suc 0))) (Suc 0)
      ([ReadBuzzer 0 0 LOW] @ [DigitalWrite 5 LOW, DigitalWrite (pinLED (buzzers_menu ! 0 ! 0)) HIGH])
      = Some (ManualReset, 4, [ReadBuzzer 0 0 LOW, DigitalWrite 5 LOW, DigitalWrite 53 HIGH,
               ReadWhite LOW, ReadWhite LOW, ReadWhite HIGH])"
    using resetWait_menu_manual [OF h6(1) _ _ h6(2), where tr = "[ReadBuzzer 0 0 LOW,
        DigitalWrite 5 LOW, DigitalWrite 53 HIGH]"]
    by (simp add: p6 g u waitCond_iff s upt_conv_Cons del: upt_Suc add_2_eq_Suc add_2_eq_Suc')
  have F: "loop_menu True debounceDelay_menu buzzers_menu 5 ?w6 whiteButton_menu 5000 0 [] =
     Some (whiteButton_menu, potDelayReset 1010, 4,
           [ReadBuzzer 0 0 LOW, DigitalWrite 5 LOW, DigitalWrite 53 HIGH,
            ReadWhite LOW, ReadWhite LOW, ReadWhite HIGH,
            DigitalWrite 5 HIGH, DigitalWrite 53 LOW])"
    using loop_menu_buzz [OF sc6 rw6] by (simp add: g)
  have H6: "analogRead ?w6 (Suc 0) = 1010 \<and> (1000::c_int) <s 1010 \<and>
      scanTeams_menu True debounceDelay_menu buzzers_menu ?w6 0 whiteButton_menu 5000 0 [] =
        Some (Some (0, 0), whiteButton_menu, 5000, Suc 0, [ReadBuzzer 0 0 LOW]) \<and>
      loop_menu True debounceDelay_menu buzzers_menu 5 ?w6 whiteButton_menu 5000 0 [] =
        Some (whiteButton_menu, potDelayReset 1010, 4,
           [ReadBuzzer 0 0 LOW, DigitalWrite 5 LOW, DigitalWrite 53 HIGH,
            ReadWhite LOW, ReadWhite LOW, ReadWhite HIGH,
            DigitalWrite 5 HIGH, DigitalWrite 53 LOW])"
    using sc6 F b(3) by simp
  have "potDelayReset 1010 = potDelayReset 1010 \<and>
      (\<exists>m\<ge>Suc 0. m < 4 \<and> poll debounceDelay_menu ?w6 m whiteButton_menu = LOW)"
    using T [where sampled = 1010 and dd = debounceDelay_menu
        and wbm = whiteButton_menu and w = ?w6 and n = 0 and tr = "[]" and ?n1.0 = "Suc 0"
        and bz = buzzers_menu and g = 5 and win = "(0, 0)" and ?tr1.0 = "[ReadBuzzer 0 0 LOW]"
        and d = 5000 and ?d1.0 = 5000 and ?wb1.0 = whiteButton_menu and wb' = whiteButton_menu
        and d' = "potDelayReset 1010" and n' = 4
        and tr' = "[ReadBuzzer 0 0 LOW, DigitalWrite 5 LOW, DigitalWrite 53 HIGH,
            ReadWhite LOW, ReadWhite LOW, ReadWhite HIGH,
            DigitalWrite 5 HIGH, DigitalWrite 53 LOW]", OF b(1,2),
        THEN conjunct2, THEN conjunct2, THEN conjunct2, THEN conjunct2, THEN conjunct2,
        THEN mp, OF H6] .
  then have F': "\<exists>m. 1 \<le> m \<and> m < 4 \<and> poll debounceDelay_menu ?w6 m whiteButton_menu = LOW"
    by simp
  from a b A B C D E E' F F' show ?thesis
    by blast
qed

end
